(* ===== verification/Exchange_Prelude.thy ===== *)
theory Exchange_Prelude
  imports Main "HOL-Library.Word" "HOL-Library.AList" "HOL-Library.Multiset" "HOL-Library.Sublist"
begin

text \<open>
  What every component of the exchange shares: the part of the C and C++ standard library the
  sources use (character classes, \<^verbatim>\<open>std::to_string\<close>, \<^verbatim>\<open>std::string::find\<close>,
  the 64-bit \<^verbatim>\<open>long\<close>), the error numbers of the system calls, and generic lemmas on
  lists, association lists and strings.

  Conventions used throughout the development:
  \<^item> a \<^verbatim>\<open>std::string\<close> is a \<^typ>\<open>string\<close>, one \<^typ>\<open>char\<close> per byte;
  \<^item> a \<^verbatim>\<open>std::unordered_map\<close> is a HOL map, or an association list with distinct keys
    where the code iterates over it or asks for its size; a \<^verbatim>\<open>std::unordered_set\<close> is a
    list without duplicates;
  \<^item> a \<^verbatim>\<open>long\<close> is an \<^typ>\<open>int\<close> with its range stated by \<open>is_long\<close>, and
    a \<^typ>\<open>64 word\<close> where the code computes a value that might overflow.
\<close>

section \<open>Collections of facts\<close>

named_theorems frame_simps \<open>fields that an operation leaves unchanged\<close>
named_theorems text_simps \<open>facts on the characters of rendered messages\<close>

section \<open>The 64-bit long\<close>

definition is_long :: "int \<Rightarrow> bool" where
  "is_long x \<longleftrightarrow> - (2 ^ 63) \<le> x \<and> x < 2 ^ 63"

lemma is_long_sint [simp]: "is_long (sint (w :: 64 word))"
  using sint_range_size [of w] by (simp add: is_long_def word_size)

lemma sint_word_of_int_64: "is_long x \<Longrightarrow> sint (word_of_int x :: 64 word) = x"
  unfolding is_long_def by (simp add: sint_sbintrunc' signed_take_bit_int_eq_self)

section \<open>Error numbers of the system calls\<close>

datatype errno = EAGAIN | EWOULDBLOCK | EINTR | ECONNABORTED | EMFILE | ENFILE | ENOBUFS
  | ENOMEM | EPIPE | ECONNRESET | ECONNREFUSED | ETIMEDOUT | ENOENT | EOTHER int

section \<open>Characters and strings\<close>

abbreviation LF :: char where "LF \<equiv> CHR 0x0A"
abbreviation CR :: char where "CR \<equiv> CHR 0x0D"
abbreviation SP :: char where "SP \<equiv> CHR 0x20"

text \<open>The C locale's \<^verbatim>\<open>isspace\<close> and \<^verbatim>\<open>isdigit\<close>.\<close>

definition isspace :: "char \<Rightarrow> bool" where
  "isspace c \<longleftrightarrow> c = SP \<or> (9 \<le> (of_char c :: nat) \<and> (of_char c :: nat) \<le> 13)"

definition isdigit :: "char \<Rightarrow> bool" where
  "isdigit c \<longleftrightarrow> 48 \<le> (of_char c :: nat) \<and> (of_char c :: nat) \<le> 57"

lemma isspace_LF [simp]: "isspace LF" and isspace_CR [simp]: "isspace CR"
  and isspace_SP [simp]: "isspace SP"
  by (simp_all add: isspace_def)

lemma isdigit_not_isspace: "isdigit c \<Longrightarrow> \<not> isspace c"
  by (auto simp: isdigit_def isspace_def)

text \<open>What \<^verbatim>\<open>printf("%s", text.c_str())\<close> prints: the text up to its first zero byte.\<close>

definition c_str :: "string \<Rightarrow> string" where
  "c_str text = takeWhile (\<lambda>c. c \<noteq> CHR 0x00) text"

text \<open>\<^verbatim>\<open>std::to_string(long)\<close>: the decimal digits, with a minus sign for a negative value.\<close>

definition digit_char :: "nat \<Rightarrow> char" where
  "digit_char d = char_of (48 + d)"

fun nat_digits :: "nat \<Rightarrow> string" where
  "nat_digits n = (if n < 10 then [digit_char n] else nat_digits (n div 10) @ [digit_char (n mod 10)])"

declare nat_digits.simps [simp del]

definition to_string :: "int \<Rightarrow> string" where
  "to_string x = (if x < 0 then CHR ''-'' # nat_digits (nat (- x)) else nat_digits (nat x))"

lemma of_char_digit_char [simp]: "d < 10 \<Longrightarrow> (of_char (digit_char d) :: nat) = 48 + d"
  by (simp add: digit_char_def)

lemma isdigit_digit_char: "d < 10 \<Longrightarrow> isdigit (digit_char d)"
  by (simp add: isdigit_def)

lemma nat_digits_isdigit: "\<forall>c \<in> set (nat_digits n). isdigit c"
proof (induction n rule: nat_digits.induct)
  case (1 n)
  then show ?case
    by (subst nat_digits.simps) (auto simp: isdigit_digit_char)
qed

lemma nat_digits_not_Nil [simp]: "nat_digits n \<noteq> []"
  by (subst nat_digits.simps) simp

lemma length_nat_digits: "n < 10 ^ k \<Longrightarrow> 0 < k \<Longrightarrow> length (nat_digits n) \<le> k"
proof (induction n arbitrary: k rule: nat_digits.induct)
  case (1 n)
  show ?case
  proof (cases "n < 10")
    case True
    with 1 show ?thesis by (subst nat_digits.simps) simp
  next
    case False
    with 1(2,3) obtain k' where k: "k = Suc k'" "0 < k'"
      by (cases k; cases "k - 1") auto
    with 1(2) have "n div 10 < 10 ^ k'" by auto
    with 1(1) False k have "length (nat_digits (n div 10)) \<le> k'" by blast
    with False k show ?thesis by (subst nat_digits.simps) simp
  qed
qed

lemma to_string_no_space: "\<forall>c \<in> set (to_string x). \<not> isspace c"
proof -
  have "\<not> isspace CHR ''-''" by (simp add: isspace_def)
  then show ?thesis
    using nat_digits_isdigit by (auto simp: to_string_def dest: isdigit_not_isspace)
qed

lemma to_string_not_Nil [simp]: "to_string x \<noteq> []"
  by (simp add: to_string_def)

text \<open>\<^verbatim>\<open>std::string::find(c)\<close>: the first position of a character, \<^term>\<open>None\<close> for
  \<^verbatim>\<open>npos\<close>.\<close>

fun str_find :: "char \<Rightarrow> string \<Rightarrow> nat option" where
  "str_find c [] = None"
| "str_find c (x # xs) = (if x = c then Some 0 else map_option Suc (str_find c xs))"

lemma str_find_None [simp]: "str_find c s = None \<longleftrightarrow> c \<notin> set s"
  by (induction s) auto

lemma str_find_Some:
  "str_find c s = Some n \<Longrightarrow> n < length s \<and> s ! n = c \<and> c \<notin> set (take n s)"
  by (induction s arbitrary: n) (auto split: if_splits)

lemma str_find_split:
  "str_find c s = Some n \<Longrightarrow> s = take n s @ c # drop (Suc n) s"
  using str_find_Some [of c s n] id_take_nth_drop [of n s] by simp

lemma str_find_append_hit: "c \<notin> set xs \<Longrightarrow> str_find c (xs @ c # ys) = Some (length xs)"
  by (induction xs) auto

lemma str_find_append_left: "str_find c xs = Some n \<Longrightarrow> str_find c (xs @ ys) = Some n"
  by (induction xs arbitrary: n) (auto split: if_splits)

text \<open>One \<^verbatim>\<open>\r\<close> before the line end is tolerated, on both ends of a connection.\<close>

definition strip_cr :: "string \<Rightarrow> string" where
  "strip_cr line = (if line \<noteq> [] \<and> last line = CR then butlast line else line)"

section \<open>Lines of a text\<close>

text \<open>The reference: the complete lines of a text, and what follows the last line end.\<close>

fun split_lines :: "string \<Rightarrow> string list \<times> string" where
  "split_lines [] = ([], [])"
| "split_lines (x # xs) =
     (let (ls, rest) = split_lines xs
      in if x = LF then ([] # ls, rest)
         else case ls of [] \<Rightarrow> ([], x # rest) | l # ls' \<Rightarrow> ((x # l) # ls', rest))"

definition unlines :: "string list \<Rightarrow> string" where
  "unlines ls = concat (map (\<lambda>l. l @ [LF]) ls)"

lemma unlines_simps [simp]:
  "unlines [] = []" "unlines (l # ls) = l @ LF # unlines ls" "unlines (ls @ ls') = unlines ls @ unlines ls'"
  by (simp_all add: unlines_def)

lemma split_line: "LF \<notin> set l \<Longrightarrow> split_lines (l @ LF # xs) = (l # fst (split_lines xs), snd (split_lines xs))"
  by (induction l) (auto simp: case_prod_unfold Let_def)

lemma split_none: "LF \<notin> set xs \<Longrightarrow> split_lines xs = ([], xs)"
  by (induction xs) (auto simp: Let_def)

lemma split_unlines: "\<forall>l \<in> set ls. LF \<notin> set l \<Longrightarrow> LF \<notin> set rest \<Longrightarrow> split_lines (unlines ls @ rest) = (ls, rest)"
  by (induction ls) (simp_all add: split_none split_line)

lemma split_lines_sound:
  "unlines (fst (split_lines xs)) @ snd (split_lines xs) = xs" "LF \<notin> set (snd (split_lines xs))"
  "\<forall>l \<in> set (fst (split_lines xs)). LF \<notin> set l"
  by (induction xs) (auto simp: case_prod_unfold Let_def split: list.split)

lemma split_found:
  assumes "str_find LF xs = Some n"
  shows "split_lines xs = (take n xs # fst (split_lines (drop (Suc n) xs)), snd (split_lines (drop (Suc n) xs)))"
proof -
  have "split_lines (take n xs @ LF # drop (Suc n) xs) = (take n xs # fst (split_lines (drop (Suc n) xs)), snd (split_lines (drop (Suc n) xs)))"
    using str_find_Some [OF assms] by (intro split_line) simp
  then show ?thesis by (simp add: str_find_split [OF assms, symmetric])
qed

lemma whole_lines_split: "xs = [] \<or> last xs = LF \<Longrightarrow> snd (split_lines xs) = []"
proof -
  assume xs: "xs = [] \<or> last xs = LF"
  show ?thesis
  proof (rule ccontr)
    assume rest: "snd (split_lines xs) \<noteq> []"
    then have "last xs = last (snd (split_lines xs))"
      using split_lines_sound(1) [of xs] by (metis last_appendR)
    moreover have "last (snd (split_lines xs)) \<in> set (snd (split_lines xs))" using rest by simp
    ultimately have "last xs \<noteq> LF" using split_lines_sound(2) [of xs] by auto
    with xs rest show False using split_lines_sound(1) [of xs] by auto
  qed
qed

lemma split_lines_append:
  "split_lines (xs @ ys) =
     (fst (split_lines xs) @ fst (split_lines (snd (split_lines xs) @ ys)), snd (split_lines (snd (split_lines xs) @ ys)))"
proof -
  define zs where "zs = snd (split_lines xs) @ ys"
  have "split_lines (unlines (fst (split_lines xs) @ fst (split_lines zs)) @ snd (split_lines zs)) =
      (fst (split_lines xs) @ fst (split_lines zs), snd (split_lines zs))"
    using split_lines_sound by (intro split_unlines) auto
  moreover have "unlines (fst (split_lines xs) @ fst (split_lines zs)) @ snd (split_lines zs) = xs @ ys"
    using split_lines_sound(1) [of xs] split_lines_sound(1) [of zs] by (simp add: zs_def)
  ultimately show ?thesis by (simp add: zs_def)
qed

section \<open>Association lists\<close>

lemma map_of_AList_update [simp]: "map_of (AList.update k v al) = (map_of al)(k \<mapsto> v)"
  by (rule update_conv')

lemma map_of_AList_delete [simp]: "map_of (AList.delete k al) = (map_of al)(k := None)"
  by (rule delete_conv')

lemma distinct_keys_update: "distinct (map fst al) \<Longrightarrow> distinct (map fst (AList.update k v al))"
  by (rule distinct_update)

lemma distinct_keys_delete: "distinct (map fst al) \<Longrightarrow> distinct (map fst (AList.delete k al))"
  by (rule distinct_delete)

lemma AList_delete_update [simp]: "AList.delete k (AList.update k v al) = AList.delete k al"
  by (induction al) (auto simp: AList.delete_eq)

end
