(* ===== verification/Order_Book.thy ===== *)
theory Order_Book
  imports Exchange_Prelude
begin

text \<open>
  The order book, \<^verbatim>\<open>src/src/trading/order_book.hpp\<close> and \<^verbatim>\<open>order_book.cpp\<close>.
  The FIFO queues are \<^verbatim>\<open>std::list\<close>s whose iterators are kept in \<^verbatim>\<open>index_\<close>, so the
  model keeps the identity of list nodes: a queue is a list of (node, order) pairs and a
  \<open>Location\<close> names a queue and a node of it. Dereferencing or erasing a node that is not in its
  queue is undefined behaviour in C++; the model records it in the ghost field \<open>dangling\<close>.
  The theory shows that the index and the queues stay consistent (so \<open>dangling\<close> is never set),
  that matching follows price and submission order and conserves quantity, what cancellation and
  disconnection do, and that the whole book implements a book without nodes and without an index.
\<close>

section \<open>Data\<close>

datatype Side = Side_BUY | Side_SELL

record Order =
  o_id :: int
  o_owner_fd :: int
  o_instrument :: string
  o_side :: Side
  o_quantity :: int
  o_price :: int

record TradeExecution =
  x_buyer_fd :: int
  x_seller_fd :: int
  x_instrument :: string
  x_quantity :: int
  x_price :: int

text \<open>A pointer to one of the lists held in \<open>buys_\<close> or \<open>sells_\<close>.\<close>

datatype queue_key = Queue (q_side: Side) (q_instrument: string)

type_synonym order_list = "(nat \<times> Order) list"

record Location =
  loc_queue :: queue_key
  loc_it :: nat

text \<open>\<open>buys_\<close> and \<open>sells_\<close> are reached only through \<^verbatim>\<open>operator[]\<close>, for which an absent
  and an empty queue are the same, so they are total functions. \<open>heap_next\<close> is the next fresh
  node identity handed out by \<^verbatim>\<open>push_back\<close>.\<close>

record OrderBook =
  next_order_id :: int
  buys :: "string \<Rightarrow> order_list"
  sells :: "string \<Rightarrow> order_list"
  order_index :: "(int \<times> Location) list"
  heap_next :: nat
  dangling :: bool

definition empty_book :: OrderBook where
  "empty_book = \<lparr>next_order_id = 1, buys = (\<lambda>_. []), sells = (\<lambda>_. []), order_index = [],
     heap_next = 0, dangling = False\<rparr>"

section \<open>Queues and nodes\<close>

fun queue_of :: "queue_key \<Rightarrow> OrderBook \<Rightarrow> order_list" where
  "queue_of (Queue Side_BUY i) b = buys b i"
| "queue_of (Queue Side_SELL i) b = sells b i"

fun set_queue :: "queue_key \<Rightarrow> order_list \<Rightarrow> OrderBook \<Rightarrow> OrderBook" where
  "set_queue (Queue Side_BUY i) q b = b\<lparr>buys := (buys b)(i := q)\<rparr>"
| "set_queue (Queue Side_SELL i) q b = b\<lparr>sells := (sells b)(i := q)\<rparr>"

fun opposite :: "Side \<Rightarrow> Side" where
  "opposite Side_BUY = Side_SELL"
| "opposite Side_SELL = Side_BUY"

text \<open>\<^verbatim>\<open>*location.it\<close>; \<^term>\<open>None\<close> when the iterator does not point into its queue.\<close>

definition deref :: "Location \<Rightarrow> OrderBook \<Rightarrow> Order option" where
  "deref l b = map_of (queue_of (loc_queue l) b) (loc_it l)"

text \<open>\<^verbatim>\<open>location.queue->erase(location.it)\<close>.\<close>

definition list_erase :: "Location \<Rightarrow> OrderBook \<Rightarrow> OrderBook" where
  "list_erase l b =
     (case deref l b of
        None \<Rightarrow> b\<lparr>dangling := True\<rparr>
      | Some _ \<Rightarrow>
          set_queue (loc_queue l)
            (filter (\<lambda>(n, _). n \<noteq> loc_it l) (queue_of (loc_queue l) b)) b)"

section \<open>Operations\<close>

definition erase_at :: "int \<Rightarrow> Location \<Rightarrow> OrderBook \<Rightarrow> OrderBook" where
  "erase_at oid l b =
     (let b' = list_erase l b in b'\<lparr>order_index := AList.delete oid (order_index b')\<rparr>)"

text \<open>The execution pushed by one pass of the matching loop, against the resting order \<open>r\<close>.\<close>

definition make_execution :: "int \<Rightarrow> string \<Rightarrow> Side \<Rightarrow> int \<Rightarrow> Order \<Rightarrow> int \<Rightarrow> TradeExecution" where
  "make_execution owner instrument side price r traded =
     \<lparr>x_buyer_fd = (if side = Side_BUY then owner else o_owner_fd r),
      x_seller_fd = (if side = Side_BUY then o_owner_fd r else owner),
      x_instrument = instrument, x_quantity = traded, x_price = price\<rparr>"

text \<open>The loop over the opposite queue: it returns the queue it leaves, the quantity that
  remains, the index and the executions.\<close>

fun match_loop :: "int \<Rightarrow> string \<Rightarrow> Side \<Rightarrow> int \<Rightarrow> order_list \<Rightarrow> int \<Rightarrow> (int \<times> Location) list \<Rightarrow>
    TradeExecution list \<Rightarrow> order_list \<times> int \<times> (int \<times> Location) list \<times> TradeExecution list" where
  "match_loop owner instrument side price [] remaining idx ex = ([], remaining, idx, ex)"
| "match_loop owner instrument side price ((n, r) # rest) remaining idx ex =
     (if \<not> remaining > 0 then ((n, r) # rest, remaining, idx, ex)
      else if o_price r \<noteq> price then
        (let (rest', remaining', idx', ex') =
           match_loop owner instrument side price rest remaining idx ex
         in ((n, r) # rest', remaining', idx', ex'))
      else
        (let traded = min remaining (o_quantity r);
             execution = make_execution owner instrument side price r traded;
             r' = r\<lparr>o_quantity := o_quantity r - traded\<rparr>
         in if o_quantity r' = 0
            then match_loop owner instrument side price rest (remaining - traded)
                   (AList.delete (o_id r) idx) (ex @ [execution])
            else (let (rest', remaining', idx', ex') =
                    match_loop owner instrument side price rest (remaining - traded) idx
                      (ex @ [execution])
                  in ((n, r') # rest', remaining', idx', ex'))))"

definition rest_order :: "Order \<Rightarrow> OrderBook \<Rightarrow> OrderBook" where
  "rest_order order b =
     (let key = Queue (o_side order) (o_instrument order);
          node = heap_next b;
          b' = set_queue key (queue_of key b @ [(node, order)]) b
      in b'\<lparr>order_index := AList.update (o_id order) \<lparr>loc_queue = key, loc_it = node\<rparr> (order_index b'),
            heap_next := Suc node\<rparr>)"

definition add_order :: "int \<Rightarrow> string \<Rightarrow> Side \<Rightarrow> int \<Rightarrow> int \<Rightarrow> TradeExecution list \<Rightarrow> OrderBook \<Rightarrow>
    int \<times> TradeExecution list \<times> OrderBook" where
  "add_order owner instrument side qty price executions b =
     (let oid = next_order_id b;
          b1 = b\<lparr>next_order_id := next_order_id b + 1\<rparr>;
          opp = Queue (opposite side) instrument;
          (q', remaining, idx, ex) =
            match_loop owner instrument side price (queue_of opp b1) qty (order_index b1) executions;
          b2 = (set_queue opp q' b1)\<lparr>order_index := idx\<rparr>;
          b3 = (if remaining > 0
                then rest_order \<lparr>o_id = oid, o_owner_fd = owner, o_instrument = instrument,
                       o_side = side, o_quantity = remaining, o_price = price\<rparr> b2
                else b2)
      in (oid, ex, b3))"

definition no_such_order :: "int \<Rightarrow> string" where
  "no_such_order oid = ''No such order with unfilled quantity: '' @ to_string oid"

definition other_trader :: "int \<Rightarrow> string" where
  "other_trader oid = ''Order '' @ to_string oid @ '' belongs to another trader''"

text \<open>\<^verbatim>\<open>cancel_order\<close> returns \<^verbatim>\<open>true\<close>, or \<^verbatim>\<open>false\<close> and the error text.\<close>

definition cancel_order :: "int \<Rightarrow> int \<Rightarrow> OrderBook \<Rightarrow> (string + unit) \<times> OrderBook" where
  "cancel_order oid requester b =
     (case map_of (order_index b) oid of
        None \<Rightarrow> (Inl (no_such_order oid), b)
      | Some l \<Rightarrow>
          (case deref l b of
             None \<Rightarrow> (Inl [], b\<lparr>dangling := True\<rparr>)
           | Some r \<Rightarrow>
               (if o_owner_fd r \<noteq> requester then (Inl (other_trader oid), b)
                else (Inr (), erase_at oid l b))))"

text \<open>The iteration of \<^verbatim>\<open>remove_orders_of\<close> over the entries of \<open>index_\<close>.\<close>

fun remove_loop :: "int \<Rightarrow> (int \<times> Location) list \<Rightarrow> OrderBook \<Rightarrow> OrderBook" where
  "remove_loop owner [] b = b"
| "remove_loop owner ((k, l) # rest) b =
     (case deref l b of
        None \<Rightarrow> remove_loop owner rest (b\<lparr>dangling := True\<rparr>)
      | Some r \<Rightarrow>
          (if o_owner_fd r = owner then remove_loop owner rest (erase_at k l b)
           else remove_loop owner rest b))"

definition remove_orders_of :: "int \<Rightarrow> OrderBook \<Rightarrow> OrderBook" where
  "remove_orders_of owner b = remove_loop owner (order_index b) b"

definition resting_order_count :: "OrderBook \<Rightarrow> nat" where
  "resting_order_count b = length (order_index b)"

section \<open>Reference definitions\<close>

text \<open>How an incoming quantity \<open>rem\<close> at price \<open>p\<close> is shared among resting orders in queue order:
  an order at the price takes as much as it can, any other takes nothing.\<close>

fun alloc :: "int \<Rightarrow> int \<Rightarrow> Order list \<Rightarrow> int list" where
  "alloc p rem [] = []"
| "alloc p rem (r # rs) =
     (let t = (if o_price r = p then min rem (o_quantity r) else 0) in t # alloc p (rem - t) rs)"

definition volume :: "Order list \<Rightarrow> int" where
  "volume rs = sum_list (map o_quantity rs)"

definition at_price :: "int \<Rightarrow> Order list \<Rightarrow> Order list" where
  "at_price p rs = filter (\<lambda>r. o_price r = p) rs"

definition reduce_order :: "Order \<Rightarrow> int \<Rightarrow> Order" where
  "reduce_order r t = r\<lparr>o_quantity := o_quantity r - t\<rparr>"

definition residual_orders :: "Order list \<Rightarrow> int list \<Rightarrow> Order list" where
  "residual_orders rs ts =
     map (\<lambda>(r, t). reduce_order r t) (filter (\<lambda>(r, t). t < o_quantity r) (zip rs ts))"

definition executions_of :: "int \<Rightarrow> string \<Rightarrow> Side \<Rightarrow> int \<Rightarrow> Order list \<Rightarrow> int list \<Rightarrow> TradeExecution list" where
  "executions_of owner i s p rs ts =
     map (\<lambda>(r, t). make_execution owner i s p r t) (filter (\<lambda>(r, t). 0 < t) (zip rs ts))"

text \<open>The same on queues with nodes, and the ids that leave the book.\<close>

definition residual :: "order_list \<Rightarrow> int list \<Rightarrow> order_list" where
  "residual q ts =
     map (\<lambda>((n, r), t). (n, reduce_order r t)) (filter (\<lambda>((n, r), t). t < o_quantity r) (zip q ts))"

definition filled_ids :: "Order list \<Rightarrow> int list \<Rightarrow> int list" where
  "filled_ids rs ts = map (\<lambda>(r, t). o_id r) (filter (\<lambda>(r, t). t = o_quantity r) (zip rs ts))"

text \<open>The book without nodes and without an index.\<close>

record abook =
  a_next :: int
  a_queue :: "queue_key \<Rightarrow> Order list"

definition abs_book :: "OrderBook \<Rightarrow> abook" where
  "abs_book b = \<lparr>a_next = next_order_id b, a_queue = (\<lambda>k. map snd (queue_of k b))\<rparr>"

definition spec_add :: "int \<Rightarrow> string \<Rightarrow> Side \<Rightarrow> int \<Rightarrow> int \<Rightarrow> abook \<Rightarrow> int \<times> TradeExecution list \<times> abook" where
  "spec_add owner i s qty p a =
     (let opp = Queue (opposite s) i;
          ts = alloc p qty (a_queue a opp);
          left = qty - sum_list ts;
          Q = (a_queue a)(opp := residual_orders (a_queue a opp) ts);
          new = \<lparr>o_id = a_next a, o_owner_fd = owner, o_instrument = i, o_side = s,
                 o_quantity = left, o_price = p\<rparr>;
          Q' = (if 0 < left then Q(Queue s i := Q (Queue s i) @ [new]) else Q)
      in (a_next a, executions_of owner i s p (a_queue a opp) ts,
          \<lparr>a_next = a_next a + 1, a_queue = Q'\<rparr>))"

definition a_resting :: "abook \<Rightarrow> Order set" where
  "a_resting a = (\<Union>k. set (a_queue a k))"

definition spec_cancel :: "int \<Rightarrow> int \<Rightarrow> abook \<Rightarrow> (string + unit) \<times> abook" where
  "spec_cancel oid requester a =
     (if \<forall>r \<in> a_resting a. o_id r \<noteq> oid then (Inl (no_such_order oid), a)
      else if \<exists>r \<in> a_resting a. o_id r = oid \<and> o_owner_fd r \<noteq> requester
      then (Inl (other_trader oid), a)
      else (Inr (), a\<lparr>a_queue := (\<lambda>k. filter (\<lambda>r. o_id r \<noteq> oid) (a_queue a k))\<rparr>))"

definition spec_remove :: "int \<Rightarrow> abook \<Rightarrow> abook" where
  "spec_remove owner a = a\<lparr>a_queue := (\<lambda>k. filter (\<lambda>r. o_owner_fd r \<noteq> owner) (a_queue a k))\<rparr>"

section \<open>The invariant of the book\<close>

definition queue_ok :: "queue_key \<Rightarrow> int \<Rightarrow> nat \<Rightarrow> order_list \<Rightarrow> bool" where
  "queue_ok key nid hp q \<longleftrightarrow>
     (\<forall>(n, r) \<in> set q. Queue (o_side r) (o_instrument r) = key \<and> 0 < o_quantity r
        \<and> 0 < o_id r \<and> o_id r < nid \<and> n < hp)
     \<and> sorted_wrt (<) (map fst q) \<and> sorted_wrt (<) (map (\<lambda>(n, r). o_id r) q)"

definition index_ok :: "OrderBook \<Rightarrow> bool" where
  "index_ok b \<longleftrightarrow> distinct (map fst (order_index b)) \<and>
     (\<forall>oid l. map_of (order_index b) oid = Some l \<longleftrightarrow>
        (\<exists>r. (loc_it l, r) \<in> set (queue_of (loc_queue l) b) \<and> o_id r = oid))"

text \<open>No two resting orders could still trade with each other.\<close>

definition uncrossed :: "OrderBook \<Rightarrow> bool" where
  "uncrossed b \<longleftrightarrow>
     (\<forall>i. \<forall>x \<in> snd ` set (buys b i). \<forall>y \<in> snd ` set (sells b i). o_price x \<noteq> o_price y)"

definition book_inv :: "OrderBook \<Rightarrow> bool" where
  "book_inv b \<longleftrightarrow>
     (\<forall>k. queue_ok k (next_order_id b) (heap_next b) (queue_of k b))
     \<and> index_ok b \<and> uncrossed b \<and> 0 < next_order_id b \<and> \<not> dangling b"

definition resting :: "OrderBook \<Rightarrow> Order set" where
  "resting b = (\<Union>k. snd ` set (queue_of k b))"

section \<open>Queues\<close>

lemma queue_of_set_queue [simp]:
  "queue_of k (set_queue k' q b) = (if k = k' then q else queue_of k b)"
  by (cases k; cases k'; cases "q_side k"; cases "q_side k'") auto

lemma set_queue_fields [simp]:
  "next_order_id (set_queue k q b) = next_order_id b"
  "order_index (set_queue k q b) = order_index b"
  "heap_next (set_queue k q b) = heap_next b"
  "dangling (set_queue k q b) = dangling b"
  by (cases k; cases "q_side k"; simp)+

lemma queue_of_updates [simp]:
  "queue_of k (b\<lparr>next_order_id := x\<rparr>) = queue_of k b"
  "queue_of k (b\<lparr>order_index := y\<rparr>) = queue_of k b"
  "queue_of k (b\<lparr>heap_next := z\<rparr>) = queue_of k b"
  "queue_of k (b\<lparr>dangling := d\<rparr>) = queue_of k b"
  by (cases k; cases "q_side k"; simp)+

lemma opposite_neq [simp]: "opposite s \<noteq> s" "s \<noteq> opposite s"
  by (cases s; simp)+

lemma queue_ok_distinct: "queue_ok k nid hp q \<Longrightarrow> distinct (map fst q)"
  unfolding queue_ok_def using strict_sorted_iff by blast

lemma uncrossed_iff:
  "uncrossed b \<longleftrightarrow>
     (\<forall>s i. \<forall>x \<in> snd ` set (queue_of (Queue s i) b). \<forall>y \<in> snd ` set (queue_of (Queue (opposite s) i) b).
        o_price x \<noteq> o_price y)" (is "?L = ?R")
proof
  assume ?L
  show ?R
  proof (intro allI)
    fix s i
    show "\<forall>x \<in> snd ` set (queue_of (Queue s i) b). \<forall>y \<in> snd ` set (queue_of (Queue (opposite s) i) b).
        o_price x \<noteq> o_price y"
      using \<open>?L\<close> unfolding uncrossed_def by (cases s) fastforce+
  qed
next
  assume R: ?R
  show ?L
    unfolding uncrossed_def
  proof (intro allI)
    fix i
    show "\<forall>x\<in>snd ` set (buys b i). \<forall>y\<in>snd ` set (sells b i). o_price x \<noteq> o_price y"
      using R [rule_format, of _ Side_BUY i] by simp
  qed
qed

lemma uncrossedD:
  assumes "uncrossed b" and "x \<in> snd ` set (queue_of (Queue s i) b)"
    and "y \<in> snd ` set (queue_of (Queue (opposite s) i) b)"
  shows "o_price x \<noteq> o_price y"
  using assms unfolding uncrossed_iff by blast

section \<open>Matching\<close>

lemma reduce_order_0 [simp]: "reduce_order r 0 = r"
  by (simp add: reduce_order_def)

lemma reduce_order_fields [simp]:
  "o_id (reduce_order r t) = o_id r" "o_owner_fd (reduce_order r t) = o_owner_fd r"
  "o_instrument (reduce_order r t) = o_instrument r" "o_side (reduce_order r t) = o_side r"
  "o_price (reduce_order r t) = o_price r" "o_quantity (reduce_order r t) = o_quantity r - t"
  by (simp_all add: reduce_order_def)

lemma length_alloc [simp]: "length (alloc p rem rs) = length rs"
  by (induction rs arbitrary: rem) (auto simp: Let_def)

lemma alloc_0: "\<forall>r \<in> set rs. 0 < o_quantity r \<Longrightarrow> alloc p 0 rs = replicate (length rs) 0"
  by (induction rs) auto

lemma alloc_bounds:
  assumes "\<forall>r \<in> set rs. 0 < o_quantity r" and "0 \<le> rem"
    and "(r, t) \<in> set (zip rs (alloc p rem rs))"
  shows "0 \<le> t \<and> t \<le> o_quantity r"
  using assms
proof (induction rs arbitrary: rem)
  case (Cons x rs)
  have "0 \<le> rem - (if o_price x = p then min rem (o_quantity x) else 0)"
    using Cons.prems(2) by auto
  from Cons.IH [OF _ this] Cons.prems show ?case
    by (auto simp: Let_def)
qed simp

lemma map_snd_residual:
  "length ts = length q \<Longrightarrow> map snd (residual q ts) = residual_orders (map snd q) ts"
  by (induction q ts rule: list_induct2')
     (auto simp: residual_def residual_orders_def)

lemma residual_zeros:
  "\<forall>r \<in> set (map snd q). 0 < o_quantity r \<Longrightarrow> residual q (replicate (length q) 0) = q"
  by (induction q) (auto simp: residual_def)

lemma executions_of_zeros [simp]: "executions_of owner i s p rs (replicate n 0) = []"
  by (auto simp: executions_of_def filter_empty_conv dest: set_zip_rightD)

lemma filled_ids_zeros: "\<forall>r \<in> set rs. 0 < o_quantity r \<Longrightarrow> filled_ids rs (replicate n 0) = []"
  by (force simp: filled_ids_def filter_empty_conv dest: set_zip_rightD set_zip_leftD)

lemma residual_Cons:
  "residual ((n, r) # q) (t # ts) =
     (if t < o_quantity r then (n, reduce_order r t) # residual q ts else residual q ts)"
  by (simp add: residual_def)

lemma executions_of_Cons:
  "executions_of owner i s p (r # rs) (t # ts) =
     (if 0 < t then make_execution owner i s p r t # executions_of owner i s p rs ts
      else executions_of owner i s p rs ts)"
  by (simp add: executions_of_def)

lemma filled_ids_Cons:
  "filled_ids (r # rs) (t # ts) =
     (if t = o_quantity r then o_id r # filled_ids rs ts else filled_ids rs ts)"
  by (simp add: filled_ids_def)

lemmas match_spec_simps = residual_Cons executions_of_Cons filled_ids_Cons

lemma match_loop_eq:
  assumes "\<forall>r \<in> set (map snd q). 0 < o_quantity r" and "0 \<le> rem"
  shows "match_loop owner i s p q rem idx ex =
    (let ts = alloc p rem (map snd q)
     in (residual q ts, rem - sum_list ts, fold AList.delete (filled_ids (map snd q) ts) idx,
         ex @ executions_of owner i s p (map snd q) ts))"
  using assms
proof (induction owner i s p q rem idx ex rule: match_loop.induct)
  case (1 owner i s p rem idx ex)
  then show ?case by (simp add: residual_def filled_ids_def executions_of_def)
next
  case (2 owner i s p n r rest rem idx ex)
  show ?case
  proof (cases "0 < rem")
    case False
    with 2 have "rem = 0" by simp
    with 2 show ?thesis
      by (simp add: alloc_0 sum_list_replicate Let_def match_spec_simps filled_ids_zeros
          residual_zeros min_absorb1 cong: if_cong)
  next
    case pos: True
    show ?thesis
    proof (cases "o_price r = p")
      case False
      with 2 pos show ?thesis by (simp add: Let_def match_spec_simps)
    next
      case True
      with 2 pos show ?thesis
        by (cases "rem < o_quantity r")
           (auto simp: Let_def match_spec_simps min_def reduce_order_def)
    qed
  qed
qed

lemma volume_simps [simp]:
  "volume [] = 0" "volume (r # rs) = o_quantity r + volume rs"
  "volume (rs @ rs') = volume rs + volume rs'"
  by (simp_all add: volume_def)

lemma at_price_simps [simp]:
  "at_price p [] = []"
  "at_price p (r # rs) = (if o_price r = p then r # at_price p rs else at_price p rs)"
  by (simp_all add: at_price_def)

lemma volume_nonneg: "\<forall>r \<in> set rs. 0 < o_quantity r \<Longrightarrow> 0 \<le> volume (at_price p rs)"
  by (induction rs) auto

lemma sum_alloc:
  "\<forall>r \<in> set rs. 0 < o_quantity r \<Longrightarrow> 0 \<le> rem \<Longrightarrow>
     sum_list (alloc p rem rs) = min rem (volume (at_price p rs))"
proof (induction rs arbitrary: rem)
  case (Cons r rs)
  then show ?case
    using volume_nonneg [of rs p] by (cases "rem < o_quantity r") (auto simp: Let_def min_def)
qed simp

text \<open>When something of the incoming order is left, every resting order at its price is filled.\<close>

lemma alloc_nonneg:
  assumes "\<forall>r \<in> set rs. 0 < o_quantity r" and "0 \<le> rem"
  shows "\<forall>t \<in> set (alloc p rem rs). 0 \<le> t"
proof
  fix t assume "t \<in> set (alloc p rem rs)"
  then obtain r where "(r, t) \<in> set (zip rs (alloc p rem rs))"
    by (metis in_set_impl_in_set_zip2 length_alloc)
  with alloc_bounds [OF assms] show "0 \<le> t" by blast
qed

lemma alloc_exhausts:
  assumes "\<forall>r \<in> set rs. 0 < o_quantity r" and "0 \<le> rem" and "0 < rem - sum_list (alloc p rem rs)"
    and "(r, t) \<in> set (zip rs (alloc p rem rs))" and "o_price r = p"
  shows "t = o_quantity r"
  using assms
proof (induction rs arbitrary: rem)
  case (Cons x rs)
  let ?t = "if o_price x = p then min rem (o_quantity x) else 0"
  have rem': "0 \<le> rem - ?t" using Cons.prems(2) by auto
  have left: "0 < (rem - ?t) - sum_list (alloc p (rem - ?t) rs)"
    using Cons.prems(3) by (simp add: Let_def algebra_simps)
  consider "(r, t) = (x, ?t)" | "(r, t) \<in> set (zip rs (alloc p (rem - ?t) rs))"
    using Cons.prems(4) by (auto simp: Let_def)
  then show ?case
  proof cases
    case 1
    have "0 \<le> sum_list (alloc p (rem - ?t) rs)"
      using Cons.prems(1) rem' volume_nonneg [of rs p] by (simp add: sum_alloc)
    with 1 left Cons.prems(5) show ?thesis by (auto simp: min_def split: if_splits)
  next
    case 2
    with Cons.IH [OF _ rem' left] Cons.prems(1,5) show ?thesis by simp
  qed
qed simp

section \<open>Index and queues\<close>

definition node_ids :: "order_list \<Rightarrow> (nat \<times> int) set" where
  "node_ids q = (\<lambda>(n, r). (n, o_id r)) ` set q"

lemma node_ids_iff: "(n, oid) \<in> node_ids q \<longleftrightarrow> (\<exists>r. (n, r) \<in> set q \<and> o_id r = oid)"
  by (force simp: node_ids_def)

lemma index_ok_iff:
  "index_ok b \<longleftrightarrow> distinct (map fst (order_index b)) \<and>
     (\<forall>oid l. map_of (order_index b) oid = Some l \<longleftrightarrow> (loc_it l, oid) \<in> node_ids (queue_of (loc_queue l) b))"
  by (simp add: index_ok_def node_ids_iff)

lemma index_okD:
  assumes "index_ok b" and "(n, oid) \<in> node_ids (queue_of k b)"
  shows "map_of (order_index b) oid = Some \<lparr>loc_queue = k, loc_it = n\<rparr>"
  using assms by (simp add: index_ok_iff)

lemma id_unique:
  assumes "index_ok b" and "(n, oid) \<in> node_ids (queue_of k b)" and "(n', oid) \<in> node_ids (queue_of k' b)"
  shows "k = k' \<and> n = n'"
  using index_okD [OF assms(1,2)] index_okD [OF assms(1,3)] by simp

lemma index_ok_shrink:
  assumes "index_ok b" and "distinct (map fst (order_index b'))"
    and "map_of (order_index b') = map_of (order_index b) |` (- D)"
    and "\<And>k. node_ids (queue_of k b') = {x \<in> node_ids (queue_of k b). snd x \<notin> D}"
  shows "index_ok b'"
  using assms by (auto simp: index_ok_iff restrict_map_def)

lemma map_of_fold_delete:
  "map_of (fold AList.delete ks al) = map_of al |` (- set ks)"
  by (induction ks arbitrary: al) (auto simp: restrict_map_def fun_eq_iff)

lemma distinct_fold_delete:
  "distinct (map fst al) \<Longrightarrow> distinct (map fst (fold AList.delete ks al))"
  by (induction ks arbitrary: al) (auto simp: distinct_keys_delete)

lemma queue_okD:
  assumes "queue_ok k nid hp q" and "(n, r) \<in> set q"
  shows "Queue (o_side r) (o_instrument r) = k" "o_side r = q_side k" "0 < o_quantity r" "0 < o_id r"
    "o_id r < nid" "n < hp"
  using assms unfolding queue_ok_def by fastforce+

lemma queue_ok_pos: "queue_ok k nid hp q \<Longrightarrow> \<forall>r \<in> set (map snd q). 0 < o_quantity r"
  by (auto dest: queue_okD)

lemma queue_ok_mono: "queue_ok k nid hp q \<Longrightarrow> nid \<le> nid' \<Longrightarrow> hp \<le> hp' \<Longrightarrow> queue_ok k nid' hp' q"
  unfolding queue_ok_def by fastforce

lemma queue_ok_filter: "queue_ok k nid hp q \<Longrightarrow> queue_ok k nid hp (filter P q)"
  unfolding queue_ok_def by (auto simp: sorted_wrt_map intro: sorted_wrt_filter)

lemma residual_mem:
  "(n, r') \<in> set (residual q ts) \<longleftrightarrow>
     (\<exists>r t. ((n, r), t) \<in> set (zip q ts) \<and> t < o_quantity r \<and> r' = reduce_order r t)"
  by (force simp: residual_def)

lemma zip_map_snd: "((n, r), t) \<in> set (zip q ts) \<Longrightarrow> (r, t) \<in> set (zip (map snd q) ts)"
  by (force simp: zip_map1)

lemma sorted_wrt_residual:
  assumes "sorted_wrt (<) (map f q)" and "\<And>n r t. f (n, reduce_order r t) = f (n, r)"
    and "length ts = length q"
  shows "sorted_wrt (<) (map (f :: nat \<times> Order \<Rightarrow> 'a :: order) (residual q ts))"
proof -
  have "map f (residual q ts) = map (f \<circ> fst) (filter (\<lambda>((n, r), t). t < o_quantity r) (zip q ts))"
    by (auto simp: residual_def assms(2))
  moreover have "sorted_wrt (<) (map (f \<circ> fst) (zip q ts))"
    using assms(1,3) by (simp flip: map_map)
  ultimately show ?thesis
    by (simp add: sorted_wrt_map sorted_wrt_filter)
qed

lemma queue_ok_residual:
  assumes "queue_ok k nid hp q" and "length ts = length q"
  shows "queue_ok k nid hp (residual q ts)"
proof -
  have "sorted_wrt (<) (map fst (residual q ts))"
    using assms by (intro sorted_wrt_residual) (auto simp: queue_ok_def)
  moreover have "sorted_wrt (<) (map (\<lambda>(n, r). o_id r) (residual q ts))"
    using assms by (intro sorted_wrt_residual) (auto simp: queue_ok_def)
  moreover have "Queue (o_side r') (o_instrument r') = k \<and> 0 < o_quantity r' \<and> 0 < o_id r'
      \<and> o_id r' < nid \<and> n < hp" if "(n, r') \<in> set (residual q ts)" for n r'
    using that assms(1) by (auto simp: residual_mem dest!: set_zip_leftD dest: queue_okD)
  ultimately show ?thesis by (auto simp: queue_ok_def)
qed

lemma queue_ok_append:
  assumes "queue_ok k nid hp q" and "Queue (o_side r) (o_instrument r) = k" and "0 < o_quantity r"
    and "0 < nid" and "o_id r = nid"
  shows "queue_ok k (nid + 1) (Suc hp) (q @ [(hp, r)])"
  using assms unfolding queue_ok_def by (force simp: sorted_wrt_append)

lemma queue_ok_ids_distinct: "queue_ok k nid hp q \<Longrightarrow> distinct (map (\<lambda>(n, r). o_id r) q)"
  unfolding queue_ok_def using strict_sorted_iff by blast

lemma filled_ids_mem:
  "oid \<in> set (filled_ids rs ts) \<longleftrightarrow> (\<exists>r. (r, o_quantity r) \<in> set (zip rs ts) \<and> o_id r = oid)"
  by (force simp: filled_ids_def)

lemma zip_unique:
  assumes "distinct (map f q)" and "(x, t) \<in> set (zip q ts)" and "(y, u) \<in> set (zip q ts)" and "f x = f y"
  shows "x = y \<and> t = u"
proof -
  from assms(2,3) obtain i j where ij: "i < length q" "i < length ts" "x = q ! i" "t = ts ! i"
      "j < length q" "j < length ts" "y = q ! j" "u = ts ! j"
    by (auto simp: set_zip)
  with assms(1,4) have "i = j"
    by (metis length_map nth_eq_iff_index_eq nth_map)
  with ij show ?thesis by simp
qed

lemma zip_map_snd_ex: "(r, t) \<in> set (zip (map snd q) ts) \<Longrightarrow> \<exists>n. ((n, r), t) \<in> set (zip q ts)"
  by (force simp: zip_map1)

lemma node_ids_residual:
  fixes p rem :: int and q :: order_list
  assumes ok: "queue_ok k nid hp q" and rem: "0 \<le> rem"
  defines "ts \<equiv> alloc p rem (map snd q)"
  shows "node_ids (residual q ts) = {x \<in> node_ids q. snd x \<notin> set (filled_ids (map snd q) ts)}"
proof -
  have len: "length ts = length q" by (simp add: ts_def)
  have le: "t \<le> o_quantity r" if "((n, r), t) \<in> set (zip q ts)" for n r t
    using alloc_bounds [OF queue_ok_pos [OF ok] rem] zip_map_snd [OF that] by (simp add: ts_def)
  have filled: "o_id r \<in> set (filled_ids (map snd q) ts) \<longleftrightarrow> t = o_quantity r"
    if "((n, r), t) \<in> set (zip q ts)" for n r t
  proof
    assume "o_id r \<in> set (filled_ids (map snd q) ts)"
    then obtain m s where "((m, s), o_quantity s) \<in> set (zip q ts)" "o_id s = o_id r"
      by (auto simp: filled_ids_mem dest!: zip_map_snd_ex)
    with that zip_unique [OF queue_ok_ids_distinct [OF ok], of "(n, r)" t ts "(m, s)"]
    show "t = o_quantity r" by auto
  next
    assume "t = o_quantity r"
    with zip_map_snd [OF that] show "o_id r \<in> set (filled_ids (map snd q) ts)"
      by (auto simp: filled_ids_mem)
  qed
  have ex: "\<exists>t. ((n, r), t) \<in> set (zip q ts)" if "(n, r) \<in> set q" for n r
    using that len by (metis in_set_impl_in_set_zip1)
  show ?thesis
  proof (intro set_eqI iffI)
    fix x assume "x \<in> node_ids (residual q ts)"
    then obtain n r t where "x = (n, o_id r)" "((n, r), t) \<in> set (zip q ts)" "t < o_quantity r"
      by (cases x) (auto simp: node_ids_iff residual_mem)
    then show "x \<in> {x \<in> node_ids q. snd x \<notin> set (filled_ids (map snd q) ts)}"
      using filled by (auto simp: node_ids_iff dest: set_zip_leftD)
  next
    fix x assume "x \<in> {x \<in> node_ids q. snd x \<notin> set (filled_ids (map snd q) ts)}"
    then obtain n r where x: "x = (n, o_id r)" "(n, r) \<in> set q" "o_id r \<notin> set (filled_ids (map snd q) ts)"
      by (cases x) (auto simp: node_ids_iff)
    with ex obtain t where t: "((n, r), t) \<in> set (zip q ts)" by blast
    with x filled le have "t < o_quantity r" by fastforce
    with t have "(n, reduce_order r t) \<in> set (residual q ts)"
      by (auto simp: residual_mem)
    with x show "x \<in> node_ids (residual q ts)"
      by (auto simp: node_ids_iff intro: exI [of _ "reduce_order r t"])
  qed
qed

section \<open>Adding an order\<close>

text \<open>The book between the matching loop and the resting of what is left.\<close>

definition matched_book :: "string \<Rightarrow> Side \<Rightarrow> int \<Rightarrow> int \<Rightarrow> OrderBook \<Rightarrow> OrderBook" where
  "matched_book i s qty p b =
     (let k = Queue (opposite s) i; ts = alloc p qty (map snd (queue_of k b))
      in (set_queue k (residual (queue_of k b) ts) (b\<lparr>next_order_id := next_order_id b + 1\<rparr>))
           \<lparr>order_index := fold AList.delete (filled_ids (map snd (queue_of k b)) ts) (order_index b)\<rparr>)"

definition left_over :: "string \<Rightarrow> Side \<Rightarrow> int \<Rightarrow> int \<Rightarrow> OrderBook \<Rightarrow> int" where
  "left_over i s qty p b = qty - sum_list (alloc p qty (map snd (queue_of (Queue (opposite s) i) b)))"

definition new_order :: "int \<Rightarrow> int \<Rightarrow> string \<Rightarrow> Side \<Rightarrow> int \<Rightarrow> int \<Rightarrow> Order" where
  "new_order oid owner i s left p = \<lparr>o_id = oid, o_owner_fd = owner, o_instrument = i,
     o_side = s, o_quantity = left, o_price = p\<rparr>"

lemma book_invD:
  assumes "book_inv b"
  shows "queue_ok k (next_order_id b) (heap_next b) (queue_of k b)" "index_ok b" "uncrossed b"
    "0 < next_order_id b" "\<not> dangling b"
  using assms unfolding book_inv_def by blast+

lemma book_inv_pos: "book_inv b \<Longrightarrow> \<forall>r \<in> set (map snd (queue_of k b)). 0 < o_quantity r"
  using book_invD(1) queue_ok_pos by blast

lemma add_order_eq:
  assumes "book_inv b" and "0 \<le> qty"
  shows "add_order owner i s qty p ex b =
    (next_order_id b,
     ex @ executions_of owner i s p (map snd (queue_of (Queue (opposite s) i) b))
            (alloc p qty (map snd (queue_of (Queue (opposite s) i) b))),
     (if 0 < left_over i s qty p b
      then rest_order (new_order (next_order_id b) owner i s (left_over i s qty p b) p)
             (matched_book i s qty p b)
      else matched_book i s qty p b))"
  using match_loop_eq [OF book_inv_pos [OF assms(1), of "Queue (opposite s) i"] assms(2),
      of owner i s p "order_index b" ex]
  by (simp add: add_order_def matched_book_def left_over_def new_order_def Let_def)

lemma queue_of_matched_book:
  "queue_of k (matched_book i s qty p b) =
     (if k = Queue (opposite s) i
      then residual (queue_of k b) (alloc p qty (map snd (queue_of k b))) else queue_of k b)"
  by (simp add: matched_book_def Let_def)

lemma matched_book_fields [simp]:
  "next_order_id (matched_book i s qty p b) = next_order_id b + 1"
  "heap_next (matched_book i s qty p b) = heap_next b"
  "dangling (matched_book i s qty p b) = dangling b"
  by (simp_all add: matched_book_def Let_def)

lemma matched_book_queue_ok:
  assumes "book_inv b"
  shows "queue_ok k (next_order_id b) (heap_next b) (queue_of k (matched_book i s qty p b))"
  using book_invD(1) [OF assms, of k] by (auto simp: queue_of_matched_book queue_ok_residual)

lemma matched_book_index_ok:
  assumes inv: "book_inv b" and qty: "0 \<le> qty"
  shows "index_ok (matched_book i s qty p b)"
proof -
  let ?k = "Queue (opposite s) i" and ?b = "matched_book i s qty p b"
  let ?ts = "alloc p qty (map snd (queue_of ?k b))"
  let ?D = "set (filled_ids (map snd (queue_of ?k b)) ?ts)"
  have ids: "node_ids (queue_of k ?b) = {x \<in> node_ids (queue_of k b). snd x \<notin> ?D}" for k
  proof (cases "k = ?k")
    case True
    then show ?thesis
      using node_ids_residual [OF book_invD(1) [OF inv, of k] qty, of p]
      by (simp add: queue_of_matched_book)
  next
    case False
    have "oid \<notin> ?D" if "(n, oid) \<in> node_ids (queue_of k b)" for n oid
    proof
      assume "oid \<in> ?D"
      then obtain m r where "(m, r) \<in> set (queue_of ?k b)" "o_id r = oid"
        by (auto simp: filled_ids_mem dest!: zip_map_snd_ex set_zip_leftD)
      then have "(m, oid) \<in> node_ids (queue_of ?k b)" by (auto simp: node_ids_iff)
      with id_unique [OF book_invD(2) [OF inv] that] False show False by blast
    qed
    with False show ?thesis by (auto simp: queue_of_matched_book)
  qed
  show ?thesis
  proof (rule index_ok_shrink [OF book_invD(2) [OF inv] _ _ ids])
    show "distinct (map fst (order_index ?b))"
      using book_invD(2) [OF inv]
      by (simp add: matched_book_def Let_def index_ok_def distinct_fold_delete)
    show "map_of (order_index ?b) = map_of (order_index b) |` (- ?D)"
      by (simp add: matched_book_def Let_def map_of_fold_delete)
  qed
qed

text \<open>Every order of the matched book was in the book, with the same owner and price.\<close>

lemma matched_book_mem:
  assumes "(n, r') \<in> set (queue_of k (matched_book i s qty p b))"
  shows "\<exists>r. (n, r) \<in> set (queue_of k b) \<and> o_price r' = o_price r \<and> o_owner_fd r' = o_owner_fd r
    \<and> o_id r' = o_id r"
  using assms
  by (fastforce simp: queue_of_matched_book residual_mem split: if_splits dest: set_zip_leftD)

lemma matched_book_price:
  assumes "x \<in> snd ` set (queue_of k (matched_book i s qty p b))"
  obtains x' where "x' \<in> snd ` set (queue_of k b)" and "o_price x = o_price x'"
  using assms by (force dest!: matched_book_mem)

lemma matched_book_uncrossed:
  assumes "book_inv b"
  shows "uncrossed (matched_book i s qty p b)"
  unfolding uncrossed_iff
proof (intro allI ballI)
  fix t j x y
  assume x: "x \<in> snd ` set (queue_of (Queue t j) (matched_book i s qty p b))"
    and y: "y \<in> snd ` set (queue_of (Queue (opposite t) j) (matched_book i s qty p b))"
  from x obtain x' where "x' \<in> snd ` set (queue_of (Queue t j) b)" "o_price x = o_price x'"
    by (rule matched_book_price)
  moreover from y obtain y' where "y' \<in> snd ` set (queue_of (Queue (opposite t) j) b)" "o_price y = o_price y'"
    by (rule matched_book_price)
  ultimately show "o_price x \<noteq> o_price y"
    using uncrossedD [OF book_invD(3) [OF assms]] by metis
qed

lemma matched_book_inv:
  assumes "book_inv b" and "0 \<le> qty"
  shows "book_inv (matched_book i s qty p b)"
proof -
  have "queue_ok k (next_order_id b + 1) (heap_next b) (queue_of k (matched_book i s qty p b))" for k
    using matched_book_queue_ok [OF assms(1)] by (rule queue_ok_mono) simp_all
  then show ?thesis
    using matched_book_index_ok [OF assms] matched_book_uncrossed [OF assms(1)]
      book_invD(4,5) [OF assms(1)]
    by (simp add: book_inv_def)
qed

text \<open>When something is left, the opposite queue holds no order at the price any more.\<close>

lemma matched_book_no_price:
  assumes "book_inv b" and "0 \<le> qty" and "0 < left_over i s qty p b"
    and "(n, r') \<in> set (queue_of (Queue (opposite s) i) (matched_book i s qty p b))"
  shows "o_price r' \<noteq> p"
proof -
  let ?q = "queue_of (Queue (opposite s) i) b"
  from assms(4) obtain r t where rt: "((n, r), t) \<in> set (zip ?q (alloc p qty (map snd ?q)))"
      "t < o_quantity r" "r' = reduce_order r t"
    by (auto simp: queue_of_matched_book residual_mem)
  with alloc_exhausts [OF book_inv_pos [OF assms(1)] assms(2)] assms(3) zip_map_snd
  show ?thesis by (fastforce simp: left_over_def)
qed

lemma queue_of_rest_order:
  "queue_of k (rest_order r b) =
     (if k = Queue (o_side r) (o_instrument r) then queue_of k b @ [(heap_next b, r)] else queue_of k b)"
  by (simp add: rest_order_def Let_def)

lemma rest_order_fields [simp]:
  "next_order_id (rest_order r b) = next_order_id b"
  "heap_next (rest_order r b) = Suc (heap_next b)"
  "dangling (rest_order r b) = dangling b"
  by (simp_all add: rest_order_def Let_def)

lemma rest_order_index_ok:
  assumes ix: "index_ok b" and fresh: "\<And>k n. (n, o_id r) \<notin> node_ids (queue_of k b)"
    and hp: "\<And>k n oid. (n, oid) \<in> node_ids (queue_of k b) \<Longrightarrow> n < heap_next b"
  shows "index_ok (rest_order r b)"
proof -
  let ?k = "Queue (o_side r) (o_instrument r)"
  have "node_ids (queue_of k (rest_order r b)) =
      (if k = ?k then insert (heap_next b, o_id r) (node_ids (queue_of k b)) else node_ids (queue_of k b))" for k
    by (auto simp: queue_of_rest_order node_ids_def)
  then show ?thesis
    using ix fresh hp
    by (auto simp: index_ok_iff rest_order_def Let_def distinct_keys_update)
qed

lemma rest_order_inv:
  assumes qok: "\<And>k. queue_ok k (o_id r) (heap_next b) (queue_of k b)"
    and nid: "next_order_id b = o_id r + 1" and "index_ok b" and unc: "uncrossed b"
    and "\<not> dangling b" and pos: "0 < o_quantity r" "0 < o_id r"
    and opp: "\<And>n r'. (n, r') \<in> set (queue_of (Queue (opposite (o_side r)) (o_instrument r)) b) \<Longrightarrow> o_price r' \<noteq> o_price r"
  shows "book_inv (rest_order r b)"
proof -
  have "queue_ok k (o_id r + 1) (Suc (heap_next b)) (queue_of k (rest_order r b))" for k
  proof (cases "k = Queue (o_side r) (o_instrument r)")
    case True
    then show ?thesis
      using queue_ok_append [OF qok, of r k] pos by (simp add: queue_of_rest_order)
  next
    case False
    then show ?thesis
      using queue_ok_mono [OF qok [of k]] by (simp add: queue_of_rest_order)
  qed
  moreover have "index_ok (rest_order r b)"
    using \<open>index_ok b\<close>
  proof (rule rest_order_index_ok)
    show "(n, o_id r) \<notin> node_ids (queue_of k b)" for k n
      by (auto simp: node_ids_iff dest: queue_okD(5) [OF qok])
    show "n < heap_next b" if "(n, oid) \<in> node_ids (queue_of k b)" for k n oid
      using that by (auto simp: node_ids_iff dest: queue_okD(6) [OF qok])
  qed
  moreover have "uncrossed (rest_order r b)"
    unfolding uncrossed_iff
  proof (intro allI ballI)
    fix t j x y
    assume x: "x \<in> snd ` set (queue_of (Queue t j) (rest_order r b))"
      and y: "y \<in> snd ` set (queue_of (Queue (opposite t) j) (rest_order r b))"
    have old: "o_price x \<noteq> o_price y"
      if "x \<in> snd ` set (queue_of (Queue t j) b)" "y \<in> snd ` set (queue_of (Queue (opposite t) j) b)" for x y
      using unc that by (rule uncrossedD)
    show "o_price x \<noteq> o_price y"
      using x y old opp by (cases t; cases "o_side r"; fastforce simp: queue_of_rest_order split: if_splits)
  qed
  ultimately show ?thesis
    using assms by (simp add: book_inv_def)
qed

lemma add_order_book_inv:
  assumes inv: "book_inv b" and qty: "0 < qty" and add: "add_order owner i s qty p ex b = (oid, ex', b')"
  shows "book_inv b'"
proof (cases "0 < left_over i s qty p b")
  case False
  with add qty show ?thesis
    by (auto simp: add_order_eq [OF inv] matched_book_inv [OF inv])
next
  case True
  let ?r = "new_order (next_order_id b) owner i s (left_over i s qty p b) p"
  have "book_inv (rest_order ?r (matched_book i s qty p b))"
    using matched_book_queue_ok [OF inv] matched_book_index_ok [OF inv, of qty]
      matched_book_uncrossed [OF inv] book_invD(4,5) [OF inv]
      matched_book_no_price [OF inv _ True] True qty
    by (intro rest_order_inv) (simp_all add: new_order_def)
  with add True qty show ?thesis by (auto simp: add_order_eq [OF inv])
qed

section \<open>Cancelling and removing orders\<close>

lemma book_inv_shrink:
  assumes inv: "book_inv b"
    and q: "\<And>k. queue_of k b' = filter (\<lambda>(n, r). o_id r \<notin> D) (queue_of k b)"
    and ix: "distinct (map fst (order_index b'))" "map_of (order_index b') = map_of (order_index b) |` (- D)"
    and same: "next_order_id b' = next_order_id b" "heap_next b' = heap_next b" "dangling b' = dangling b"
  shows "book_inv b'"
proof -
  have "index_ok b'"
    using book_invD(2) [OF inv] ix
    by (rule index_ok_shrink) (auto simp: q node_ids_def)
  moreover have "uncrossed b'"
    using book_invD(3) [OF inv] unfolding uncrossed_iff by (force simp: q)
  moreover have "queue_ok k (next_order_id b') (heap_next b') (queue_of k b')" for k
    using queue_ok_filter [OF book_invD(1) [OF inv, of k]] by (simp add: q same)
  ultimately show ?thesis
    using book_invD(4,5) [OF inv] by (simp add: book_inv_def same)
qed

lemma restingI: "(n, r) \<in> set (queue_of k b) \<Longrightarrow> r \<in> resting b"
  by (auto simp: resting_def intro!: exI [of _ k] image_eqI [of _ _ "(n, r)"])

lemma restingE:
  assumes "r \<in> resting b"
  obtains k n where "(n, r) \<in> set (queue_of k b)"
  using assms by (auto simp: resting_def intro: that)

lemma resting_positive:
  assumes "book_inv b" and "r \<in> resting b"
  shows "0 < o_quantity r"
proof -
  from assms(2) obtain k n where "(n, r) \<in> set (queue_of k b)" by (rule restingE)
  with book_invD(1) [OF assms(1)] show ?thesis by (rule queue_okD)
qed

lemma resting_id_less:
  assumes "book_inv b" and "r \<in> resting b"
  shows "o_id r < next_order_id b"
proof -
  from assms(2) obtain k n where "(n, r) \<in> set (queue_of k b)" by (rule restingE)
  with book_invD(1) [OF assms(1)] show ?thesis by (rule queue_okD)
qed

lemma deref_iff:
  assumes "book_inv b"
  shows "deref l b = Some r \<longleftrightarrow> (loc_it l, r) \<in> set (queue_of (loc_queue l) b)"
  unfolding deref_def
  using queue_ok_distinct [OF book_invD(1) [OF assms]] by simp

lemma indexed_deref:
  assumes "book_inv b" and "map_of (order_index b) oid = Some l"
  obtains r where "deref l b = Some r" and "o_id r = oid" and "r \<in> resting b"
proof -
  from assms(1) have "index_ok b" by (rule book_invD)
  with assms(2) obtain r where r: "(loc_it l, r) \<in> set (queue_of (loc_queue l) b)" "o_id r = oid"
    unfolding index_ok_def by blast
  moreover from r(1) have "r \<in> resting b" by (rule restingI)
  ultimately show ?thesis using deref_iff [OF assms(1)] that by blast
qed

lemma erase_at_facts:
  assumes inv: "book_inv b" and l: "map_of (order_index b) oid = Some l"
  shows "queue_of k (erase_at oid l b) = filter (\<lambda>(n, r). o_id r \<noteq> oid) (queue_of k b)"
    and "order_index (erase_at oid l b) = AList.delete oid (order_index b)"
    and "next_order_id (erase_at oid l b) = next_order_id b"
    and "heap_next (erase_at oid l b) = heap_next b"
    and "dangling (erase_at oid l b) = dangling b"
proof -
  obtain r where r: "deref l b = Some r" "o_id r = oid"
    using indexed_deref [OF inv l] by blast
  then have node: "(loc_it l, oid) \<in> node_ids (queue_of (loc_queue l) b)"
    using deref_iff [OF inv] by (auto simp: node_ids_iff)
  have ids: "n = loc_it l \<longleftrightarrow> o_id r' = oid" if "(n, r') \<in> set (queue_of (loc_queue l) b)" for n r'
  proof
    assume "n = loc_it l"
    with that r(1) deref_iff [OF inv] have "r' = r" by (metis option.inject)
    with r(2) show "o_id r' = oid" by simp
  next
    assume "o_id r' = oid"
    with that have "(n, oid) \<in> node_ids (queue_of (loc_queue l) b)" by (auto simp: node_ids_iff)
    with id_unique [OF book_invD(2) [OF inv] node] show "n = loc_it l" by blast
  qed
  have other: "\<forall>(n, r') \<in> set (queue_of k b). o_id r' \<noteq> oid" if "k \<noteq> loc_queue l"
    using id_unique [OF book_invD(2) [OF inv] node, of _ k] that by (force simp: node_ids_iff)
  have "filter (\<lambda>(n, _). n \<noteq> loc_it l) (queue_of (loc_queue l) b) =
      filter (\<lambda>(n, r). o_id r \<noteq> oid) (queue_of (loc_queue l) b)"
    using ids by (intro filter_cong) auto
  moreover have "filter (\<lambda>(n, r). o_id r \<noteq> oid) (queue_of k b) = queue_of k b" if "k \<noteq> loc_queue l"
    using other [OF that] by (simp add: filter_id_conv)
  ultimately show "queue_of k (erase_at oid l b) = filter (\<lambda>(n, r). o_id r \<noteq> oid) (queue_of k b)"
    using r by (cases "k = loc_queue l") (simp_all add: erase_at_def list_erase_def Let_def)
  from r(1) show "order_index (erase_at oid l b) = AList.delete oid (order_index b)"
    and "next_order_id (erase_at oid l b) = next_order_id b"
    and "heap_next (erase_at oid l b) = heap_next b"
    and "dangling (erase_at oid l b) = dangling b"
    by (simp_all add: erase_at_def list_erase_def Let_def)
qed

lemma erase_at_inv:
  assumes inv: "book_inv b" and l: "map_of (order_index b) oid = Some l"
  shows "book_inv (erase_at oid l b)"
  using inv
proof (rule book_inv_shrink [where D = "{oid}"])
  show "distinct (map fst (order_index (erase_at oid l b)))"
    using book_invD(2) [OF inv]
    by (simp add: erase_at_facts [OF inv l] index_ok_def distinct_keys_delete)
  show "map_of (order_index (erase_at oid l b)) = map_of (order_index b) |` (- {oid})"
    by (auto simp: erase_at_facts [OF inv l] restrict_map_def fun_eq_iff)
qed (simp_all add: erase_at_facts [OF inv l])

lemma cancel_order_book_inv:
  assumes "book_inv b"
  shows "book_inv (snd (cancel_order oid fd b))"
proof (cases "map_of (order_index b) oid")
  case None
  then show ?thesis using assms by (simp add: cancel_order_def)
next
  case (Some l)
  obtain r where "deref l b = Some r" using indexed_deref [OF assms Some] by blast
  then show ?thesis
    using erase_at_inv [OF assms Some] assms Some by (simp add: cancel_order_def)
qed

lemma remove_loop_facts:
  assumes "book_inv b" and "distinct (map fst al)"
    and "\<And>oid l. (oid, l) \<in> set al \<Longrightarrow> map_of (order_index b) oid = Some l"
  shows "book_inv (remove_loop owner al b) \<and> next_order_id (remove_loop owner al b) = next_order_id b \<and>
    (\<forall>k. queue_of k (remove_loop owner al b) =
       filter (\<lambda>(n, r). \<not> (o_owner_fd r = owner \<and> o_id r \<in> fst ` set al)) (queue_of k b))"
  using assms
proof (induction owner al b rule: remove_loop.induct)
  case (1 owner b)
  then show ?case by simp
next
  case (2 owner oid l rest b)
  have l: "map_of (order_index b) oid = Some l" using "2.prems"(3) by simp
  obtain r where r: "deref l b = Some r" "o_id r = oid"
    using indexed_deref [OF "2.prems"(1) l] by blast
  have this_one: "r' = r" if "(n, r') \<in> set (queue_of k b)" "o_id r' = oid" for k n r'
  proof -
    have "map_of (order_index b) oid = Some \<lparr>loc_queue = k, loc_it = n\<rparr>"
      using that by (intro index_okD [OF book_invD(2) [OF "2.prems"(1)]]) (auto simp: node_ids_iff)
    with l have "deref \<lparr>loc_queue = k, loc_it = n\<rparr> b = Some r" using r by simp
    with that show "r' = r" using deref_iff [OF "2.prems"(1), of "\<lparr>loc_queue = k, loc_it = n\<rparr>" r'] by simp
  qed
  show ?case
  proof (cases "o_owner_fd r = owner")
    case True
    let ?b = "erase_at oid l b"
    have keep: "map_of (order_index ?b) oid' = Some l'" if "(oid', l') \<in> set rest" for oid' l'
      using "2.prems"(2,3) that by (force simp: erase_at_facts [OF "2.prems"(1) l])
    have "fst ` set ((oid, l) # rest) = insert oid (fst ` set rest)" by simp
    moreover have "filter (\<lambda>(n, r). \<not> (o_owner_fd r = owner \<and> o_id r \<in> fst ` set rest)) (queue_of k ?b) =
        filter (\<lambda>(n, r). \<not> (o_owner_fd r = owner \<and> o_id r \<in> insert oid (fst ` set rest))) (queue_of k b)" for k
      using this_one True
      by (auto simp: erase_at_facts(1) [OF "2.prems"(1) l] intro!: filter_cong)
    ultimately show ?thesis
      using "2.IH"(2) [OF r(1) True erase_at_inv [OF "2.prems"(1) l] _ keep] "2.prems"(2) r True
      by (simp add: erase_at_facts [OF "2.prems"(1) l])
  next
    case False
    have "filter (\<lambda>(n, r). \<not> (o_owner_fd r = owner \<and> o_id r \<in> fst ` set rest)) (queue_of k b) =
        filter (\<lambda>(n, r). \<not> (o_owner_fd r = owner \<and> o_id r \<in> insert oid (fst ` set rest))) (queue_of k b)" for k
      using this_one False by (intro filter_cong) auto
    then show ?thesis
      using "2.IH"(3) [OF r(1) False "2.prems"(1)] "2.prems"(2,3) r False by simp
  qed
qed

lemma indexed_ids:
  assumes "book_inv b" and "(n, r) \<in> set (queue_of k b)"
  shows "o_id r \<in> fst ` set (order_index b)"
proof -
  have "map_of (order_index b) (o_id r) = Some \<lparr>loc_queue = k, loc_it = n\<rparr>"
    using assms(2) by (intro index_okD [OF book_invD(2) [OF assms(1)]]) (auto simp: node_ids_iff)
  then show ?thesis by (force dest: map_of_SomeD)
qed

lemma remove_orders_of_facts:
  assumes "book_inv b"
  shows "book_inv (remove_orders_of owner b)"
    and "next_order_id (remove_orders_of owner b) = next_order_id b"
    and "queue_of k (remove_orders_of owner b) = filter (\<lambda>(n, r). o_owner_fd r \<noteq> owner) (queue_of k b)"
proof -
  have "distinct (map fst (order_index b))" using book_invD(2) [OF assms] by (simp add: index_ok_def)
  note facts = remove_loop_facts [OF assms this, of owner, OF map_of_is_SomeI, OF this, simplified]
  show "book_inv (remove_orders_of owner b)" "next_order_id (remove_orders_of owner b) = next_order_id b"
    using facts by (simp_all add: remove_orders_of_def)
  have "filter (\<lambda>(n, r). \<not> (o_owner_fd r = owner \<and> o_id r \<in> fst ` set (order_index b))) (queue_of k b) =
      filter (\<lambda>(n, r). o_owner_fd r \<noteq> owner) (queue_of k b)"
    using indexed_ids [OF assms, of _ _ k] by (intro filter_cong) auto
  with facts show "queue_of k (remove_orders_of owner b) = filter (\<lambda>(n, r). o_owner_fd r \<noteq> owner) (queue_of k b)"
    by (simp add: remove_orders_of_def)
qed

section \<open>Refinement of the book without nodes and index\<close>

lemma a_resting_abs: "a_resting (abs_book b) = resting b"
  by (simp add: a_resting_def abs_book_def resting_def)

lemma resting_unique:
  assumes "book_inv b" and "r \<in> resting b" and "r' \<in> resting b" and "o_id r = o_id r'"
  shows "r = r'"
proof -
  from assms(2,3) obtain k n k' n' where q: "(n, r) \<in> set (queue_of k b)" "(n', r') \<in> set (queue_of k' b)"
    by (elim restingE)
  with assms(4) have "k = k' \<and> n = n'"
    by (intro id_unique [OF book_invD(2) [OF assms(1)], of n "o_id r"]) (auto simp: node_ids_iff)
  with q queue_ok_distinct [OF book_invD(1) [OF assms(1), of k]] show ?thesis
    by (auto dest: eq_key_imp_eq_value)
qed

lemma indexed_iff_resting:
  assumes "book_inv b"
  shows "map_of (order_index b) oid = None \<longleftrightarrow> (\<forall>r \<in> resting b. o_id r \<noteq> oid)"
proof
  assume "map_of (order_index b) oid = None"
  then show "\<forall>r \<in> resting b. o_id r \<noteq> oid"
    using indexed_ids [OF assms] by (auto simp: map_of_eq_None_iff elim!: restingE)
next
  assume "\<forall>r \<in> resting b. o_id r \<noteq> oid"
  then show "map_of (order_index b) oid = None"
    using indexed_deref [OF assms] by (metis not_Some_eq)
qed

lemma residual_orders_cases:
  "length ts = length q \<Longrightarrow> map snd (residual q ts) = residual_orders (map snd q) ts"
  by (rule map_snd_residual)

lemma abs_matched_book:
  "abs_book (matched_book i s qty p b) =
     (let k = Queue (opposite s) i; rs = map snd (queue_of k b)
      in \<lparr>a_next = next_order_id b + 1,
          a_queue = (\<lambda>k. map snd (queue_of k b))(k := residual_orders rs (alloc p qty rs))\<rparr>)"
  by (auto simp: abs_book_def queue_of_matched_book map_snd_residual Let_def fun_eq_iff)

lemma abs_rest_order:
  "abs_book (rest_order r b) =
     (abs_book b)\<lparr>a_queue := (a_queue (abs_book b))
        (Queue (o_side r) (o_instrument r) := a_queue (abs_book b) (Queue (o_side r) (o_instrument r)) @ [r])\<rparr>"
  by (auto simp: abs_book_def queue_of_rest_order fun_eq_iff)

lemma add_order_abs:
  assumes "book_inv b" and "0 < qty" and "add_order owner i s qty p [] b = (oid, ex, b')"
  shows "spec_add owner i s qty p (abs_book b) = (oid, ex, abs_book b')"
proof -
  have q: "a_queue (abs_book b) k = map snd (queue_of k b)" for k
    by (simp add: abs_book_def)
  show ?thesis
    using assms(2,3)
    by (auto simp: add_order_eq [OF assms(1)] spec_add_def Let_def q abs_matched_book abs_rest_order
        left_over_def new_order_def abs_book_def [of b])
qed

lemma cancel_order_cases:
  assumes inv: "book_inv b"
  shows "(\<forall>r \<in> resting b. o_id r \<noteq> oid) \<Longrightarrow> cancel_order oid fd b = (Inl (no_such_order oid), b)"
    and "r \<in> resting b \<Longrightarrow> o_id r = oid \<Longrightarrow> o_owner_fd r \<noteq> fd \<Longrightarrow>
      cancel_order oid fd b = (Inl (other_trader oid), b)"
    and "r \<in> resting b \<Longrightarrow> o_id r = oid \<Longrightarrow> o_owner_fd r = fd \<Longrightarrow>
      \<exists>l. map_of (order_index b) oid = Some l \<and> cancel_order oid fd b = (Inr (), erase_at oid l b)"
proof -
  show "(\<forall>r \<in> resting b. o_id r \<noteq> oid) \<Longrightarrow> cancel_order oid fd b = (Inl (no_such_order oid), b)"
    using indexed_iff_resting [OF inv, of oid] by (simp add: cancel_order_def)
  have found: "\<exists>l. map_of (order_index b) oid = Some l \<and> deref l b = Some r"
    if h: "r \<in> resting b" "o_id r = oid" for r
  proof -
    obtain l where l: "map_of (order_index b) oid = Some l"
      using h indexed_iff_resting [OF inv, of oid]
      by (cases "map_of (order_index b) oid") auto
    then obtain r' where "deref l b = Some r'" "o_id r' = oid" "r' \<in> resting b"
      by (rule indexed_deref [OF inv])
    with l h resting_unique [OF inv, of r r'] show ?thesis by simp
  qed
  show "r \<in> resting b \<Longrightarrow> o_id r = oid \<Longrightarrow> o_owner_fd r \<noteq> fd \<Longrightarrow>
      cancel_order oid fd b = (Inl (other_trader oid), b)"
    using found by (fastforce simp: cancel_order_def)
  show "r \<in> resting b \<Longrightarrow> o_id r = oid \<Longrightarrow> o_owner_fd r = fd \<Longrightarrow>
      \<exists>l. map_of (order_index b) oid = Some l \<and> cancel_order oid fd b = (Inr (), erase_at oid l b)"
    using found [of r] by (auto simp: cancel_order_def)
qed

lemma cancel_order_abs:
  assumes inv: "book_inv b"
  shows "map_prod id abs_book (cancel_order oid fd b) = spec_cancel oid fd (abs_book b)"
proof (cases "\<forall>r \<in> resting b. o_id r \<noteq> oid")
  case True
  then show ?thesis
    by (simp add: cancel_order_cases(1) [OF inv] spec_cancel_def a_resting_abs)
next
  case False
  then obtain r where r: "r \<in> resting b" "o_id r = oid" by blast
  then have uniq: "r' = r" if "r' \<in> resting b" "o_id r' = oid" for r'
    using resting_unique [OF inv] that by metis
  show ?thesis
  proof (cases "o_owner_fd r = fd")
    case True
    then have "\<not> (\<exists>r \<in> resting b. o_id r = oid \<and> o_owner_fd r \<noteq> fd)" using uniq by blast
    moreover obtain l where l: "map_of (order_index b) oid = Some l"
        "cancel_order oid fd b = (Inr (), erase_at oid l b)"
      using cancel_order_cases(3) [OF inv r True] by blast
    moreover have "abs_book (erase_at oid l b) =
        (abs_book b)\<lparr>a_queue := (\<lambda>k. filter (\<lambda>r. o_id r \<noteq> oid) (a_queue (abs_book b) k))\<rparr>"
      by (auto simp: abs_book_def erase_at_facts [OF inv l(1)] filter_map comp_def case_prod_unfold)
    ultimately show ?thesis using r by (auto simp: spec_cancel_def a_resting_abs)
  next
    case other: False
    with r cancel_order_cases(2) [OF inv r] show ?thesis
      by (auto simp: spec_cancel_def a_resting_abs)
  qed
qed

lemma remove_orders_of_abs:
  assumes "book_inv b"
  shows "abs_book (remove_orders_of owner b) = spec_remove owner (abs_book b)"
  by (auto simp: abs_book_def spec_remove_def remove_orders_of_facts [OF assms] filter_map comp_def
      case_prod_unfold)

section \<open>The interface the server relies on\<close>

text \<open>What the server needs of a book: its well-formedness is kept by every operation, and the
  owners of resting orders and the parties of executions are always clients that submitted
  orders and have not been removed.\<close>

text \<open>The same order with no more than its quantity left.\<close>

definition reduces :: "Order \<Rightarrow> Order \<Rightarrow> bool" where
  "reduces r r' \<longleftrightarrow> r' = r\<lparr>o_quantity := o_quantity r'\<rparr> \<and> o_quantity r' \<le> o_quantity r"

lemma reducesD:
  assumes "reduces r r'"
  shows "o_id r' = o_id r \<and> o_owner_fd r' = o_owner_fd r \<and> o_instrument r' = o_instrument r \<and> o_side r' = o_side r \<and>
    o_price r' = o_price r \<and> o_quantity r' \<le> o_quantity r"
proof -
  obtain n where "r' = r\<lparr>o_quantity := n\<rparr>" "n \<le> o_quantity r" using assms by (auto simp: reduces_def)
  then show ?thesis by simp
qed

locale order_store =
  fixes rest :: "'b \<Rightarrow> Order set" and wf :: "'b \<Rightarrow> bool"
    and submit :: "int \<Rightarrow> string \<Rightarrow> Side \<Rightarrow> int \<Rightarrow> int \<Rightarrow> TradeExecution list \<Rightarrow> 'b \<Rightarrow>
          int \<times> TradeExecution list \<times> 'b"
    and withdraw :: "int \<Rightarrow> int \<Rightarrow> 'b \<Rightarrow> (string + unit) \<times> 'b"
    and purge :: "int \<Rightarrow> 'b \<Rightarrow> 'b"
  assumes wf_submit: "wf b \<Longrightarrow> 0 < qty \<Longrightarrow> submit fd i s qty p [] b = (oid, ex, b') \<Longrightarrow> wf b'"
    and rest_submit: "wf b \<Longrightarrow> 0 < qty \<Longrightarrow> submit fd i s qty p [] b = (oid, ex, b') \<Longrightarrow> r \<in> rest b' \<Longrightarrow>
          o_owner_fd r = fd \<and> o_instrument r = i \<and> o_side r = s \<and> o_price r = p \<and> o_quantity r \<le> qty
          \<or> (\<exists>r0 \<in> rest b. reduces r0 r)"
    and parties_submit: "wf b \<Longrightarrow> 0 < qty \<Longrightarrow> submit fd i s qty p [] b = (oid, ex, b') \<Longrightarrow> x \<in> set ex \<Longrightarrow>
          {x_buyer_fd x, x_seller_fd x} \<subseteq> insert fd (o_owner_fd ` rest b)"
    and wf_withdraw: "wf b \<Longrightarrow> wf (snd (withdraw oid fd b))"
    and rest_withdraw: "wf b \<Longrightarrow> rest (snd (withdraw oid fd b)) \<subseteq> rest b"
    and wf_purge: "wf b \<Longrightarrow> wf (purge fd b)"
    and rest_purge: "wf b \<Longrightarrow> rest (purge fd b) = {r \<in> rest b. o_owner_fd r \<noteq> fd}"
begin

definition owners :: "'b \<Rightarrow> int set" where
  "owners b = o_owner_fd ` rest b"

lemma owners_submit:
  assumes "wf b" and "0 < qty" and "submit fd i s qty p [] b = (oid, ex, b')"
  shows "owners b' \<subseteq> insert fd (owners b)"
  using rest_submit [OF assms] by (fastforce simp: owners_def dest!: reducesD)

lemma owners_withdraw: "wf b \<Longrightarrow> owners (snd (withdraw oid fd b)) \<subseteq> owners b"
  using rest_withdraw by (force simp: owners_def)

lemma owners_purge: "wf b \<Longrightarrow> owners (purge fd b) = owners b - {fd}"
  by (auto simp: owners_def rest_purge)

lemma no_inherited_orders: "wf b \<Longrightarrow> r \<in> rest (purge fd b) \<Longrightarrow> o_owner_fd r \<noteq> fd"
  by (simp add: rest_purge)

end

lemma make_execution_parties:
  "{x_buyer_fd (make_execution owner i s p r t), x_seller_fd (make_execution owner i s p r t)} =
     {owner, o_owner_fd r}"
  by (auto simp: make_execution_def)

lemma executions_of_mem:
  assumes "x \<in> set (executions_of owner i s p rs ts)"
  obtains r t where "r \<in> set rs" and "0 < t" and "x = make_execution owner i s p r t"
  using assms by (auto simp: executions_of_def dest: set_zip_leftD)

lemma rest_order_resting: "resting (rest_order r b) = insert r (resting b)"
  by (auto simp: queue_of_rest_order elim!: restingE intro: restingI split: if_splits)

lemma matched_book_reduces:
  assumes "book_inv b" and "0 \<le> qty" and "r' \<in> resting (matched_book i s qty p b)"
  shows "\<exists>r \<in> resting b. reduces r r'"
proof -
  let ?q = "queue_of (Queue (opposite s) i) b"
  obtain k n where mem: "(n, r') \<in> set (queue_of k (matched_book i s qty p b))" using assms(3) by (rule restingE)
  show ?thesis
  proof (cases "k = Queue (opposite s) i")
    case True
    with mem obtain r t where rt: "((n, r), t) \<in> set (zip ?q (alloc p qty (map snd ?q)))" "r' = reduce_order r t"
      by (auto simp: queue_of_matched_book residual_mem)
    have "0 \<le> t"
      using alloc_bounds [OF book_inv_pos [OF assms(1)] assms(2) zip_map_snd [OF rt(1)]] by simp
    with rt show ?thesis by (auto simp: reduces_def dest!: set_zip_leftD intro!: bexI [OF _ restingI])
  next
    case False
    with mem have "r' \<in> resting b" by (auto simp: queue_of_matched_book intro: restingI)
    then show ?thesis by (auto simp: reduces_def intro!: bexI [of _ r'])
  qed
qed

lemma left_over_le:
  assumes "book_inv b" and "0 \<le> qty"
  shows "left_over i s qty p b \<le> qty"
  using alloc_nonneg [OF book_inv_pos [OF assms(1)] assms(2)] by (auto simp: left_over_def intro!: sum_list_nonneg)

interpretation ob: order_store resting book_inv add_order cancel_order remove_orders_of
proof
  fix b qty fd i s p oid ex b' r
  assume *: "book_inv b" "0 < qty" "add_order fd i s qty p [] b = (oid, ex, b')"
  then show "book_inv b'" by (rule add_order_book_inv)
  show "o_owner_fd r = fd \<and> o_instrument r = i \<and> o_side r = s \<and> o_price r = p \<and> o_quantity r \<le> qty
      \<or> (\<exists>r0 \<in> resting b. reduces r0 r)" if "r \<in> resting b'"
    using that * matched_book_reduces [OF *(1), of qty r i s p] left_over_le [OF *(1), of qty i s p]
    by (auto simp: add_order_eq rest_order_resting new_order_def split: if_splits)
  show "{x_buyer_fd x, x_seller_fd x} \<subseteq> insert fd (o_owner_fd ` resting b)" if "x \<in> set ex" for x
  proof -
    from that * have "x \<in> set (executions_of fd i s p (map snd (queue_of (Queue (opposite s) i) b))
        (alloc p qty (map snd (queue_of (Queue (opposite s) i) b))))"
      by (simp add: add_order_eq)
    then obtain r t where "r \<in> set (map snd (queue_of (Queue (opposite s) i) b))"
        "x = make_execution fd i s p r t"
      by (rule executions_of_mem)
    then show ?thesis
      using make_execution_parties [of fd i s p r t] by (auto intro: restingI)
  qed
next
  fix b oid fd
  assume inv: "book_inv b"
  then show "book_inv (snd (cancel_order oid fd b))" by (rule cancel_order_book_inv)
  show "resting (snd (cancel_order oid fd b)) \<subseteq> resting b"
  proof -
    have "a_resting (snd (spec_cancel oid fd (abs_book b))) \<subseteq> a_resting (abs_book b)"
      by (auto simp: spec_cancel_def a_resting_def)
    then show ?thesis
      using cancel_order_abs [OF inv, of oid fd] by (metis a_resting_abs snd_map_prod)
  qed
next
  fix b fd
  assume inv: "book_inv b"
  then show "book_inv (remove_orders_of fd b)" by (rule remove_orders_of_facts)
  show "resting (remove_orders_of fd b) = {r \<in> resting b. o_owner_fd r \<noteq> fd}"
  proof (intro set_eqI iffI)
    fix r assume "r \<in> {r \<in> resting b. o_owner_fd r \<noteq> fd}"
    then obtain k n where "(n, r) \<in> set (queue_of k b)" "o_owner_fd r \<noteq> fd"
      by (auto elim: restingE)
    then have "(n, r) \<in> set (queue_of k (remove_orders_of fd b))"
      by (simp add: remove_orders_of_facts [OF inv])
    then show "r \<in> resting (remove_orders_of fd b)" by (rule restingI)
  qed (auto simp: remove_orders_of_facts [OF inv] elim!: restingE intro: restingI)
qed

section \<open>Reachable books\<close>

inductive book_step :: "OrderBook \<Rightarrow> OrderBook \<Rightarrow> bool" where
  add: "0 < qty \<Longrightarrow> add_order fd i s qty p [] b = (oid, ex, b') \<Longrightarrow> book_step b b'"
| cancel: "book_step b (snd (cancel_order oid fd b))"
| remove: "book_step b (remove_orders_of fd b)"

inductive book_reachable :: "OrderBook \<Rightarrow> bool" where
  start: "book_reachable empty_book"
| step: "book_reachable b \<Longrightarrow> book_step b b' \<Longrightarrow> book_reachable b'"

lemma empty_book_inv [simp]: "book_inv empty_book"
proof -
  have "queue_of k empty_book = []" for k
    by (cases k; cases "q_side k") (simp_all add: empty_book_def)
  then show ?thesis
    by (simp add: book_inv_def queue_ok_def index_ok_def uncrossed_iff)
       (simp add: empty_book_def)
qed

lemma book_step_inv: "book_step b b' \<Longrightarrow> book_inv b \<Longrightarrow> book_inv b'"
  by (induction rule: book_step.induct)
     (auto intro: add_order_book_inv cancel_order_book_inv remove_orders_of_facts)

lemma book_reachable_inv: "book_reachable b \<Longrightarrow> book_inv b"
  by (induction rule: book_reachable.induct) (auto intro: book_step_inv)

lemma book_reachable_add:
  "book_reachable b \<Longrightarrow> 0 < qty \<Longrightarrow> book_reachable (snd (snd (add_order fd i s qty p [] b)))"
  by (metis book_reachable.step book_step.add prod.collapse)

section \<open>Properties\<close>

text \<open>A book with two resting sell orders at one price, for concrete instances.\<close>

definition two_asks :: OrderBook where
  "two_asks = snd (snd (add_order 6 ''JNST'' Side_SELL 50 100 []
     (snd (snd (add_order 5 ''JNST'' Side_SELL 30 100 [] empty_book)))))"

lemma two_asks_reachable: "book_reachable two_asks"
  unfolding two_asks_def by (intro book_reachable_add book_reachable.start) simp_all

lemma alloc_nth:
  assumes "\<forall>r \<in> set rs. 0 < o_quantity r" and "0 \<le> rem" and "j < length rs"
  shows "alloc p rem rs ! j =
    (if o_price (rs ! j) = p
     then max 0 (min (o_quantity (rs ! j)) (rem - volume (at_price p (take j rs)))) else 0)"
  using assms
proof (induction rs arbitrary: rem j)
  case (Cons r rs)
  let ?t = "if o_price r = p then min rem (o_quantity r) else 0"
  have rem': "0 \<le> rem - ?t" using Cons.prems(2) by auto
  show ?case
  proof (cases j)
    case 0
    with Cons.prems show ?thesis by (auto simp: Let_def)
  next
    case (Suc m)
    have vol: "0 \<le> volume (at_price p (take m rs))"
      using Cons.prems(1) by (intro volume_nonneg) (auto dest: in_set_takeD)
    have pos: "0 < o_quantity (rs ! m)" if "m < length rs"
      using Cons.prems(1) that by simp
    from Cons.IH [OF _ rem', of m] Cons.prems Suc vol pos show ?thesis
      by (cases "rem \<le> o_quantity r") (auto simp: Let_def max_def min_def)
  qed
qed simp

text \<open>C1: memory safety of the index. In every book that can be reached from the empty one by
  submitting orders of positive quantity, cancelling and removing a client's orders, in any
  order, no operation has followed an iterator that does not point into its queue; the index
  holds exactly the resting orders, each with the queue and the node where it rests.\<close>

theorem book_memory_safe:
  assumes "book_reachable b"
  shows "\<not> dangling b \<and> distinct (map fst (order_index b)) \<and>
    (\<forall>oid k n. map_of (order_index b) oid = Some \<lparr>loc_queue = k, loc_it = n\<rparr> \<longleftrightarrow>
       (\<exists>r. (n, r) \<in> set (queue_of k b) \<and> o_id r = oid))"
  using book_invD(2,5) [OF book_reachable_inv [OF assms]] by (simp add: index_ok_def)

theorem book_memory_safe_witness:
  "book_reachable (snd (snd (add_order 7 ''JNST'' Side_BUY 5 100 [] empty_book))) \<and>
   \<not> dangling (snd (snd (add_order 7 ''JNST'' Side_BUY 5 100 [] empty_book)))"
  using book_memory_safe [OF book_reachable_add [OF book_reachable.start, of 5 7 "''JNST''" Side_BUY 100]]
    book_reachable_add [OF book_reachable.start, of 5 7 "''JNST''" Side_BUY 100]
  by simp

text \<open>C2: price and time priority. Submitting an order of quantity \<open>qty\<close> at price \<open>p\<close> trades with the
  resting orders of the opposite side and the same instrument, in queue order; the \<open>j\<close>-th of them
  trades what its predecessors at that price have left of \<open>qty\<close>, up to its own quantity, and
  nothing when its price differs. Exactly the positive amounts become executions, each carrying
  the right buyer, seller, instrument and price.\<close>

theorem add_order_priority:
  assumes "book_reachable b" and "0 < qty"
    and "add_order fd i s qty p [] b = (oid, ex, b')"
    and "rs = map snd (queue_of (Queue (opposite s) i) b)"
  shows "\<exists>ts. length ts = length rs \<and>
    (\<forall>j < length rs. ts ! j =
       (if o_price (rs ! j) = p
        then max 0 (min (o_quantity (rs ! j)) (qty - volume (at_price p (take j rs)))) else 0)) \<and>
    ex = map (\<lambda>(r, t). make_execution fd i s p r t) (filter (\<lambda>(r, t). 0 < t) (zip rs ts))"
proof (intro exI [of _ "alloc p qty rs"] conjI)
  have inv: "book_inv b" using assms(1) by (rule book_reachable_inv)
  show "\<forall>j < length rs. alloc p qty rs ! j =
       (if o_price (rs ! j) = p
        then max 0 (min (o_quantity (rs ! j)) (qty - volume (at_price p (take j rs)))) else 0)"
    using alloc_nth [of rs qty] book_inv_pos [OF inv] assms(2,4) by simp
  show "ex = map (\<lambda>(r, t). make_execution fd i s p r t) (filter (\<lambda>(r, t). 0 < t) (zip rs (alloc p qty rs)))"
    using assms(2-4) by (simp add: add_order_eq [OF inv] executions_of_def)
qed simp

theorem add_order_priority_witness:
  "map x_quantity (fst (snd (add_order 7 ''JNST'' Side_BUY 60 100 [] two_asks))) = [30, 30] \<and>
   (\<exists>ts. length ts = length (map snd (queue_of (Queue Side_SELL ''JNST'') two_asks)) \<and>
     fst (snd (add_order 7 ''JNST'' Side_BUY 60 100 [] two_asks)) =
       map (\<lambda>(r, t). make_execution 7 ''JNST'' Side_BUY 100 r t)
         (filter (\<lambda>(r, t). 0 < t) (zip (map snd (queue_of (Queue Side_SELL ''JNST'') two_asks)) ts)))"
proof
  show "map x_quantity (fst (snd (add_order 7 ''JNST'' Side_BUY 60 100 [] two_asks))) = [30, 30]"
    by code_simp
  show "\<exists>ts. length ts = length (map snd (queue_of (Queue Side_SELL ''JNST'') two_asks)) \<and>
     fst (snd (add_order 7 ''JNST'' Side_BUY 60 100 [] two_asks)) =
       map (\<lambda>(r, t). make_execution 7 ''JNST'' Side_BUY 100 r t)
         (filter (\<lambda>(r, t). 0 < t) (zip (map snd (queue_of (Queue Side_SELL ''JNST'') two_asks)) ts))"
    using add_order_priority [OF two_asks_reachable, of 60 7 "''JNST''" Side_BUY 100 _ _ _
        "map snd (queue_of (Queue Side_SELL ''JNST'') two_asks)"]
    by (metis opposite.simps(1) prod.collapse zero_less_numeral)
qed

lemma sum_executions:
  assumes "length ts = length rs" and "\<forall>t \<in> set ts. 0 \<le> t"
  shows "sum_list (map x_quantity (executions_of fd i s p rs ts)) = sum_list ts"
  using assms
  by (induction rs ts rule: list_induct2')
     (auto simp: executions_of_def make_execution_def)

lemma volume_residual:
  assumes "length ts = length rs" and "\<forall>(r, t) \<in> set (zip rs ts). t \<le> o_quantity r"
  shows "volume (residual_orders rs ts) = volume rs - sum_list ts"
  using assms
  by (induction rs ts rule: list_induct2') (auto simp: residual_orders_def)

text \<open>C3: conservation of quantity. The executed quantities add up to the smaller of the submitted
  quantity and the volume resting at that price on the other side; that side shrinks by exactly
  the executed quantity, and what is left of the submitted quantity rests as one new order with
  the returned id, at the end of the submitter's own queue, or nothing rests when nothing is left.\<close>

theorem add_order_conserves:
  assumes "book_reachable b" and "0 < qty" and "add_order fd i s qty p [] b = (oid, ex, b')"
    and "vol = volume (at_price p (map snd (queue_of (Queue (opposite s) i) b)))"
  shows "sum_list (map x_quantity ex) = min qty vol \<and>
    volume (map snd (queue_of (Queue (opposite s) i) b')) =
      volume (map snd (queue_of (Queue (opposite s) i) b)) - min qty vol \<and>
    map snd (queue_of (Queue s i) b') = map snd (queue_of (Queue s i) b) @
      (if vol < qty then [\<lparr>o_id = oid, o_owner_fd = fd, o_instrument = i, o_side = s,
         o_quantity = qty - vol, o_price = p\<rparr>] else [])"
proof -
  let ?q = "queue_of (Queue (opposite s) i) b"
  let ?ts = "alloc p qty (map snd ?q)"
  have inv: "book_inv b" using assms(1) by (rule book_reachable_inv)
  note pos = book_inv_pos [OF inv, of "Queue (opposite s) i"]
  have sum: "sum_list ?ts = min qty vol"
    using sum_alloc [OF pos, of qty p] assms(2,4) by simp
  have "volume (map snd (residual ?q ?ts)) = volume (map snd ?q) - sum_list ?ts"
    using alloc_bounds [OF pos, of qty _ _ p] assms(2)
    by (simp add: map_snd_residual, intro volume_residual) auto
  moreover have "sum_list (map x_quantity (executions_of fd i s p (map snd ?q) ?ts)) = sum_list ?ts"
    using alloc_nonneg [OF pos, of qty p] assms(2) by (intro sum_executions) simp_all
  ultimately show ?thesis
    using assms(2,3) sum
    by (auto simp: add_order_eq [OF inv] queue_of_rest_order queue_of_matched_book left_over_def
        new_order_def)
qed

theorem add_order_conserves_witness:
  "sum_list (map x_quantity (fst (snd (add_order 7 ''JNST'' Side_BUY 60 100 [] two_asks)))) = 60 \<and>
   volume (map snd (queue_of (Queue Side_SELL ''JNST'')
     (snd (snd (add_order 7 ''JNST'' Side_BUY 60 100 [] two_asks))))) = 20"
proof -
  have vol: "volume (at_price 100 (map snd (queue_of (Queue Side_SELL ''JNST'') two_asks))) = 80"
    and all: "volume (map snd (queue_of (Queue Side_SELL ''JNST'') two_asks)) = 80"
    by code_simp+
  obtain oid ex b' where "add_order 7 ''JNST'' Side_BUY 60 100 [] two_asks = (oid, ex, b')"
    using prod_cases3 by blast
  from add_order_conserves [OF two_asks_reachable _ this, of 80] this vol all show ?thesis by simp
qed

text \<open>C4: the book is never crossed. No reachable book holds a buy and a sell order for the same
  instrument at the same price, every resting order has unfilled quantity, and each queue is in
  submission order (strictly increasing ids, all below the next id to be given).\<close>

theorem book_never_crossed:
  assumes "book_reachable b"
  shows "(\<forall>i. \<forall>x \<in> snd ` set (buys b i). \<forall>y \<in> snd ` set (sells b i). o_price x \<noteq> o_price y) \<and>
    (\<forall>k n r. (n, r) \<in> set (queue_of k b) \<longrightarrow>
       0 < o_quantity r \<and> Queue (o_side r) (o_instrument r) = k \<and> o_id r < next_order_id b) \<and>
    (\<forall>k. sorted_wrt (<) (map (\<lambda>(n, r). o_id r) (queue_of k b)))"
proof -
  have inv: "book_inv b" using assms by (rule book_reachable_inv)
  have "sorted_wrt (<) (map (\<lambda>(n, r). o_id r) (queue_of k b))" for k
    using book_invD(1) [OF inv, of k] by (simp add: queue_ok_def)
  moreover have "0 < o_quantity r \<and> Queue (o_side r) (o_instrument r) = k \<and> o_id r < next_order_id b"
    if "(n, r) \<in> set (queue_of k b)" for k n r
    using queue_okD [OF book_invD(1) [OF inv] that] by simp
  ultimately show ?thesis
    using book_invD(3) [OF inv] unfolding uncrossed_def by blast
qed

theorem book_never_crossed_witness:
  "book_reachable two_asks \<and> length (queue_of (Queue Side_SELL ''JNST'') two_asks) = 2 \<and>
   sorted_wrt (<) (map (\<lambda>(n, r). o_id r) (queue_of (Queue Side_SELL ''JNST'') two_asks))"
proof -
  have "length (queue_of (Queue Side_SELL ''JNST'') two_asks) = 2" by code_simp
  with book_never_crossed [OF two_asks_reachable] two_asks_reachable show ?thesis by blast
qed

text \<open>C5: the book implements its specification. Forgetting nodes and index, submitting an order
  is \<open>spec_add\<close>, cancelling is \<open>spec_cancel\<close> with the same answer and error text, and removing a
  client's orders is \<open>spec_remove\<close>.\<close>

theorem book_refines_spec:
  assumes "book_reachable b" and "0 < qty"
  shows "(\<lambda>(oid, ex, b'). (oid, ex, abs_book b')) (add_order fd i s qty p [] b) =
      spec_add fd i s qty p (abs_book b) \<and>
    map_prod id abs_book (cancel_order oid fd b) = spec_cancel oid fd (abs_book b) \<and>
    abs_book (remove_orders_of fd b) = spec_remove fd (abs_book b)"
proof -
  have inv: "book_inv b" using assms(1) by (rule book_reachable_inv)
  have "(\<lambda>(oid, ex, b'). (oid, ex, abs_book b')) (add_order fd i s qty p [] b) =
      spec_add fd i s qty p (abs_book b)"
    using add_order_abs [OF inv assms(2), of fd i s p] by (auto split: prod.split)
  then show ?thesis
    using cancel_order_abs [OF inv] remove_orders_of_abs [OF inv] by blast
qed

theorem book_refines_spec_witness:
  "fst (cancel_order 2 6 two_asks) = fst (spec_cancel 2 6 (abs_book two_asks)) \<and>
   abs_book (remove_orders_of 5 two_asks) = spec_remove 5 (abs_book two_asks)"
  using book_refines_spec [OF two_asks_reachable, of 1 _ _ _ _ 2] by (metis fst_map_prod id_apply zero_less_one)

text \<open>C6: cancellation. Cancelling succeeds exactly when the order is resting and belongs to the
  requester; it then disappears and every other resting order keeps its place, so that cancelling
  it again reports that there is no such order. Cancelling an unknown or completed order, or
  another trader's order, changes nothing and says which of the two it was.\<close>

theorem cancel_order_behaviour:
  assumes "book_reachable b"
  shows "(fst (cancel_order oid fd b) = Inr () \<longleftrightarrow>
      (\<exists>r \<in> resting b. o_id r = oid \<and> o_owner_fd r = fd)) \<and>
    (fst (cancel_order oid fd b) = Inr () \<longrightarrow>
      (\<forall>k. queue_of k (snd (cancel_order oid fd b)) =
         filter (\<lambda>(n, r). o_id r \<noteq> oid) (queue_of k b)) \<and>
      fst (cancel_order oid fd (snd (cancel_order oid fd b))) = Inl (no_such_order oid)) \<and>
    (\<forall>e. fst (cancel_order oid fd b) = Inl e \<longrightarrow>
      snd (cancel_order oid fd b) = b \<and>
      e = (if \<exists>r \<in> resting b. o_id r = oid then other_trader oid else no_such_order oid))"
proof -
  have inv: "book_inv b" using assms by (rule book_reachable_inv)
  show ?thesis
  proof (cases "\<exists>r \<in> resting b. o_id r = oid")
    case False
    then have "cancel_order oid fd b = (Inl (no_such_order oid), b)"
      by (intro cancel_order_cases(1) [OF inv]) blast
    with False show ?thesis by auto
  next
    case True
    then obtain r where r: "r \<in> resting b" "o_id r = oid" by blast
    have only: "r' = r" if "r' \<in> resting b" "o_id r' = oid" for r'
      using resting_unique [OF inv that(1) r(1)] that(2) r(2) by simp
    have uniq: "(\<exists>r \<in> resting b. o_id r = oid \<and> o_owner_fd r = fd) \<longleftrightarrow> o_owner_fd r = fd"
      using r only by blast
    show ?thesis
    proof (cases "o_owner_fd r = fd")
      case False
      with True uniq cancel_order_cases(2) [OF inv r False] show ?thesis by auto
    next
      case own: True
      obtain l where l: "map_of (order_index b) oid = Some l"
          "cancel_order oid fd b = (Inr (), erase_at oid l b)"
        using cancel_order_cases(3) [OF inv r own] by blast
      have "fst (cancel_order oid fd (erase_at oid l b)) = Inl (no_such_order oid)"
        by (simp add: cancel_order_def erase_at_facts [OF inv l(1)])
      with l uniq own show ?thesis by (simp add: erase_at_facts [OF inv l(1)])
    qed
  qed
qed

theorem cancel_order_behaviour_witness:
  "fst (cancel_order 1 5 two_asks) = Inr () \<and>
   fst (cancel_order 1 5 (snd (cancel_order 1 5 two_asks))) = Inl (no_such_order 1) \<and>
   fst (cancel_order 1 6 two_asks) = Inl (other_trader 1) \<and>
   fst (cancel_order 9 5 two_asks) = Inl (no_such_order 9)"
proof -
  have "fst (cancel_order 1 5 two_asks) = Inr ()" "fst (cancel_order 1 6 two_asks) = Inl (other_trader 1)"
      "fst (cancel_order 9 5 two_asks) = Inl (no_such_order 9)"
    by code_simp+
  with cancel_order_behaviour [OF two_asks_reachable, of 1 5] show ?thesis by blast
qed

text \<open>Order numbers. A submitted order gets the next id, ids only grow, the id was never carried by a
  resting order before, and the id stays within a \<^verbatim>\<open>long\<close> as long as fewer than
  \<open>2 ^ 63 - 1\<close> orders have been submitted.\<close>

theorem add_order_id:
  assumes "book_reachable b" and "0 < qty" and "add_order fd i s qty p [] b = (oid, ex, b')"
  shows "oid = next_order_id b \<and> next_order_id b' = oid + 1 \<and> 0 < oid \<and>
    (\<forall>r \<in> resting b. o_id r < oid) \<and> (oid < 2 ^ 63 - 1 \<longrightarrow> is_long (next_order_id b'))"
proof -
  have inv: "book_inv b" using assms(1) by (rule book_reachable_inv)
  have "o_id r < next_order_id b" if "r \<in> resting b" for r
    using inv that by (rule resting_id_less)
  moreover have ids: "oid = next_order_id b" "next_order_id b' = oid + 1"
    using assms(2,3) by (auto simp: add_order_eq [OF inv])
  moreover have "is_long (next_order_id b')" if "oid < 2 ^ 63 - 1"
    using that ids book_invD(4) [OF inv] by (simp add: is_long_def)
  ultimately show ?thesis using book_invD(4) [OF inv] by blast
qed

theorem add_order_id_witness:
  "fst (add_order 7 ''JNST'' Side_BUY 60 100 [] two_asks) = 3 \<and>
   next_order_id (snd (snd (add_order 7 ''JNST'' Side_BUY 60 100 [] two_asks))) = 4"
proof -
  have n: "next_order_id two_asks = 3" by code_simp
  obtain oid ex b' where "add_order 7 ''JNST'' Side_BUY 60 100 [] two_asks = (oid, ex, b')"
    using prod_cases3 by blast
  from add_order_id [OF two_asks_reachable _ this] this n show ?thesis by simp
qed

end
