(* ===== verification/Message_Parser.thy ===== *)
theory Message_Parser
  imports Exchange_Prelude
begin

text \<open>
  The line protocol, \<^verbatim>\<open>src/src/protocol/message_parser.hpp\<close> and \<^verbatim>\<open>message_parser.cpp\<close>:
  tokenising with \<^verbatim>\<open>std::istringstream\<close>, strict integers computed in a 64-bit \<^verbatim>\<open>long\<close>,
  the command grammar with every error text, and the formatting of responses.
  The theory shows that the digit loop never overflows and reads exactly the decimal value, that
  parsing is the inverse of rendering a command, which lines are valid and what each error is, and
  that every response is one line whatever the client sent.
\<close>

section \<open>Data\<close>

datatype CommandType = UNKNOWN | LOGIN | BUY | SELL | CANCEL | SUBSCRIBE | UNSUBSCRIBE | QUIT

record ParsedCommand =
  cmd_type :: CommandType
  cmd_args :: "string list"
  cmd_valid :: bool
  cmd_error :: string
  cmd_instrument :: string
  cmd_quantity :: int
  cmd_price :: int
  cmd_order_id :: int

definition new_command :: ParsedCommand where
  "new_command = \<lparr>cmd_type = UNKNOWN, cmd_args = [], cmd_valid = False, cmd_error = [],
     cmd_instrument = [], cmd_quantity = 0, cmd_price = 0, cmd_order_id = 0\<rparr>"

definition kInstruments :: "string list" where
  "kInstruments = [''JNST'', ''IMCT'']"

definition is_valid_instrument :: "string \<Rightarrow> bool" where
  "is_valid_instrument instrument = list_ex (\<lambda>name. instrument = name) kInstruments"

fun verb :: "CommandType \<Rightarrow> string" where
  "verb LOGIN = ''LOGIN''"
| "verb BUY = ''BUY''"
| "verb SELL = ''SELL''"
| "verb CANCEL = ''CANCEL''"
| "verb SUBSCRIBE = ''SUBSCRIBE''"
| "verb UNSUBSCRIBE = ''UNSUBSCRIBE''"
| "verb QUIT = ''QUIT''"
| "verb UNKNOWN = ''UNKNOWN''"

section \<open>Integers\<close>

text \<open>The digit loop, in the arithmetic of a 64-bit word.\<close>

fun parse_digits :: "string \<Rightarrow> 64 word \<Rightarrow> 64 word option" where
  "parse_digits [] value = Some value"
| "parse_digits (c # cs) value =
     (if \<not> isdigit c then None
      else parse_digits cs (value * 10 + (word_of_nat (of_char c) - 48)))"

definition parse_integer :: "string \<Rightarrow> int option" where
  "parse_integer text =
     (if text = [] \<or> length text > 18 then None else map_option sint (parse_digits text 0))"

section \<open>Tokens\<close>

text \<open>\<^verbatim>\<open>stream >> token\<close>: skip white space, then take characters up to the next white space;
  \<^term>\<open>None\<close> when the stream fails.\<close>

definition read_token :: "string \<Rightarrow> (string \<times> string) option" where
  "read_token s =
     (let s' = dropWhile isspace s
      in if s' = [] then None
         else Some (takeWhile (\<lambda>c. \<not> isspace c) s', dropWhile (\<lambda>c. \<not> isspace c) s'))"

lemma read_token_shorter:
  assumes "read_token s = Some (t, rest)"
  shows "length rest < length s"
proof -
  from assms obtain c cs where c: "dropWhile isspace s = c # cs" "rest = dropWhile (\<lambda>c. \<not> isspace c) (c # cs)"
    by (cases "dropWhile isspace s") (auto simp: read_token_def)
  then have "\<not> isspace c" using hd_dropWhile [of isspace s] by simp
  with c have "length rest \<le> length cs" by (simp add: length_dropWhile_le)
  moreover have "length (c # cs) \<le> length s"
    using length_dropWhile_le [of isspace s] c(1) by simp
  ultimately show ?thesis by simp
qed

function read_tokens :: "string \<Rightarrow> string list" where
  "read_tokens s =
     (case read_token s of None \<Rightarrow> [] | Some (t, rest) \<Rightarrow> t # read_tokens rest)"
  by pat_completeness auto
termination
  by (relation "measure length") (auto dest: read_token_shorter)

declare read_tokens.simps [simp del]

section \<open>Parsing one line\<close>

definition verb_of :: "string \<Rightarrow> CommandType" where
  "verb_of token =
     (if token = ''LOGIN'' then LOGIN
      else if token = ''BUY'' then BUY
      else if token = ''SELL'' then SELL
      else if token = ''CANCEL'' then CANCEL
      else if token = ''SUBSCRIBE'' then SUBSCRIBE
      else if token = ''UNSUBSCRIBE'' then UNSUBSCRIBE
      else if token = ''QUIT'' then QUIT
      else UNKNOWN)"

definition reject :: "ParsedCommand \<Rightarrow> string \<Rightarrow> ParsedCommand" where
  "reject cmd reason = cmd\<lparr>cmd_valid := False, cmd_error := reason\<rparr>"

definition accept :: "ParsedCommand \<Rightarrow> ParsedCommand" where
  "accept cmd = cmd\<lparr>cmd_valid := True\<rparr>"

text \<open>The arms of the \<^verbatim>\<open>switch\<close>. A failed \<^verbatim>\<open>parse_integer\<close> leaves the field it would
  have filled as it was; a successful one writes it before the range check.\<close>

definition parse_login :: "ParsedCommand \<Rightarrow> ParsedCommand" where
  "parse_login cmd =
     (if length (cmd_args cmd) \<noteq> 1 then reject cmd ''Usage: LOGIN <username>''
      else if length (cmd_args cmd ! 0) > 64 then reject cmd ''Username too long''
      else accept cmd)"

definition parse_price :: "ParsedCommand \<Rightarrow> ParsedCommand" where
  "parse_price cmd =
     (case parse_integer (cmd_args cmd ! 2) of
        None \<Rightarrow> reject cmd ''Price must be a positive integer''
      | Some v \<Rightarrow>
          (let cmd' = cmd\<lparr>cmd_price := v\<rparr>
           in if v \<le> 0 then reject cmd' ''Price must be a positive integer''
              else accept (cmd'\<lparr>cmd_instrument := cmd_args cmd ! 0\<rparr>)))"

definition parse_order :: "ParsedCommand \<Rightarrow> ParsedCommand" where
  "parse_order cmd =
     (if length (cmd_args cmd) \<noteq> 3
      then reject cmd (''Usage: '' @ verb (cmd_type cmd) @ '' <instrument> <quantity> <price>'')
      else if \<not> is_valid_instrument (cmd_args cmd ! 0)
      then reject cmd (''Unknown instrument '' @ cmd_args cmd ! 0)
      else (case parse_integer (cmd_args cmd ! 1) of
              None \<Rightarrow> reject cmd ''Quantity must be a positive integer''
            | Some v \<Rightarrow>
                (let cmd' = cmd\<lparr>cmd_quantity := v\<rparr>
                 in if v \<le> 0 then reject cmd' ''Quantity must be a positive integer''
                    else parse_price cmd')))"

definition parse_cancel :: "ParsedCommand \<Rightarrow> ParsedCommand" where
  "parse_cancel cmd =
     (if length (cmd_args cmd) \<noteq> 1 then reject cmd ''Usage: CANCEL <order_id>''
      else (case parse_integer (cmd_args cmd ! 0) of
              None \<Rightarrow> reject cmd ''Order id must be a non-negative integer''
            | Some v \<Rightarrow> accept (cmd\<lparr>cmd_order_id := v\<rparr>)))"

definition parse_subscription :: "ParsedCommand \<Rightarrow> ParsedCommand" where
  "parse_subscription cmd =
     (if length (cmd_args cmd) \<noteq> 1
      then reject cmd (''Usage: '' @ verb (cmd_type cmd) @ '' <instrument>'')
      else if \<not> is_valid_instrument (cmd_args cmd ! 0)
      then reject cmd (''Unknown instrument '' @ cmd_args cmd ! 0)
      else accept (cmd\<lparr>cmd_instrument := cmd_args cmd ! 0\<rparr>))"

definition parse_quit :: "ParsedCommand \<Rightarrow> ParsedCommand" where
  "parse_quit cmd = (if cmd_args cmd \<noteq> [] then reject cmd ''Usage: QUIT'' else accept cmd)"

definition parse :: "string \<Rightarrow> ParsedCommand" where
  "parse line =
     (case read_token line of
        None \<Rightarrow> reject new_command ''Empty message''
      | Some (token, stream) \<Rightarrow>
          (let cmd = new_command\<lparr>cmd_type := verb_of token, cmd_args := read_tokens stream\<rparr>
           in if cmd_type cmd = UNKNOWN then reject cmd ''Unknown command''
              else (case cmd_type cmd of
                      LOGIN \<Rightarrow> parse_login cmd
                    | BUY \<Rightarrow> parse_order cmd
                    | SELL \<Rightarrow> parse_order cmd
                    | CANCEL \<Rightarrow> parse_cancel cmd
                    | SUBSCRIBE \<Rightarrow> parse_subscription cmd
                    | UNSUBSCRIBE \<Rightarrow> parse_subscription cmd
                    | QUIT \<Rightarrow> parse_quit cmd
                    | UNKNOWN \<Rightarrow> reject cmd ''Unknown command'')))"

section \<open>Responses\<close>

definition join :: "string \<Rightarrow> string \<Rightarrow> int \<Rightarrow> int \<Rightarrow> string" where
  "join head instrument qty price =
     head @ '' '' @ instrument @ '' '' @ to_string qty @ '' '' @ to_string price @ [LF]"

definition ok :: string where
  "ok = ''OK'' @ [LF]"

definition error :: "string \<Rightarrow> string" where
  "error reason = ''ERROR '' @ reason @ [LF]"

definition order_accepted :: "int \<Rightarrow> string" where
  "order_accepted oid = ''ORDER_ACCEPTED '' @ to_string oid @ [LF]"

definition order_cancelled :: "int \<Rightarrow> string" where
  "order_cancelled oid = ''ORDER_CANCELLED '' @ to_string oid @ [LF]"

definition bought :: "string \<Rightarrow> int \<Rightarrow> int \<Rightarrow> string" where
  "bought instrument qty price = join ''BOUGHT'' instrument qty price"

definition sold :: "string \<Rightarrow> int \<Rightarrow> int \<Rightarrow> string" where
  "sold instrument qty price = join ''SOLD'' instrument qty price"

definition trade :: "string \<Rightarrow> int \<Rightarrow> int \<Rightarrow> string" where
  "trade instrument qty price = join ''TRADE'' instrument qty price"

section \<open>Integers are read exactly\<close>

definition digit_value :: "char \<Rightarrow> int" where
  "digit_value c = int (of_char c) - 48"

fun decimal_from :: "int \<Rightarrow> string \<Rightarrow> int" where
  "decimal_from a [] = a"
| "decimal_from a (c # cs) = decimal_from (a * 10 + digit_value c) cs"

definition decimal :: "string \<Rightarrow> int" where
  "decimal = decimal_from 0"

lemma digit_value_range: "isdigit c \<Longrightarrow> 0 \<le> digit_value c \<and> digit_value c < 10"
  by (auto simp: isdigit_def digit_value_def)

lemma decimal_from_bounds:
  "\<forall>c \<in> set s. isdigit c \<Longrightarrow> 0 \<le> a \<Longrightarrow> a < 10 ^ k \<Longrightarrow>
     0 \<le> decimal_from a s \<and> decimal_from a s < 10 ^ (k + length s)"
proof (induction s arbitrary: a k)
  case (Cons c s)
  have "0 \<le> a * 10 + digit_value c \<and> a * 10 + digit_value c < 10 ^ Suc k"
    using Cons.prems digit_value_range [of c] by auto
  with Cons.IH [of "a * 10 + digit_value c" "Suc k"] Cons.prems show ?case by simp
qed simp

lemma uint_digit_step:
  fixes w :: "64 word"
  assumes "isdigit c" and "uint w = a" and "a < 10 ^ 17"
  shows "uint (w * 10 + (word_of_nat (of_char c) - 48)) = a * 10 + digit_value c"
proof -
  have c: "48 \<le> (of_char c :: nat)" "(of_char c :: nat) \<le> 57"
    using assms(1) by (simp_all add: isdigit_def)
  have "w = word_of_int a" using assms(2) by auto
  then have "w * 10 + (word_of_nat (of_char c) - 48) = word_of_int (a * 10 + digit_value c)"
    by (simp only: digit_value_def of_int_add of_int_mult of_int_diff of_int_of_nat_eq of_int_numeral)
  moreover have "0 \<le> a" using assms(2) by (metis uint_ge_0)
  then have "uint (word_of_int (a * 10 + digit_value c) :: 64 word) = a * 10 + digit_value c"
    using digit_value_range [OF assms(1)] assms(3)
    by (subst uint_word_of_int_eq) (simp add: take_bit_int_eq_self)
  ultimately show ?thesis by (simp only:)
qed

lemma parse_digits_Some:
  "\<forall>c \<in> set s. isdigit c \<Longrightarrow> uint w = a \<Longrightarrow> a < 10 ^ k \<Longrightarrow> k + length s \<le> 18 \<Longrightarrow>
     \<exists>w'. parse_digits s w = Some w' \<and> uint w' = decimal_from a s"
proof (induction s arbitrary: w a k)
  case (Cons c s)
  have a: "0 \<le> a" using Cons.prems(2) by (metis uint_ge_0)
  have "(10::int) ^ k \<le> 10 ^ 17" using Cons.prems(4) by (intro power_increasing) simp_all
  then have "uint (w * 10 + (word_of_nat (of_char c) - 48)) = a * 10 + digit_value c"
    using Cons.prems by (intro uint_digit_step) simp_all
  moreover have "a * 10 + digit_value c < 10 ^ Suc k"
    using Cons.prems digit_value_range [of c] by auto
  ultimately show ?case
    using Cons.IH [of "w * 10 + (word_of_nat (of_char c) - 48)" "a * 10 + digit_value c" "Suc k"] Cons.prems
    by simp
qed simp

lemma parse_digits_None: "\<not> (\<forall>c \<in> set s. isdigit c) \<Longrightarrow> parse_digits s w = None"
  by (induction s arbitrary: w) auto

lemma parse_integer_eq:
  "parse_integer s =
     (if s \<noteq> [] \<and> length s \<le> 18 \<and> (\<forall>c \<in> set s. isdigit c) then Some (decimal s) else None)"
proof (cases "s \<noteq> [] \<and> length s \<le> 18 \<and> (\<forall>c \<in> set s. isdigit c)")
  case True
  then obtain w where w: "parse_digits s 0 = Some w" "uint w = decimal s"
    using parse_digits_Some [of s 0 0 0] by (auto simp: decimal_def)
  have "0 \<le> decimal s \<and> decimal s < 10 ^ length s"
    using decimal_from_bounds [of s 0 0] True by (simp add: decimal_def)
  moreover have "(10::int) ^ length s \<le> 10 ^ 18" using True by (intro power_increasing) simp_all
  ultimately have "is_long (decimal s)" by (simp add: is_long_def)
  then have "sint w = decimal s"
    using w(2) sint_word_of_int_64 by (metis word_of_int_uint)
  with True w show ?thesis by (simp add: parse_integer_def)
next
  case False
  then show ?thesis using parse_digits_None [of s 0] by (auto simp: parse_integer_def)
qed

lemma decimal_from_append [simp]: "decimal_from a (s @ t) = decimal_from (decimal_from a s) t"
  by (induction s arbitrary: a) auto

lemma decimal_nat_digits: "decimal (nat_digits n) = int n"
proof (induction n rule: nat_digits.induct)
  case (1 n)
  show ?case
  proof (cases "n < 10")
    case True
    then show ?thesis by (subst nat_digits.simps) (simp add: decimal_def digit_value_def)
  next
    case False
    with 1 have "decimal (nat_digits n) = int (n div 10) * 10 + int (n mod 10)"
      by (subst nat_digits.simps) (simp add: decimal_def digit_value_def)
    then show ?thesis by (simp add: zdiv_int zmod_int)
  qed
qed

lemma parse_integer_to_string:
  assumes "0 \<le> x" and "x < 10 ^ 18"
  shows "parse_integer (to_string x) = Some x"
proof -
  have "nat x < 10 ^ 18" using assms by (simp add: nat_less_iff)
  then have "length (nat_digits (nat x)) \<le> 18" by (rule length_nat_digits) simp
  with assms show ?thesis
    by (simp add: parse_integer_eq to_string_def nat_digits_isdigit decimal_nat_digits)
qed

section \<open>Tokens\<close>

text \<open>A word: what one \<^verbatim>\<open>stream >> token\<close> can deliver.\<close>

definition is_word :: "string \<Rightarrow> bool" where
  "is_word t \<longleftrightarrow> t \<noteq> [] \<and> (\<forall>c \<in> set t. \<not> isspace c)"

fun unwords :: "string list \<Rightarrow> string" where
  "unwords [] = []"
| "unwords [t] = t"
| "unwords (t # ts) = t @ SP # unwords ts"

lemma is_word_to_string [simp]: "is_word (to_string x)"
  by (simp add: is_word_def to_string_no_space)

lemma is_word_verb [simp]: "is_word (verb t)"
  by (cases t) (simp_all add: is_word_def isspace_def)

lemma is_word_instrument: "is_valid_instrument i \<Longrightarrow> is_word i"
  by (auto simp: is_valid_instrument_def kInstruments_def is_word_def isspace_def)

lemma is_word_LF: "is_word t \<Longrightarrow> LF \<notin> set t" and is_word_CR: "is_word t \<Longrightarrow> CR \<notin> set t"
  by (auto simp: is_word_def)

lemma read_token_word:
  assumes "read_token s = Some (t, rest)"
  shows "is_word t"
proof -
  from assms obtain c cs where c: "dropWhile isspace s = c # cs" "t = takeWhile (\<lambda>c. \<not> isspace c) (c # cs)"
    by (cases "dropWhile isspace s") (auto simp: read_token_def)
  then have "\<not> isspace c" using hd_dropWhile [of isspace s] by simp
  with c show ?thesis by (auto simp: is_word_def dest: set_takeWhileD)
qed

lemma read_tokens_None: "read_token s = None \<Longrightarrow> read_tokens s = []"
  by (simp add: read_tokens.simps)

lemma read_tokens_Some: "read_token s = Some (t, rest) \<Longrightarrow> read_tokens s = t # read_tokens rest"
  by (simp add: read_tokens.simps [of s])

lemma read_tokens_cases_induct [case_names None Some]:
  assumes "\<And>s. read_token s = None \<Longrightarrow> P s"
    and "\<And>s t rest. read_token s = Some (t, rest) \<Longrightarrow> P rest \<Longrightarrow> P s"
  shows "P s"
proof (induction s rule: length_induct)
  case (1 s)
  show ?case
  proof (cases "read_token s")
    case None
    then show ?thesis by (rule assms(1))
  next
    case (Some p)
    then obtain t rest where p: "read_token s = Some (t, rest)" by (cases p) auto
    with 1 show ?thesis using assms(2) [OF p] read_token_shorter [OF p] by blast
  qed
qed

lemma read_tokens_words: "\<forall>t \<in> set (read_tokens s). is_word t"
  by (induction s rule: read_tokens_cases_induct)
     (auto simp: read_tokens_None read_tokens_Some dest: read_token_word)

lemma read_token_word_space:
  "is_word t \<Longrightarrow> read_token (t @ SP # s) = Some (t, SP # s)"
  by (cases t) (auto simp: read_token_def is_word_def takeWhile_append dropWhile_append)

lemma read_token_only_word: "is_word t \<Longrightarrow> read_token t = Some (t, [])"
  by (cases t) (auto simp: read_token_def is_word_def)

lemma read_token_skip: "isspace c \<Longrightarrow> read_token (c # s) = read_token s"
  by (simp add: read_token_def)

lemma read_tokens_skip: "isspace c \<Longrightarrow> read_tokens (c # s) = read_tokens s"
  by (subst (1 2) read_tokens.simps) (simp add: read_token_skip)

lemma read_tokens_unwords: "\<forall>t \<in> set ts. is_word t \<Longrightarrow> read_tokens (unwords ts) = ts"
proof (induction ts rule: unwords.induct)
  case 1
  then show ?case by (simp add: read_tokens.simps read_token_def)
next
  case (2 t)
  then show ?case
    by (simp add: read_tokens_Some [OF read_token_only_word] read_tokens.simps [of "[]"] read_token_def)
next
  case (3 t u ts)
  then show ?case
    by (simp add: read_tokens_Some [OF read_token_word_space] read_tokens_skip)
qed

text \<open>Tokenising loses nothing but white space.\<close>

lemma filter_dropWhile_space:
  "filter (\<lambda>c. \<not> isspace c) (dropWhile isspace s) = filter (\<lambda>c. \<not> isspace c) s"
  by (induction s) auto

lemma concat_read_tokens: "concat (read_tokens s) = filter (\<lambda>c. \<not> isspace c) s"
proof (induction s rule: read_tokens_cases_induct)
  case (None s)
  then show ?case
    using filter_dropWhile_space [of s] by (simp add: read_tokens_None read_token_def Let_def split: if_splits)
next
  case (Some s t rest)
  then have "dropWhile isspace s = t @ rest"
    by (auto simp: read_token_def Let_def split: if_splits)
  then have "filter (\<lambda>c. \<not> isspace c) s = filter (\<lambda>c. \<not> isspace c) (t @ rest)"
    using filter_dropWhile_space [of s] by simp
  moreover have "filter (\<lambda>c. \<not> isspace c) t = t"
    using read_token_word [OF Some(1)] by (simp add: is_word_def filter_id_conv)
  ultimately show ?case using Some by (simp add: read_tokens_Some)
qed

section \<open>The grammar\<close>

fun parse_words :: "string list \<Rightarrow> ParsedCommand" where
  "parse_words [] = reject new_command ''Empty message''"
| "parse_words (token # args) =
     (let cmd = new_command\<lparr>cmd_type := verb_of token, cmd_args := args\<rparr>
      in case verb_of token of
           LOGIN \<Rightarrow> parse_login cmd | BUY \<Rightarrow> parse_order cmd | SELL \<Rightarrow> parse_order cmd
         | CANCEL \<Rightarrow> parse_cancel cmd | SUBSCRIBE \<Rightarrow> parse_subscription cmd
         | UNSUBSCRIBE \<Rightarrow> parse_subscription cmd | QUIT \<Rightarrow> parse_quit cmd
         | UNKNOWN \<Rightarrow> reject cmd ''Unknown command'')"

lemma parse_eq_words: "parse line = parse_words (read_tokens line)"
  by (cases "read_token line")
     (auto simp: parse_def read_tokens_None read_tokens_Some Let_def split: CommandType.split)

datatype command = Login string | Buy string int int | Sell string int int | Cancel int
  | Subscribe string | Unsubscribe string | Quit

definition in_range :: "int \<Rightarrow> bool" where
  "in_range x \<longleftrightarrow> 0 \<le> x \<and> x < 10 ^ 18"

fun command_ok :: "command \<Rightarrow> bool" where
  "command_ok (Login u) \<longleftrightarrow> is_word u \<and> length u \<le> 64"
| "command_ok (Buy i q p) \<longleftrightarrow> is_valid_instrument i \<and> in_range q \<and> 0 < q \<and> in_range p \<and> 0 < p"
| "command_ok (Sell i q p) \<longleftrightarrow> is_valid_instrument i \<and> in_range q \<and> 0 < q \<and> in_range p \<and> 0 < p"
| "command_ok (Cancel n) \<longleftrightarrow> in_range n"
| "command_ok (Subscribe i) \<longleftrightarrow> is_valid_instrument i"
| "command_ok (Unsubscribe i) \<longleftrightarrow> is_valid_instrument i"
| "command_ok Quit \<longleftrightarrow> True"

fun render_words :: "command \<Rightarrow> string list" where
  "render_words (Login u) = [verb LOGIN, u]"
| "render_words (Buy i q p) = [verb BUY, i, to_string q, to_string p]"
| "render_words (Sell i q p) = [verb SELL, i, to_string q, to_string p]"
| "render_words (Cancel n) = [verb CANCEL, to_string n]"
| "render_words (Subscribe i) = [verb SUBSCRIBE, i]"
| "render_words (Unsubscribe i) = [verb UNSUBSCRIBE, i]"
| "render_words Quit = [verb QUIT]"

definition render :: "command \<Rightarrow> string" where
  "render c = unwords (render_words c)"

text \<open>The command a valid parse result stands for, read the way the server reads it.\<close>

definition decode :: "ParsedCommand \<Rightarrow> command option" where
  "decode cmd =
     (if \<not> cmd_valid cmd then None
      else case cmd_type cmd of
             LOGIN \<Rightarrow> Some (Login (cmd_args cmd ! 0))
           | BUY \<Rightarrow> Some (Buy (cmd_instrument cmd) (cmd_quantity cmd) (cmd_price cmd))
           | SELL \<Rightarrow> Some (Sell (cmd_instrument cmd) (cmd_quantity cmd) (cmd_price cmd))
           | CANCEL \<Rightarrow> Some (Cancel (cmd_order_id cmd))
           | SUBSCRIBE \<Rightarrow> Some (Subscribe (cmd_instrument cmd))
           | UNSUBSCRIBE \<Rightarrow> Some (Unsubscribe (cmd_instrument cmd))
           | QUIT \<Rightarrow> Some Quit
           | UNKNOWN \<Rightarrow> None)"

lemma verb_of_verb [simp]: "verb_of (verb t) = t"
  by (cases t) (simp_all add: verb_of_def)

lemma verb_of_eq: "t \<noteq> UNKNOWN \<Longrightarrow> verb_of w = t \<longleftrightarrow> w = verb t"
  by (cases t) (auto simp: verb_of_def)

lemma render_words_are_words: "command_ok c \<Longrightarrow> \<forall>t \<in> set (render_words c). is_word t"
  by (cases c) (auto simp: is_word_instrument simp del: verb.simps)

lemmas parse_arms = parse_login_def parse_order_def parse_price_def parse_cancel_def
  parse_subscription_def parse_quit_def

lemma parse_words_render:
  assumes "command_ok c"
  shows "decode (parse_words (render_words c)) = Some c"
  using assms
  by (cases c)
     (auto simp: parse_arms Let_def accept_def decode_def in_range_def parse_integer_to_string
        new_command_def numeral_2_eq_2 simp del: verb.simps)

lemma parse_integer_in_range: "parse_integer s = Some v \<Longrightarrow> in_range v"
proof -
  assume "parse_integer s = Some v"
  then have s: "length s \<le> 18" "\<forall>c \<in> set s. isdigit c" "v = decimal s"
    by (auto simp: parse_integer_eq split: if_splits)
  have "0 \<le> decimal s \<and> decimal s < 10 ^ length s"
    using decimal_from_bounds [of s 0 0] s by (simp add: decimal_def)
  moreover have "(10::int) ^ length s \<le> 10 ^ 18" using s by (intro power_increasing) simp_all
  ultimately show "in_range v" using s by (simp add: in_range_def)
qed

text \<open>Which words denote which command: the protocol's grammar.\<close>

definition numeral_text :: "string \<Rightarrow> int \<Rightarrow> bool" where
  "numeral_text s v \<longleftrightarrow> s \<noteq> [] \<and> length s \<le> 18 \<and> (\<forall>c \<in> set s. isdigit c) \<and> v = decimal s"

fun denotes :: "string list \<Rightarrow> command \<Rightarrow> bool" where
  "denotes ws (Login u) \<longleftrightarrow> ws = [''LOGIN'', u]"
| "denotes ws (Buy i q p) \<longleftrightarrow> (\<exists>x y. ws = [''BUY'', i, x, y] \<and> numeral_text x q \<and> numeral_text y p)"
| "denotes ws (Sell i q p) \<longleftrightarrow> (\<exists>x y. ws = [''SELL'', i, x, y] \<and> numeral_text x q \<and> numeral_text y p)"
| "denotes ws (Cancel n) \<longleftrightarrow> (\<exists>x. ws = [''CANCEL'', x] \<and> numeral_text x n)"
| "denotes ws (Subscribe i) \<longleftrightarrow> ws = [''SUBSCRIBE'', i]"
| "denotes ws (Unsubscribe i) \<longleftrightarrow> ws = [''UNSUBSCRIBE'', i]"
| "denotes ws Quit \<longleftrightarrow> ws = [''QUIT'']"

lemma numeral_text_iff: "numeral_text s v \<longleftrightarrow> parse_integer s = Some v"
  by (auto simp: numeral_text_def parse_integer_eq)

lemma reject_decode [simp]: "decode (reject cmd e) = None"
  by (simp add: decode_def reject_def)

lemma decode_accept: "decode (accept cmd) = decode (cmd\<lparr>cmd_valid := True\<rparr>)"
  by (simp add: accept_def)

lemma length_Suc_0: "length xs = Suc 0 \<longleftrightarrow> (\<exists>x. xs = [x])"
  and length_3: "length xs = 3 \<longleftrightarrow> (\<exists>x y z. xs = [x, y, z])"
  by (auto simp: length_Suc_conv eval_nat_numeral)

lemma decode_order:
  assumes "cmd_type cmd = BUY \<or> cmd_type cmd = SELL"
  shows "decode (parse_order cmd) = Some c \<longleftrightarrow>
    (\<exists>i x y q p. cmd_args cmd = [i, x, y] \<and> parse_integer x = Some q \<and> parse_integer y = Some p \<and>
       is_valid_instrument i \<and> 0 < q \<and> 0 < p \<and>
       c = (if cmd_type cmd = BUY then Buy i q p else Sell i q p))"
proof (cases "\<exists>i x y. cmd_args cmd = [i, x, y]")
  case True
  then obtain i x y where args: "cmd_args cmd = [i, x, y]" by blast
  then show ?thesis
    using assms
    by (auto simp: parse_order_def parse_price_def Let_def decode_accept numeral_2_eq_2
        decode_def [of "_\<lparr>cmd_valid := True\<rparr>"] split: option.splits)
next
  case False
  then show ?thesis by (auto simp: parse_order_def length_3)
qed

lemma decode_cancel:
  assumes "cmd_type cmd = CANCEL"
  shows "decode (parse_cancel cmd) = Some c \<longleftrightarrow>
    (\<exists>x n. cmd_args cmd = [x] \<and> parse_integer x = Some n \<and> c = Cancel n)"
  using assms
  by (auto simp: parse_cancel_def length_Suc_0 decode_accept decode_def [of "_\<lparr>cmd_valid := True\<rparr>"]
      split: option.splits if_splits)

lemma decode_subscription:
  assumes "cmd_type cmd = SUBSCRIBE \<or> cmd_type cmd = UNSUBSCRIBE"
  shows "decode (parse_subscription cmd) = Some c \<longleftrightarrow>
    (\<exists>i. cmd_args cmd = [i] \<and> is_valid_instrument i \<and>
       c = (if cmd_type cmd = SUBSCRIBE then Subscribe i else Unsubscribe i))"
  using assms
  by (auto simp: parse_subscription_def length_Suc_0 decode_accept
      decode_def [of "_\<lparr>cmd_valid := True\<rparr>"] split: if_splits)

lemma decode_login:
  assumes "cmd_type cmd = LOGIN"
  shows "decode (parse_login cmd) = Some c \<longleftrightarrow> (\<exists>u. cmd_args cmd = [u] \<and> length u \<le> 64 \<and> c = Login u)"
  using assms
  by (auto simp: parse_login_def length_Suc_0 decode_accept decode_def [of "_\<lparr>cmd_valid := True\<rparr>"]
      split: if_splits)

lemma decode_quit:
  assumes "cmd_type cmd = QUIT"
  shows "decode (parse_quit cmd) = Some c \<longleftrightarrow> cmd_args cmd = [] \<and> c = Quit"
  using assms
  by (auto simp: parse_quit_def decode_accept decode_def [of "_\<lparr>cmd_valid := True\<rparr>"])

lemmas decode_arms = decode_order decode_cancel decode_subscription decode_login decode_quit

lemma decode_parse_words:
  assumes words: "\<forall>t \<in> set ws. is_word t"
  shows "decode (parse_words ws) = Some c \<longleftrightarrow> denotes ws c \<and> command_ok c"
proof (cases ws)
  case Nil
  then show ?thesis by (cases c) auto
next
  case (Cons w args)
  have v: "verb_of w = t \<Longrightarrow> t \<noteq> UNKNOWN \<Longrightarrow> w = verb t" for t
    using verb_of_eq by blast
  have unknown: "verb_of w = UNKNOWN \<Longrightarrow> \<not> denotes ws c"
    using Cons by (cases c) (auto simp: verb_of_def)
  show ?thesis
  proof (cases "verb_of w")
    case UNKNOWN
    with unknown Cons show ?thesis by (simp add: Let_def)
  next
    case LOGIN
    with v [OF LOGIN] Cons words show ?thesis by (cases c) (auto simp: Let_def decode_arms)
  next
    case BUY
    with v [OF BUY] Cons show ?thesis
      by (cases c) (auto simp: Let_def decode_arms numeral_text_iff dest: parse_integer_in_range)
  next
    case SELL
    with v [OF SELL] Cons show ?thesis
      by (cases c) (auto simp: Let_def decode_arms numeral_text_iff dest: parse_integer_in_range)
  next
    case CANCEL
    with v [OF CANCEL] Cons show ?thesis
      by (cases c) (auto simp: Let_def decode_arms numeral_text_iff dest: parse_integer_in_range)
  next
    case SUBSCRIBE
    with v [OF SUBSCRIBE] Cons show ?thesis by (cases c) (auto simp: Let_def decode_arms)
  next
    case UNSUBSCRIBE
    with v [OF UNSUBSCRIBE] Cons show ?thesis by (cases c) (auto simp: Let_def decode_arms)
  next
    case QUIT
    with v [OF QUIT] Cons show ?thesis by (cases c) (auto simp: Let_def decode_arms)
  qed
qed

lemma decode_parse: "decode (parse line) = Some c \<longleftrightarrow> denotes (read_tokens line) c \<and> command_ok c"
  by (simp add: parse_eq_words decode_parse_words read_tokens_words)

section \<open>Facts the server uses\<close>

lemma cmd_type_arms [simp]:
  "cmd_type (reject cmd e) = cmd_type cmd" "cmd_type (accept cmd) = cmd_type cmd"
  "cmd_args (reject cmd e) = cmd_args cmd" "cmd_args (accept cmd) = cmd_args cmd"
  "cmd_valid (reject cmd e) = False" "cmd_valid (accept cmd) = True"
  "cmd_error (reject cmd e) = e"
  by (simp_all add: reject_def accept_def)

lemma parse_type: "cmd_type (parse_words (w # args)) = verb_of w"
  by (auto simp: parse_arms Let_def split: CommandType.split option.split)

lemma valid_decodes:
  assumes "cmd_valid (parse line)"
  shows "\<exists>c. decode (parse line) = Some c \<and> command_ok c"
proof -
  have "read_tokens line \<noteq> []" using assms by (auto simp: parse_eq_words)
  then obtain w args where ws: "read_tokens line = w # args" by (cases "read_tokens line") auto
  then have type: "cmd_type (parse line) = verb_of w" by (simp add: parse_eq_words parse_type del: parse_words.simps)
  have "verb_of w \<noteq> UNKNOWN" using assms ws by (auto simp: parse_eq_words Let_def)
  with assms type have "decode (parse line) \<noteq> None"
    by (auto simp: decode_def split: CommandType.split)
  then obtain c where c: "decode (parse line) = Some c" by blast
  with decode_parse have "command_ok c" by blast
  with c show ?thesis by blast
qed

lemma valid_type: "cmd_valid (parse line) \<Longrightarrow> cmd_type (parse line) \<noteq> UNKNOWN"
  using valid_decodes [of line] by (auto simp: decode_def)

text \<open>The types of the values a handler works with: a user name is a word of at most 64 bytes, and the quantity
  and the price of an order are positive and below \<open>10 ^ 18\<close>.\<close>

definition user_name :: "string \<Rightarrow> bool" where
  "user_name u \<longleftrightarrow> is_word u \<and> length u \<le> 64"

definition order_terms :: "int \<Rightarrow> int \<Rightarrow> bool" where
  "order_terms qty price \<longleftrightarrow> 0 < qty \<and> qty < 10 ^ 18 \<and> 0 < price \<and> price < 10 ^ 18"

lemma user_name_word: "user_name u \<Longrightarrow> is_word u"
  by (simp add: user_name_def)

lemma order_terms_pos: "order_terms qty price \<Longrightarrow> 0 < qty"
  by (simp add: order_terms_def)

lemma valid_order:
  assumes "cmd_valid (parse line)" and "cmd_type (parse line) = BUY \<or> cmd_type (parse line) = SELL"
  shows "is_valid_instrument (cmd_instrument (parse line))"
    and "order_terms (cmd_quantity (parse line)) (cmd_price (parse line))"
  using assms valid_decodes [OF assms(1)] by (auto simp: decode_def in_range_def order_terms_def)

lemma valid_login:
  assumes "cmd_valid (parse line)" and "cmd_type (parse line) = LOGIN"
  shows "user_name (cmd_args (parse line) ! 0)"
  using assms valid_decodes [OF assms(1)] by (auto simp: decode_def user_name_def)

lemma valid_subscription:
  assumes "cmd_valid (parse line)"
    and "cmd_type (parse line) = SUBSCRIBE \<or> cmd_type (parse line) = UNSUBSCRIBE"
  shows "is_valid_instrument (cmd_instrument (parse line))"
  using assms valid_decodes [OF assms(1)] by (auto simp: decode_def)

lemma decode_render:
  assumes "command_ok c"
  shows "decode (parse (render c)) = Some c"
  using parse_words_render [OF assms] read_tokens_unwords [OF render_words_are_words [OF assms]]
  by (simp add: parse_eq_words render_def)

section \<open>Responses are single lines\<close>

definition one_line :: "string \<Rightarrow> bool" where
  "one_line m \<longleftrightarrow> (\<exists>body. m = body @ [LF] \<and> LF \<notin> set body)"

lemma one_line_append [simp]: "one_line (body @ [LF]) \<longleftrightarrow> LF \<notin> set body"
  by (auto simp: one_line_def)

lemma LF_to_string [simp]: "LF \<notin> set (to_string x)"
  by (rule is_word_LF) simp

lemma one_line_join:
  assumes "LF \<notin> set head" and "LF \<notin> set i"
  shows "one_line (join head i q p)"
proof -
  have "join head i q p = (head @ '' '' @ i @ '' '' @ to_string q @ '' '' @ to_string p) @ [LF]"
    by (simp add: join_def)
  with assms show ?thesis by (simp only: one_line_append) simp
qed

lemma one_line_responses [text_simps]:
  "one_line ok" "LF \<notin> set reason \<Longrightarrow> one_line (error reason)"
  "one_line (order_accepted n)" "one_line (order_cancelled n)"
  "LF \<notin> set i \<Longrightarrow> one_line (bought i q p)" "LF \<notin> set i \<Longrightarrow> one_line (sold i q p)"
  "LF \<notin> set i \<Longrightarrow> one_line (trade i q p)"
proof -
  show "one_line ok" unfolding ok_def by (subst one_line_append) simp
  show "LF \<notin> set reason \<Longrightarrow> one_line (error reason)"
    unfolding error_def by (subst append_assoc [symmetric], subst one_line_append) simp
  show "one_line (order_accepted n)" "one_line (order_cancelled n)"
    unfolding order_accepted_def order_cancelled_def
    by (subst append_assoc [symmetric], subst one_line_append, simp)+
qed (simp_all add: bought_def sold_def trade_def one_line_join)

lemma parse_error_no_LF: "LF \<notin> set (cmd_error (parse line))"
proof (cases "read_tokens line")
  case Nil
  then show ?thesis by (simp add: parse_eq_words)
next
  case (Cons w args)
  have args: "LF \<notin> set t" if "t \<in> set args" for t
    using read_tokens_words [of line] that Cons is_word_LF by auto
  have nth: "length args = Suc k \<Longrightarrow> LF \<notin> set (args ! 0)" for k
    using args [of "args ! 0"] by simp
  have new: "cmd_error new_command = []" by (simp add: new_command_def)
  have acc: "cmd_error (accept c) = cmd_error c" for c by (simp add: accept_def)
  show ?thesis
    using Cons nth [of 0] nth [of 2]
    by (auto simp: parse_eq_words parse_arms Let_def new acc is_word_LF [OF is_word_verb]
        split: CommandType.split option.split simp del: verb.simps)
qed

section \<open>Properties\<close>

text \<open>C35: integers. A numeric argument is accepted exactly when it consists of one to eighteen
  decimal digits; the value delivered is then its decimal value, which is non-negative and below
  \<open>10 ^ 18\<close>: the 64-bit accumulation of the loop never overflows.\<close>

theorem parse_integer_exact:
  "(parse_integer text = Some v \<longleftrightarrow>
      1 \<le> length text \<and> length text \<le> 18 \<and> (\<forall>c \<in> set text. isdigit c) \<and> v = decimal text) \<and>
   (\<forall>v. parse_integer text = Some v \<longrightarrow> 0 \<le> v \<and> v < 10 ^ 18 \<and> is_long v)"
proof
  show "parse_integer text = Some v \<longleftrightarrow>
      1 \<le> length text \<and> length text \<le> 18 \<and> (\<forall>c \<in> set text. isdigit c) \<and> v = decimal text"
    by (auto simp: parse_integer_eq Suc_le_eq)
  show "\<forall>v. parse_integer text = Some v \<longrightarrow> 0 \<le> v \<and> v < 10 ^ 18 \<and> is_long v"
    using parse_integer_in_range by (fastforce simp: in_range_def is_long_def)
qed

theorem parse_integer_exact_witness:
  "parse_integer ''999999999999999999'' = Some 999999999999999999 \<and>
   0 \<le> (999999999999999999::int) \<and> is_long 999999999999999999"
proof -
  have "parse_integer ''999999999999999999'' = Some 999999999999999999" by code_simp
  with parse_integer_exact [of "''999999999999999999''" 999999999999999999] show ?thesis by blast
qed

text \<open>C33: the grammar. A line is accepted as the command \<open>c\<close> exactly when its words, split at
  white space, are the words of \<open>c\<close> and its arguments are in range: a user name of at most 64
  bytes, a known instrument, positive quantity and price, and integers below \<open>10 ^ 18\<close>.\<close>

theorem parse_grammar:
  "decode (parse line) = Some c \<longleftrightarrow> denotes (read_tokens line) c \<and> command_ok c"
  by (rule decode_parse)

text \<open>C34: round trip. Rendering a well-formed command as a line and parsing it gives the command
  back, with no information lost.\<close>

theorem parse_render:
  assumes "command_ok c"
  shows "decode (parse (render c)) = Some c"
  using assms by (rule decode_render)

theorem parse_render_witness:
  "command_ok (Buy ''JNST'' 100 238) \<and>
   decode (parse (render (Buy ''JNST'' 100 238))) = Some (Buy ''JNST'' 100 238)"
proof -
  have "command_ok (Buy ''JNST'' 100 238)"
    by (simp add: is_valid_instrument_def kInstruments_def in_range_def)
  with parse_render [OF this] show ?thesis by simp
qed

text \<open>No response can be split or merged by its content. Every response to a line, the error
  text that quotes the client's own words included, is a single line: one newline, at the end.\<close>

theorem responses_single_line:
  "one_line (error (cmd_error (parse line))) \<and> one_line ok \<and> one_line (order_accepted n) \<and>
   one_line (order_cancelled n) \<and>
   (is_valid_instrument i \<longrightarrow>
      one_line (bought i q p) \<and> one_line (sold i q p) \<and> one_line (trade i q p))"
  using parse_error_no_LF is_word_LF [OF is_word_instrument] by (simp add: text_simps)

theorem responses_single_line_witness:
  "is_valid_instrument ''JNST'' \<and> one_line (trade ''JNST'' 60 238)"
proof -
  have "is_valid_instrument ''JNST''" by (simp add: is_valid_instrument_def kInstruments_def)
  with responses_single_line [of "[]" 1 "''JNST''" 60 238] show ?thesis by blast
qed

end
