(* ===== verification/Event_Loop.thy ===== *)
theory Event_Loop
  imports Exchange_Prelude
begin

text \<open>
  Readiness notification, \<^verbatim>\<open>src/src/network/event_loop.hpp\<close> and \<^verbatim>\<open>event_loop.cpp\<close>, with both
  of its backends. What the kernel answers is an argument (\<open>poll\<close>'s return events, the list
  \<open>kevent\<close> delivers) or a script of results held in the loop (the outcome of each \<open>kevent\<close> call
  that changes filters); the ghost field \<open>kq_filters\<close> is the set of filters the kernel holds after the
  change lists it accepted.
  The theory shows that the swap-with-last removal keeps array and index consistent, that the
  kqueue backend keeps the kernel's filters equal to the recorded interest and never deletes a
  filter that is not there, that each backend implements one contract (the locale \<open>readiness\<close>), and
  that coalescing reports every ready descriptor once with the union of its flags.
\<close>

unbundle bit_operations_syntax

section \<open>Data\<close>

record Event =
  ev_fd :: int
  ev_readable :: bool
  ev_writable :: bool
  ev_hangup :: bool

datatype Backend = Poll | Kqueue

record pollfd =
  pfd_fd :: int
  pfd_events :: "16 word"
  pfd_revents :: "16 word"

datatype kfilter = EVFILT_READ | EVFILT_WRITE
datatype kaction = EV_ADD | EV_DELETE

type_synonym kchange = "int \<times> kfilter \<times> kaction"

record kevent =
  ke_ident :: int
  ke_filter :: kfilter
  ke_flags :: "16 word"

text \<open>\<open>have_kqueue\<close> is the compile-time \<^verbatim>\<open>EXCHANGE_HAVE_KQUEUE\<close>. \<open>kq_script\<close> holds the outcome of
  the coming \<open>kevent\<close> calls that change filters: \<^term>\<open>None\<close> for success, or an error number with the number of
  changes carried out before the one that failed; a call beyond its end succeeds.\<close>

record EventLoop =
  have_kqueue :: bool
  backend :: Backend
  kq_fd :: int
  pollfds :: "pollfd list"
  poll_index :: "int \<rightharpoonup> nat"
  kq_interest :: "(int \<times> bool \<times> bool) list"
  kq_filters :: "(int \<times> kfilter) list"
  kq_script :: "(errno \<times> nat) option list"

definition POLLIN :: "16 word" where "POLLIN = 1"
definition POLLOUT :: "16 word" where "POLLOUT = 4"
definition POLLERR :: "16 word" where "POLLERR = 8"
definition POLLHUP :: "16 word" where "POLLHUP = 16"
definition POLLNVAL :: "16 word" where "POLLNVAL = 32"
definition EV_EOF :: "16 word" where "EV_EOF = 0x8000"
definition EV_ERROR :: "16 word" where "EV_ERROR = 0x4000"

lemmas poll_consts = POLLIN_def POLLOUT_def POLLERR_def POLLHUP_def POLLNVAL_def
lemmas kevent_consts = EV_EOF_def EV_ERROR_def

section \<open>Choosing a backend\<close>

definition default_backend :: "bool \<Rightarrow> Backend" where
  "default_backend have_kq = (if have_kq then Kqueue else Poll)"

text \<open>The result and the value written through \<^verbatim>\<open>ok\<close>.\<close>

definition parse_backend :: "bool \<Rightarrow> string \<Rightarrow> Backend \<times> bool" where
  "parse_backend have_kq name =
     (if name = ''poll'' then (Poll, True)
      else if name = ''kqueue'' then (if have_kq then (Kqueue, True) else (Poll, False))
      else (default_backend have_kq, False))"

definition backend_name :: "Backend \<Rightarrow> string" where
  "backend_name b = (if b = Kqueue then ''kqueue'' else ''poll'')"

text \<open>The constructor; \<open>kqueue_result\<close> is what \<^verbatim>\<open>kqueue()\<close> returns.\<close>

definition new_loop :: "bool \<Rightarrow> int \<Rightarrow> Backend \<Rightarrow> (errno \<times> nat) option list \<Rightarrow> EventLoop" where
  "new_loop have_kq kqueue_result b script =
     \<lparr>have_kqueue = have_kq,
      backend = (if have_kq then (if b = Kqueue \<and> kqueue_result < 0 then Poll else b) else Poll),
      kq_fd = (if have_kq \<and> b = Kqueue then kqueue_result else -1),
      pollfds = [], poll_index = Map.empty, kq_interest = [], kq_filters = [], kq_script = script\<rparr>"

section \<open>The poll backend\<close>

definition poll_mask :: "bool \<Rightarrow> bool \<Rightarrow> 16 word" where
  "poll_mask r w =
     (let mask = 0; mask = (if r then mask OR POLLIN else mask)
      in if w then mask OR POLLOUT else mask)"

text \<open>\<^verbatim>\<open>poll_add\<close> on a known descriptor calls \<^verbatim>\<open>poll_update\<close>, and \<^verbatim>\<open>poll_update\<close> on an unknown
  one calls \<^verbatim>\<open>poll_add\<close>; each call lands in the other function's own body, given here first.\<close>

definition poll_push :: "int \<Rightarrow> bool \<Rightarrow> bool \<Rightarrow> EventLoop \<Rightarrow> EventLoop" where
  "poll_push fd r w l =
     l\<lparr>poll_index := (poll_index l)(fd \<mapsto> length (pollfds l)),
       pollfds := pollfds l @ [\<lparr>pfd_fd = fd, pfd_events = poll_mask r w, pfd_revents = 0\<rparr>]\<rparr>"

definition poll_set_events :: "nat \<Rightarrow> bool \<Rightarrow> bool \<Rightarrow> EventLoop \<Rightarrow> EventLoop" where
  "poll_set_events k r w l =
     l\<lparr>pollfds := (pollfds l)[k := (pollfds l ! k)\<lparr>pfd_events := poll_mask r w\<rparr>]\<rparr>"

definition poll_add :: "int \<Rightarrow> bool \<Rightarrow> bool \<Rightarrow> EventLoop \<Rightarrow> bool \<times> EventLoop" where
  "poll_add fd r w l =
     (case poll_index l fd of
        Some k \<Rightarrow> (True, poll_set_events k r w l)
      | None \<Rightarrow> (True, poll_push fd r w l))"

definition poll_update :: "int \<Rightarrow> bool \<Rightarrow> bool \<Rightarrow> EventLoop \<Rightarrow> bool \<times> EventLoop" where
  "poll_update fd r w l =
     (case poll_index l fd of
        None \<Rightarrow> (True, poll_push fd r w l)
      | Some k \<Rightarrow> (True, poll_set_events k r w l))"

definition poll_remove :: "int \<Rightarrow> EventLoop \<Rightarrow> EventLoop" where
  "poll_remove fd l =
     (case poll_index l fd of
        None \<Rightarrow> l
      | Some idx \<Rightarrow>
          (let lastidx = length (pollfds l) - 1;
               l' = (if idx \<noteq> lastidx
                     then l\<lparr>pollfds := (pollfds l)[idx := pollfds l ! lastidx],
                            poll_index := (poll_index l)(pfd_fd (pollfds l ! lastidx) \<mapsto> idx)\<rparr>
                     else l)
           in l'\<lparr>pollfds := butlast (pollfds l'), poll_index := (poll_index l')(fd := None)\<rparr>))"

text \<open>What \<^verbatim>\<open>::poll\<close> answers: the return events of each descriptor, or an error.\<close>

datatype poll_result = PollEvents "int \<Rightarrow> 16 word" | PollError errno

definition event_of_pollfd :: "pollfd \<Rightarrow> Event" where
  "event_of_pollfd e =
     \<lparr>ev_fd = pfd_fd e,
      ev_readable = (pfd_revents e AND (POLLIN OR POLLHUP) \<noteq> 0),
      ev_writable = (pfd_revents e AND POLLOUT \<noteq> 0),
      ev_hangup = (pfd_revents e AND (POLLERR OR POLLNVAL) \<noteq> 0)\<rparr>"

definition poll_wait :: "poll_result \<Rightarrow> EventLoop \<Rightarrow> int \<times> Event list \<times> EventLoop" where
  "poll_wait res l =
     (if pollfds l = [] then (0, [], l)
      else case res of
             PollError e \<Rightarrow> (if e = EINTR then 0 else -1, [], l)
           | PollEvents revents \<Rightarrow>
               (let fds = map (\<lambda>e. e\<lparr>pfd_revents := revents (pfd_fd e)\<rparr>) (pollfds l);
                    out = map event_of_pollfd (filter (\<lambda>e. pfd_revents e \<noteq> 0) fds)
                in if out = [] then (0, [], l\<lparr>pollfds := fds\<rparr>)
                   else (int (length out), out, l\<lparr>pollfds := fds\<rparr>)))"

section \<open>The kqueue backend\<close>

text \<open>The effect of a change the kernel accepts on its filters.\<close>

fun apply_change :: "kchange \<Rightarrow> (int \<times> kfilter) list \<Rightarrow> (int \<times> kfilter) list" where
  "apply_change (fd, f, EV_ADD) fs = List.insert (fd, f) fs"
| "apply_change (fd, f, EV_DELETE) fs = removeAll (fd, f) fs"

definition sys_kevent :: "kchange list \<Rightarrow> EventLoop \<Rightarrow> errno option \<times> EventLoop" where
  "sys_kevent changes l =
     (case kq_script l of
        Some (e, n) # rest \<Rightarrow> (Some e, l\<lparr>kq_script := rest, kq_filters := fold apply_change (take n changes) (kq_filters l)\<rparr>)
      | None # rest \<Rightarrow> (None, l\<lparr>kq_script := rest, kq_filters := fold apply_change changes (kq_filters l)\<rparr>)
      | [] \<Rightarrow> (None, l\<lparr>kq_filters := fold apply_change changes (kq_filters l)\<rparr>))"

definition recorded :: "int \<Rightarrow> EventLoop \<Rightarrow> bool \<times> bool" where
  "recorded fd l = (case map_of (kq_interest l) fd of None \<Rightarrow> (False, False) | Some p \<Rightarrow> p)"

text \<open>The change list of \<^verbatim>\<open>kq_apply\<close>: only the filters whose interest changes.\<close>

definition kq_changes :: "int \<Rightarrow> bool \<Rightarrow> bool \<Rightarrow> bool \<times> bool \<Rightarrow> kchange list" where
  "kq_changes fd r w interest =
     (if r \<noteq> fst interest then [(fd, EVFILT_READ, if r then EV_ADD else EV_DELETE)] else []) @
     (if w \<noteq> snd interest then [(fd, EVFILT_WRITE, if w then EV_ADD else EV_DELETE)] else [])"

definition kq_apply :: "int \<Rightarrow> bool \<Rightarrow> bool \<Rightarrow> EventLoop \<Rightarrow> bool \<times> EventLoop" where
  "kq_apply fd r w l =
     (if \<not> have_kqueue l then (False, l)
      else
        (let interest = recorded fd l;
             l1 = l\<lparr>kq_interest := AList.update fd interest (kq_interest l)\<rparr>;
             changes = kq_changes fd r w interest;
             (err, l2) = (if changes \<noteq> [] then sys_kevent changes l1 else (None, l1))
         in if err \<noteq> None \<and> err \<noteq> Some ENOENT then (False, l2)
            else (True, l2\<lparr>kq_interest := AList.update fd (r, w) (kq_interest l2)\<rparr>)))"

definition kq_remove :: "int \<Rightarrow> EventLoop \<Rightarrow> EventLoop" where
  "kq_remove fd l =
     (if \<not> have_kqueue l then l
      else case map_of (kq_interest l) fd of
        None \<Rightarrow> l
      | Some (r, w) \<Rightarrow>
          (let changes = (if r then [(fd, EVFILT_READ, EV_DELETE)] else []) @
                         (if w then [(fd, EVFILT_WRITE, EV_DELETE)] else []);
               l1 = (if changes \<noteq> [] then snd (sys_kevent changes l) else l)
           in l1\<lparr>kq_interest := AList.delete fd (kq_interest l1)\<rparr>))"

text \<open>What the waiting \<open>kevent\<close> call delivers.\<close>

datatype kevent_result = KEvents "kevent list" | KError errno

text \<open>One pass of the coalescing loop: find or append the entry of the descriptor, then set the
  flags the kernel event carries.\<close>

definition kq_merge :: "kevent \<Rightarrow> Event \<Rightarrow> Event" where
  "kq_merge k ev =
     (let ev = (if ke_filter k = EVFILT_READ then ev\<lparr>ev_readable := True\<rparr> else ev);
          ev = (if ke_filter k = EVFILT_WRITE then ev\<lparr>ev_writable := True\<rparr> else ev);
          ev = (if ke_flags k AND EV_EOF \<noteq> 0 then ev\<lparr>ev_readable := True\<rparr> else ev)
      in if ke_flags k AND EV_ERROR \<noteq> 0 then ev\<lparr>ev_hangup := True\<rparr> else ev)"

fun kq_coalesce :: "kevent list \<Rightarrow> (int \<rightharpoonup> nat) \<Rightarrow> Event list \<Rightarrow> Event list" where
  "kq_coalesce [] seen out = out"
| "kq_coalesce (k # ks) seen out =
     (let fd = ke_ident k;
          (seen, out) =
            (case seen fd of
               None \<Rightarrow> (seen(fd \<mapsto> length out),
                 out @ [\<lparr>ev_fd = fd, ev_readable = False, ev_writable = False, ev_hangup = False\<rparr>])
             | Some _ \<Rightarrow> (seen, out));
          j = the (seen fd)
      in kq_coalesce ks seen (out[j := kq_merge k (out ! j)]))"

text \<open>The \<^verbatim>\<open>timespec\<close> of the waiting call; \<^term>\<open>None\<close> waits forever.\<close>

definition kq_timespec :: "int \<Rightarrow> (int \<times> int) option" where
  "kq_timespec timeout_ms =
     (if timeout_ms \<ge> 0 then Some (timeout_ms div 1000, (timeout_ms mod 1000) * 1000000) else None)"

definition kq_wait :: "kevent_result \<Rightarrow> EventLoop \<Rightarrow> int \<times> Event list" where
  "kq_wait res l =
     (if \<not> have_kqueue l then (-1, [])
      else if kq_interest l = [] then (0, [])
      else (let capacity = length (kq_interest l) * 2 + 8
            in case res of
                 KError e \<Rightarrow> (if e = EINTR then 0 else -1, [])
               | KEvents ks \<Rightarrow>
                   (let out = kq_coalesce (take capacity ks) Map.empty []
                    in (int (length out), out))))"

section \<open>The loop\<close>

definition loop_size :: "EventLoop \<Rightarrow> nat" where
  "loop_size l = (if backend l = Poll then length (pollfds l) else length (kq_interest l))"

definition loop_add :: "int \<Rightarrow> bool \<Rightarrow> bool \<Rightarrow> EventLoop \<Rightarrow> bool \<times> EventLoop" where
  "loop_add fd r w l = (if backend l = Poll then poll_add fd r w l else kq_apply fd r w l)"

definition loop_update :: "int \<Rightarrow> bool \<Rightarrow> bool \<Rightarrow> EventLoop \<Rightarrow> bool \<times> EventLoop" where
  "loop_update fd r w l = (if backend l = Poll then poll_update fd r w l else kq_apply fd r w l)"

definition loop_remove :: "int \<Rightarrow> EventLoop \<Rightarrow> EventLoop" where
  "loop_remove fd l = (if backend l = Poll then poll_remove fd l else kq_remove fd l)"

definition loop_wait :: "poll_result \<Rightarrow> kevent_result \<Rightarrow> EventLoop \<Rightarrow> int \<times> Event list \<times> EventLoop" where
  "loop_wait pres kres l =
     (if backend l = Poll then poll_wait pres l
      else (let (n, out) = kq_wait kres l in (n, out, l)))"

lemma kq_fd_kept [frame_simps]:
  "kq_fd (snd (loop_add fd r w l)) = kq_fd l" "kq_fd (snd (loop_update fd r w l)) = kq_fd l"
  "kq_fd (loop_remove fd l) = kq_fd l" "kq_fd (snd (snd (loop_wait pres kres l))) = kq_fd l"
  by (auto simp: loop_add_def loop_update_def loop_remove_def loop_wait_def poll_add_def poll_update_def poll_push_def poll_set_events_def
      poll_remove_def poll_wait_def kq_apply_def kq_remove_def sys_kevent_def Let_def case_prod_unfold
      split: option.split list.split poll_result.split)

section \<open>The contract of a readiness backend\<close>

text \<open>What the server relies on: registering and updating succeed and set the interest of exactly
  one descriptor, removing forgets exactly one, and the bookkeeping stays well formed.\<close>

locale readiness =
  fixes wf :: "'l \<Rightarrow> bool" and interest :: "'l \<Rightarrow> int \<Rightarrow> (bool \<times> bool) option"
    and add :: "int \<Rightarrow> bool \<Rightarrow> bool \<Rightarrow> 'l \<Rightarrow> bool \<times> 'l"
    and upd :: "int \<Rightarrow> bool \<Rightarrow> bool \<Rightarrow> 'l \<Rightarrow> bool \<times> 'l"
    and rem :: "int \<Rightarrow> 'l \<Rightarrow> 'l"
  assumes add_succeeds: "wf l \<Longrightarrow> fst (add fd r w l)"
    and wf_add: "wf l \<Longrightarrow> wf (snd (add fd r w l))"
    and interest_add: "wf l \<Longrightarrow> interest (snd (add fd r w l)) = (interest l)(fd \<mapsto> (r, w))"
    and upd_succeeds: "wf l \<Longrightarrow> fst (upd fd r w l)"
    and wf_upd: "wf l \<Longrightarrow> wf (snd (upd fd r w l))"
    and interest_upd: "wf l \<Longrightarrow> interest (snd (upd fd r w l)) = (interest l)(fd \<mapsto> (r, w))"
    and wf_rem: "wf l \<Longrightarrow> wf (rem fd l)"
    and interest_rem: "wf l \<Longrightarrow> interest (rem fd l) = (interest l)(fd := None)"
begin

lemmas laws = wf_add interest_add wf_upd interest_upd wf_rem interest_rem

lemma add_remove: "wf l \<Longrightarrow> interest l fd = None \<Longrightarrow> interest (rem fd (snd (add fd r w l))) = interest l"
  by (simp add: laws fun_upd_idem)

lemma others_unaffected:
  assumes "wf l" and "fd' \<noteq> fd"
  shows "interest (snd (add fd r w l)) fd' = interest l fd'"
    and "interest (snd (upd fd r w l)) fd' = interest l fd'"
    and "interest (rem fd l) fd' = interest l fd'"
  using assms by (simp_all add: laws)

end

section \<open>Poll: array and index stay consistent\<close>

definition poll_inv :: "EventLoop \<Rightarrow> bool" where
  "poll_inv l \<longleftrightarrow>
     (\<forall>fd k. poll_index l fd = Some k \<longleftrightarrow> k < length (pollfds l) \<and> pfd_fd (pollfds l ! k) = fd)"

text \<open>The interest registered for a descriptor, read back from the event mask of its entry.\<close>

definition poll_interest :: "EventLoop \<Rightarrow> int \<Rightarrow> (bool \<times> bool) option" where
  "poll_interest l fd =
     map_option (\<lambda>k. (pfd_events (pollfds l ! k) AND POLLIN \<noteq> 0, pfd_events (pollfds l ! k) AND POLLOUT \<noteq> 0))
       (poll_index l fd)"

lemma poll_mask_bits [simp]:
  "poll_mask r w AND POLLIN = 0 \<longleftrightarrow> \<not> r" "poll_mask r w AND POLLOUT = 0 \<longleftrightarrow> \<not> w"
  by (cases r; cases w; simp add: poll_mask_def poll_consts)+

lemma poll_invD:
  assumes "poll_inv l" and "poll_index l fd = Some k"
  shows "k < length (pollfds l)" and "pfd_fd (pollfds l ! k) = fd"
  using assms unfolding poll_inv_def by blast+

lemma poll_index_nth: "poll_inv l \<Longrightarrow> k < length (pollfds l) \<Longrightarrow> poll_index l (pfd_fd (pollfds l ! k)) = Some k"
  unfolding poll_inv_def by blast

lemma poll_inv_fds_distinct:
  assumes "poll_inv l"
  shows "distinct (map pfd_fd (pollfds l))"
  unfolding distinct_conv_nth
proof (intro allI impI)
  fix i j assume "i < length (map pfd_fd (pollfds l))" "j < length (map pfd_fd (pollfds l))" "i \<noteq> j"
  then show "map pfd_fd (pollfds l) ! i \<noteq> map pfd_fd (pollfds l) ! j"
    using poll_index_nth [OF assms, of i] poll_index_nth [OF assms, of j] by auto
qed

lemma poll_push_facts:
  assumes inv: "poll_inv l" and new: "poll_index l fd = None"
  shows "poll_inv (poll_push fd r w l)"
    and "poll_interest (poll_push fd r w l) = (poll_interest l)(fd \<mapsto> (r, w))"
proof -
  have other: "pfd_fd (pollfds l ! k) \<noteq> fd" if "k < length (pollfds l)" for k
    using poll_index_nth [OF inv that] new by auto
  then show "poll_inv (poll_push fd r w l)"
    using inv by (auto simp: poll_inv_def poll_push_def nth_append less_Suc_eq)
  show "poll_interest (poll_push fd r w l) = (poll_interest l)(fd \<mapsto> (r, w))"
    using poll_invD(1) [OF inv]
    by (auto simp: poll_interest_def poll_push_def nth_append fun_eq_iff map_option_case split: option.splits)
qed

lemma poll_set_events_facts:
  assumes inv: "poll_inv l" and k: "poll_index l fd = Some k"
  shows "poll_inv (poll_set_events k r w l)"
    and "poll_interest (poll_set_events k r w l) = (poll_interest l)(fd \<mapsto> (r, w))"
proof -
  note kd = poll_invD [OF inv k]
  show "poll_inv (poll_set_events k r w l)"
    using inv kd by (auto simp: poll_inv_def poll_set_events_def nth_list_update)
  have "j = k \<longleftrightarrow> fd' = fd" if "poll_index l fd' = Some j" for fd' j
    using that k kd(2) poll_invD(2) [OF inv that] by (metis option.inject)
  then show "poll_interest (poll_set_events k r w l) = (poll_interest l)(fd \<mapsto> (r, w))"
    using kd k by (auto simp: poll_interest_def poll_set_events_def nth_list_update fun_eq_iff
        map_option_case split: option.splits)
qed

lemma poll_remove_index:
  assumes inv: "poll_inv l" and k: "poll_index l fd = Some k"
  defines "n \<equiv> length (pollfds l) - 1"
  shows "pollfds (poll_remove fd l) = butlast ((pollfds l)[k := pollfds l ! n])"
    and "poll_index (poll_remove fd l) = ((poll_index l)(pfd_fd (pollfds l ! n) \<mapsto> k))(fd := None)"
proof -
  have kn: "k < length (pollfds l)" "pfd_fd (pollfds l ! k) = fd" by (rule poll_invD [OF inv k])+
  have "(pollfds l)[k := pollfds l ! n] = pollfds l" if "k = n"
    using that by simp
  then show "pollfds (poll_remove fd l) = butlast ((pollfds l)[k := pollfds l ! n])"
    using k by (auto simp: poll_remove_def Let_def n_def)
  show "poll_index (poll_remove fd l) = ((poll_index l)(pfd_fd (pollfds l ! n) \<mapsto> k))(fd := None)"
    using k kn by (auto simp: poll_remove_def Let_def n_def)
qed

lemma poll_remove_lookup:
  assumes inv: "poll_inv l" and k: "poll_index l fd = Some k"
  shows "poll_index (poll_remove fd l) fd' = Some j \<longleftrightarrow>
      j < length (pollfds l) - 1 \<and> pfd_fd (pollfds (poll_remove fd l) ! j) = fd'"
    and "fd' \<noteq> fd \<Longrightarrow> poll_index (poll_remove fd l) fd' = Some j \<Longrightarrow>
      \<exists>i. poll_index l fd' = Some i \<and> pollfds (poll_remove fd l) ! j = pollfds l ! i"
    and "fd' \<noteq> fd \<Longrightarrow> poll_index (poll_remove fd l) fd' = None \<longleftrightarrow> poll_index l fd' = None"
proof -
  let ?n = "length (pollfds l) - 1" and ?l = "poll_remove fd l"
  note ix = poll_remove_index [OF inv k]
  note kd = poll_invD [OF inv k]
  have n: "?n < length (pollfds l)" using kd by simp
  have last_ix: "poll_index l (pfd_fd (pollfds l ! ?n)) = Some ?n" by (rule poll_index_nth [OF inv n])
  have nth: "pollfds ?l ! j = (if j = k then pollfds l ! ?n else pollfds l ! j)" if "j < ?n" for j
    using that kd by (simp add: ix nth_butlast nth_list_update)
  have inj: "i = j" if "i < length (pollfds l)" "j < length (pollfds l)"
      "pfd_fd (pollfds l ! i) = pfd_fd (pollfds l ! j)" for i j
    using poll_index_nth [OF inv that(1)] poll_index_nth [OF inv that(2)] that(3)
    by (metis option.inject)
  show lookup: "poll_index ?l fd' = Some j \<longleftrightarrow> j < ?n \<and> pfd_fd (pollfds ?l ! j) = fd'" for fd' j
  proof -
    consider "fd' = fd" | "fd' \<noteq> fd" "fd' = pfd_fd (pollfds l ! ?n)"
      | "fd' \<noteq> fd" "fd' \<noteq> pfd_fd (pollfds l ! ?n)" by blast
    then show ?thesis
    proof cases
      case 1
      have "\<not> (j < ?n \<and> pfd_fd (pollfds ?l ! j) = fd)"
      proof
        assume h: "j < ?n \<and> pfd_fd (pollfds ?l ! j) = fd"
        show False
        proof (cases "j = k")
          case True
          with h nth [of j] kd(2) have "pfd_fd (pollfds l ! ?n) = pfd_fd (pollfds l ! k)" by simp
          from inj [OF n kd(1) this] h True show False by simp
        next
          case False
          with h nth [of j] kd(2) have "pfd_fd (pollfds l ! j) = pfd_fd (pollfds l ! k)" by simp
          moreover have "j < length (pollfds l)" using h by linarith
          ultimately show False using inj [OF _ kd(1)] False by blast
        qed
      qed
      with 1 show ?thesis by (simp add: ix(2))
    next
      case 2
      then have "k < ?n" using kd by (cases "k = ?n") auto
      moreover have "pfd_fd (pollfds l ! j) \<noteq> fd'" if "j < ?n"
        using inj [of j ?n] n that 2 by auto
      ultimately show ?thesis using 2 nth [of j] by (auto simp: ix(2) split: if_splits)
    next
      case 3
      have "poll_index l fd' = Some j \<longleftrightarrow> j < length (pollfds l) \<and> pfd_fd (pollfds l ! j) = fd'"
        using inv by (simp add: poll_inv_def)
      moreover have "j < length (pollfds l) \<and> j \<noteq> ?n \<longleftrightarrow> j < ?n" by auto
      moreover have "pfd_fd (pollfds l ! j) = fd' \<Longrightarrow> j \<noteq> ?n \<and> j \<noteq> k" using 3 kd by auto
      ultimately show ?thesis using 3 nth [of j]
        by (cases "j < ?n"; cases "j = k") (auto simp: ix(2))
    qed
  qed
  show "\<exists>i. poll_index l fd' = Some i \<and> pollfds ?l ! j = pollfds l ! i"
    if "fd' \<noteq> fd" "poll_index ?l fd' = Some j"
    using that lookup [of fd' j] nth [of j] last_ix poll_index_nth [OF inv, of j] by auto
  show "poll_index ?l fd' = None \<longleftrightarrow> poll_index l fd' = None" if "fd' \<noteq> fd"
    using that last_ix by (auto simp: ix(2))
qed

lemma poll_remove_facts:
  assumes inv: "poll_inv l"
  shows "poll_inv (poll_remove fd l)"
    and "poll_interest (poll_remove fd l) = (poll_interest l)(fd := None)"
proof -
  show "poll_inv (poll_remove fd l)"
  proof (cases "poll_index l fd")
    case None
    then show ?thesis using inv by (simp add: poll_remove_def)
  next
    case (Some k)
    have "length (pollfds (poll_remove fd l)) = length (pollfds l) - 1"
      by (simp add: poll_remove_index [OF inv Some])
    then show ?thesis
      using poll_remove_lookup(1) [OF inv Some] by (simp add: poll_inv_def)
  qed
  show "poll_interest (poll_remove fd l) = (poll_interest l)(fd := None)"
  proof (cases "poll_index l fd")
    case None
    then show ?thesis by (auto simp: poll_remove_def poll_interest_def fun_eq_iff)
  next
    case (Some k)
    show ?thesis
    proof
      fix fd'
      show "poll_interest (poll_remove fd l) fd' = ((poll_interest l)(fd := None)) fd'"
      proof (cases "fd' = fd")
        case True
        then show ?thesis by (simp add: poll_interest_def poll_remove_index [OF inv Some])
      next
        case False
        with poll_remove_lookup(2,3) [OF inv Some False] show ?thesis
          by (cases "poll_index (poll_remove fd l) fd'") (auto simp: poll_interest_def)
      qed
    qed
  qed
qed

interpretation pl: readiness poll_inv poll_interest poll_add poll_update poll_remove
proof
  fix l fd r w
  assume inv: "poll_inv l"
  show "fst (poll_add fd r w l)" "fst (poll_update fd r w l)"
    by (simp_all add: poll_add_def poll_update_def split: option.split)
  show "poll_inv (snd (poll_add fd r w l))" "poll_inv (snd (poll_update fd r w l))"
    "poll_interest (snd (poll_add fd r w l)) = (poll_interest l)(fd \<mapsto> (r, w))"
    "poll_interest (snd (poll_update fd r w l)) = (poll_interest l)(fd \<mapsto> (r, w))"
    using poll_push_facts [OF inv, of fd] poll_set_events_facts [OF inv, of fd]
    by (simp_all add: poll_add_def poll_update_def split: option.split)
  show "poll_inv (poll_remove fd l)"
    "poll_interest (poll_remove fd l) = (poll_interest l)(fd := None)"
    by (rule poll_remove_facts [OF inv])+
qed

section \<open>Kqueue: the kernel's filters are the recorded interest\<close>

definition kq_lookup :: "EventLoop \<Rightarrow> int \<Rightarrow> (bool \<times> bool) option" where
  "kq_lookup l = map_of (kq_interest l)"

text \<open>The kernel holds a filter exactly when the recorded interest asks for it, and the coming
  \<open>kevent\<close> calls succeed.\<close>

definition kq_inv :: "EventLoop \<Rightarrow> bool" where
  "kq_inv l \<longleftrightarrow> have_kqueue l \<and> distinct (map fst (kq_interest l)) \<and> set (kq_script l) \<subseteq> {None} \<and>
     (\<forall>fd. (fd, EVFILT_READ) \<in> set (kq_filters l) \<longleftrightarrow> fst (recorded fd l)) \<and>
     (\<forall>fd. (fd, EVFILT_WRITE) \<in> set (kq_filters l) \<longleftrightarrow> snd (recorded fd l))"

lemma sys_kevent_ok:
  assumes "set (kq_script l) \<subseteq> {None}"
  shows "fst (sys_kevent changes l) = None"
    and "kq_filters (snd (sys_kevent changes l)) = fold apply_change changes (kq_filters l)"
    and "kq_interest (snd (sys_kevent changes l)) = kq_interest l"
    and "have_kqueue (snd (sys_kevent changes l)) = have_kqueue l"
    and "set (kq_script (snd (sys_kevent changes l))) \<subseteq> {None}"
  using assms by (cases "kq_script l"; auto simp: sys_kevent_def)+

lemma recorded_update [simp]:
  "recorded fd (l\<lparr>kq_interest := AList.update fd' p (kq_interest l)\<rparr>) =
     (if fd = fd' then p else recorded fd l)"
  by (simp add: recorded_def)

lemma kq_apply_facts:
  assumes "kq_inv l"
  shows "fst (kq_apply fd r w l)"
    and "kq_interest (snd (kq_apply fd r w l)) =
      AList.update fd (r, w) (AList.update fd (recorded fd l) (kq_interest l))"
    and "set (kq_filters (snd (kq_apply fd r w l))) =
      set (fold apply_change (kq_changes fd r w (recorded fd l)) (kq_filters l))"
    and "have_kqueue (snd (kq_apply fd r w l))"
    and "set (kq_script (snd (kq_apply fd r w l))) \<subseteq> {None}"
  using assms sys_kevent_ok [of "l\<lparr>kq_interest := AList.update fd (recorded fd l) (kq_interest l)\<rparr>"]
  by (auto simp: kq_apply_def kq_inv_def Let_def case_prod_unfold)

lemma fold_changes:
  "(fd', EVFILT_READ) \<in> set (fold apply_change (kq_changes fd r w (a, b)) fs) \<longleftrightarrow>
     (if fd' = fd \<and> r \<noteq> a then r else (fd', EVFILT_READ) \<in> set fs)"
  "(fd', EVFILT_WRITE) \<in> set (fold apply_change (kq_changes fd r w (a, b)) fs) \<longleftrightarrow>
     (if fd' = fd \<and> w \<noteq> b then w else (fd', EVFILT_WRITE) \<in> set fs)"
  by (auto simp: kq_changes_def)

lemma kq_apply_inv:
  assumes "kq_inv l"
  shows "kq_inv (snd (kq_apply fd r w l))"
    and "kq_lookup (snd (kq_apply fd r w l)) = (kq_lookup l)(fd \<mapsto> (r, w))"
proof -
  note facts = kq_apply_facts [OF assms, of fd r w]
  show look: "kq_lookup (snd (kq_apply fd r w l)) = (kq_lookup l)(fd \<mapsto> (r, w))"
    by (simp add: kq_lookup_def facts)
  have rec: "recorded fd' (snd (kq_apply fd r w l)) = (if fd' = fd then (r, w) else recorded fd' l)" for fd'
    using look by (simp add: recorded_def kq_lookup_def)
  obtain a b where ab: "recorded fd l = (a, b)" by (cases "recorded fd l")
  show "kq_inv (snd (kq_apply fd r w l))"
    using assms facts
    by (auto simp: kq_inv_def rec ab fold_changes distinct_keys_update)
qed

lemma kq_remove_facts:
  assumes "kq_inv l"
  shows "kq_inv (kq_remove fd l)"
    and "kq_lookup (kq_remove fd l) = (kq_lookup l)(fd := None)"
proof -
  define dels where "dels = (\<lambda>r w. (if r then [(fd, EVFILT_READ, EV_DELETE)] else []) @
    (if w then [(fd, EVFILT_WRITE, EV_DELETE)] else []))"
  have "kq_inv (kq_remove fd l) \<and> kq_lookup (kq_remove fd l) = (kq_lookup l)(fd := None)"
  proof (cases "map_of (kq_interest l) fd")
    case None
    with assms show ?thesis by (auto simp: kq_remove_def kq_lookup_def kq_inv_def fun_upd_idem)
  next
    case (Some p)
    obtain r w where p: "p = (r, w)" by (cases p)
    define l1 where "l1 = (if dels r w \<noteq> [] then snd (sys_kevent (dels r w) l) else l)"
    have rm: "kq_remove fd l = l1\<lparr>kq_interest := AList.delete fd (kq_interest l1)\<rparr>"
      using Some p assms by (simp add: kq_remove_def l1_def dels_def Let_def kq_inv_def)
    have script: "set (kq_script l) \<subseteq> {None}" using assms by (simp add: kq_inv_def)
    have l1: "kq_interest l1 = kq_interest l" "have_kqueue l1 = have_kqueue l"
        "set (kq_script l1) \<subseteq> {None}" "kq_filters l1 = fold apply_change (dels r w) (kq_filters l)"
      using sys_kevent_ok [OF script] script by (auto simp: l1_def)
    have rec: "recorded fd' (l1\<lparr>kq_interest := AList.delete fd (kq_interest l)\<rparr>) =
        (if fd' = fd then (False, False) else recorded fd' l)" for fd'
      by (simp add: recorded_def l1)
    have "recorded fd l = (r, w)" using Some p by (simp add: recorded_def)
    with assms l1 show ?thesis
      by (auto simp: kq_inv_def kq_lookup_def rec rm distinct_keys_delete dels_def)
  qed
  then show "kq_inv (kq_remove fd l)" "kq_lookup (kq_remove fd l) = (kq_lookup l)(fd := None)" by blast+
qed

interpretation kq: readiness kq_inv kq_lookup kq_apply kq_apply kq_remove
  by unfold_locales (simp_all add: kq_apply_facts(1) kq_apply_inv kq_remove_facts)

section \<open>The loop satisfies the contract with either backend\<close>

definition loop_inv :: "EventLoop \<Rightarrow> bool" where
  "loop_inv l \<longleftrightarrow> (if backend l = Poll then poll_inv l else kq_inv l)"

definition loop_interest :: "EventLoop \<Rightarrow> int \<Rightarrow> (bool \<times> bool) option" where
  "loop_interest l = (if backend l = Poll then poll_interest l else kq_lookup l)"

lemma backend_unchanged [simp]:
  "backend (snd (poll_add fd r w l)) = backend l" "backend (snd (poll_update fd r w l)) = backend l"
  "backend (poll_remove fd l) = backend l" "backend (snd (sys_kevent ch l)) = backend l"
  by (simp_all add: poll_add_def poll_update_def poll_remove_def poll_push_def poll_set_events_def
      sys_kevent_def Let_def split: option.split list.split)

lemma backend_unchanged_kq [simp]:
  "backend (snd (kq_apply fd r w l)) = backend l" "backend (kq_remove fd l) = backend l"
  by (auto simp: kq_apply_def kq_remove_def Let_def case_prod_unfold split: option.split)

interpretation el: readiness loop_inv loop_interest loop_add loop_update loop_remove
proof
  fix l fd r w
  assume inv: "loop_inv l"
  show "fst (loop_add fd r w l)" "fst (loop_update fd r w l)"
    using inv pl.add_succeeds pl.upd_succeeds kq.add_succeeds
    by (auto simp: loop_inv_def loop_add_def loop_update_def split: if_splits)
  show "loop_inv (snd (loop_add fd r w l))" "loop_inv (snd (loop_update fd r w l))"
    "loop_inv (loop_remove fd l)"
    using inv pl.laws kq.laws
    by (auto simp: loop_inv_def loop_add_def loop_update_def loop_remove_def split: if_splits)
  show "loop_interest (snd (loop_add fd r w l)) = (loop_interest l)(fd \<mapsto> (r, w))"
    "loop_interest (snd (loop_update fd r w l)) = (loop_interest l)(fd \<mapsto> (r, w))"
    "loop_interest (loop_remove fd l) = (loop_interest l)(fd := None)"
    using inv pl.laws kq.laws
    by (auto simp: loop_inv_def loop_interest_def loop_add_def loop_update_def loop_remove_def split: if_splits)
qed

lemma new_loop_inv:
  assumes "set script \<subseteq> {None}"
  shows "loop_inv (new_loop have_kq kqr b script)" and "loop_interest (new_loop have_kq kqr b script) = Map.empty"
  using assms
  by (auto simp: loop_inv_def new_loop_def poll_inv_def kq_inv_def recorded_def loop_interest_def
      poll_interest_def kq_lookup_def fun_eq_iff)

section \<open>Coalescing\<close>

definition blank_event :: "int \<Rightarrow> Event" where
  "blank_event fd = \<lparr>ev_fd = fd, ev_readable = False, ev_writable = False, ev_hangup = False\<rparr>"

definition entry :: "Event list \<Rightarrow> int \<Rightarrow> Event" where
  "entry out fd = (case find (\<lambda>e. ev_fd e = fd) out of Some e \<Rightarrow> e | None \<Rightarrow> blank_event fd)"

text \<open>Descriptors in the order of their first appearance.\<close>

fun nub_from :: "int list \<Rightarrow> int list \<Rightarrow> int list" where
  "nub_from acc [] = acc"
| "nub_from acc (x # xs) = nub_from (if x \<in> set acc then acc else acc @ [x]) xs"

lemma set_nub_from [simp]: "set (nub_from acc xs) = set acc \<union> set xs"
  by (induction acc xs rule: nub_from.induct) auto

lemma distinct_nub_from: "distinct acc \<Longrightarrow> distinct (nub_from acc xs)"
  by (induction acc xs rule: nub_from.induct) auto

definition seen_ok :: "(int \<rightharpoonup> nat) \<Rightarrow> Event list \<Rightarrow> bool" where
  "seen_ok seen out \<longleftrightarrow> (\<forall>fd j. seen fd = Some j \<longleftrightarrow> j < length out \<and> ev_fd (out ! j) = fd)"

lemma ev_fd_merge [simp]: "ev_fd (kq_merge k e) = ev_fd e"
  by (simp add: kq_merge_def Let_def)

lemma seen_ok_distinct:
  assumes "seen_ok seen out"
  shows "distinct (map ev_fd out)"
  unfolding distinct_conv_nth
proof (intro allI impI)
  fix i j assume ij: "i < length (map ev_fd out)" "j < length (map ev_fd out)" "i \<noteq> j"
  then have "seen (ev_fd (out ! i)) = Some i" "seen (ev_fd (out ! j)) = Some j"
    using assms unfolding seen_ok_def by (metis length_map)+
  with ij show "map ev_fd out ! i \<noteq> map ev_fd out ! j" by (metis nth_map length_map option.inject)
qed

lemma seen_ok_mem:
  assumes "seen_ok seen out"
  shows "seen fd = None \<longleftrightarrow> fd \<notin> set (map ev_fd out)"
proof -
  have "fd \<in> set (map ev_fd out) \<longleftrightarrow> (\<exists>j. j < length out \<and> ev_fd (out ! j) = fd)"
    by (force simp: in_set_conv_nth)
  also have "\<dots> \<longleftrightarrow> (\<exists>j. seen fd = Some j)" using assms by (simp add: seen_ok_def)
  finally show ?thesis by auto
qed

lemma seen_ok_append:
  assumes "seen_ok seen out" and "seen fd = None"
  shows "seen_ok (seen(fd \<mapsto> length out)) (out @ [blank_event fd])"
proof -
  have "ev_fd (out ! j) \<noteq> fd" if "j < length out" for j
    using assms that unfolding seen_ok_def by (metis option.distinct(1))
  with assms(1) show ?thesis
    by (auto simp: seen_ok_def nth_append blank_event_def less_Suc_eq)
qed

lemma seen_ok_merge:
  assumes "seen_ok seen out" and "seen fd = Some j"
  shows "seen_ok seen (out[j := kq_merge k (out ! j)])"
proof -
  have "j < length out" using assms unfolding seen_ok_def by blast
  then have "ev_fd (out[j := kq_merge k (out ! j)] ! i) = ev_fd (out ! i)" for i
    by (cases "i = j") simp_all
  with assms(1) show ?thesis by (simp add: seen_ok_def)
qed

lemma map_ev_fd_merge: "j < length out \<Longrightarrow> map ev_fd (out[j := kq_merge k (out ! j)]) = map ev_fd out"
  by (simp add: map_update list_update_same_conv)

lemma entry_nth:
  assumes "seen_ok seen out" and "seen fd = Some j"
  shows "entry out fd = out ! j"
proof -
  have j: "j < length out" "ev_fd (out ! j) = fd" using assms unfolding seen_ok_def by blast+
  then obtain e where e: "find (\<lambda>e. ev_fd e = fd) out = Some e"
    by (cases "find (\<lambda>e. ev_fd e = fd) out") (auto simp: find_None_iff)
  then obtain i where i: "i < length out" "ev_fd (out ! i) = fd" "e = out ! i"
    by (auto simp: find_Some_iff)
  with assms have "i = j" unfolding seen_ok_def by (metis option.inject)
  with e i show ?thesis by (simp add: entry_def)
qed

lemma entry_none: "seen_ok seen out \<Longrightarrow> seen fd = None \<Longrightarrow> entry out fd = blank_event fd"
  using seen_ok_mem [of seen out fd] find_None_iff [of "\<lambda>e. ev_fd e = fd" out]
  by (auto simp: entry_def split: option.split)

lemma entry_append_other: "fd' \<noteq> fd \<Longrightarrow> entry (out @ [blank_event fd]) fd' = entry out fd'"
  by (induction out) (auto simp: entry_def blank_event_def)

lemma entry_append_blank:
  assumes "seen_ok seen out" and "seen fd = None"
  shows "entry (out @ [blank_event fd]) fd' = entry out fd'"
proof (cases "fd' = fd")
  case True
  have "entry (out @ [blank_event fd]) fd = (out @ [blank_event fd]) ! length out"
    by (rule entry_nth [OF seen_ok_append [OF assms]]) simp
  with True entry_none [OF assms] show ?thesis by simp
qed (simp add: entry_append_other)

lemma entry_merge:
  assumes ok: "seen_ok seen out" and j: "seen fd = Some j"
  shows "entry (out[j := kq_merge k (out ! j)]) fd' =
    (if fd' = fd then kq_merge k (entry out fd) else entry out fd')"
proof (cases "seen fd'")
  case None
  then show ?thesis
    using entry_none [OF ok None] entry_none [OF seen_ok_merge [OF ok j] None] j by auto
next
  case (Some i)
  have jl: "j < length out" using ok j unfolding seen_ok_def by blast
  have "i = j \<longleftrightarrow> fd' = fd" using ok Some j unfolding seen_ok_def by (metis option.inject)
  then show ?thesis
    using entry_nth [OF ok Some] entry_nth [OF seen_ok_merge [OF ok j] Some] entry_nth [OF ok j] jl
    by (auto simp: nth_list_update)
qed

lemma map_entry: "seen_ok seen out \<Longrightarrow> map (entry out) (map ev_fd out) = out"
  using entry_nth by (intro nth_equalityI) (auto simp: seen_ok_def)

lemma kq_coalesce_eq:
  assumes "seen_ok seen out"
  shows "kq_coalesce ks seen out =
    map (\<lambda>fd. fold kq_merge (filter (\<lambda>k. ke_ident k = fd) ks) (entry out fd))
      (nub_from (map ev_fd out) (map ke_ident ks))"
  using assms
proof (induction ks arbitrary: seen out)
  case Nil
  then show ?case using map_entry by simp
next
  case (Cons k ks)
  let ?fd = "ke_ident k"
  define seen1 out1 where "seen1 = (case seen ?fd of None \<Rightarrow> seen(?fd \<mapsto> length out) | Some _ \<Rightarrow> seen)"
    and "out1 = (case seen ?fd of None \<Rightarrow> out @ [blank_event ?fd] | Some _ \<Rightarrow> out)"
  have ok1: "seen_ok seen1 out1"
    using Cons.prems seen_ok_append [OF Cons.prems] by (auto simp: seen1_def out1_def split: option.split)
  obtain j where j: "seen1 ?fd = Some j" by (cases "seen ?fd") (auto simp: seen1_def)
  have jl: "j < length out1" using ok1 j unfolding seen_ok_def by blast
  let ?out2 = "out1[j := kq_merge k (out1 ! j)]"
  have step: "kq_coalesce (k # ks) seen out = kq_coalesce ks seen1 ?out2"
    using j by (auto simp: seen1_def out1_def blank_event_def Let_def split: option.splits)
  have fds: "map ev_fd ?out2 = (if ?fd \<in> set (map ev_fd out) then map ev_fd out else map ev_fd out @ [?fd])"
    using seen_ok_mem [OF Cons.prems, of ?fd] map_ev_fd_merge [OF jl]
    by (auto simp: out1_def blank_event_def split: option.splits)
  have "entry out1 fd' = entry out fd'" for fd'
    using entry_append_blank [OF Cons.prems] by (auto simp: out1_def split: option.split)
  then have ent: "entry ?out2 fd' = (if fd' = ?fd then kq_merge k (entry out fd') else entry out fd')" for fd'
    using entry_merge [OF ok1 j] by simp
  have "map (\<lambda>fd. fold kq_merge (filter (\<lambda>k. ke_ident k = fd) ks) (entry ?out2 fd)) xs =
      map (\<lambda>fd. fold kq_merge (filter (\<lambda>k'. ke_ident k' = fd) (k # ks)) (entry out fd)) xs" for xs
    by (rule map_cong) (auto simp: ent)
  then show ?case
    using Cons.IH [OF seen_ok_merge [OF ok1 j], of k] by (simp only: step fds nub_from.simps list.map)
qed

lemma fold_merge_flags:
  "ev_readable (fold kq_merge ks e) \<longleftrightarrow>
     ev_readable e \<or> (\<exists>k \<in> set ks. ke_filter k = EVFILT_READ \<or> ke_flags k AND EV_EOF \<noteq> 0)"
  "ev_writable (fold kq_merge ks e) \<longleftrightarrow> ev_writable e \<or> (\<exists>k \<in> set ks. ke_filter k = EVFILT_WRITE)"
  "ev_hangup (fold kq_merge ks e) \<longleftrightarrow> ev_hangup e \<or> (\<exists>k \<in> set ks. ke_flags k AND EV_ERROR \<noteq> 0)"
  "ev_fd (fold kq_merge ks e) = ev_fd e"
  by (induction ks arbitrary: e) (auto simp: kq_merge_def Let_def)

lemma kq_coalesce_start:
  "kq_coalesce ks Map.empty [] =
     map (\<lambda>fd. fold kq_merge (filter (\<lambda>k. ke_ident k = fd) ks) (blank_event fd))
       (nub_from [] (map ke_ident ks))"
  by (subst kq_coalesce_eq) (auto simp: seen_ok_def entry_def)

lemma kq_coalesce_events:
  "distinct (map ev_fd (kq_coalesce ks Map.empty []))"
  "ev \<in> set (kq_coalesce ks Map.empty []) \<longleftrightarrow>
     (ev_fd ev \<in> ke_ident ` set ks \<and>
      (ev_readable ev \<longleftrightarrow> (\<exists>k \<in> set ks. ke_ident k = ev_fd ev \<and>
          (ke_filter k = EVFILT_READ \<or> ke_flags k AND EV_EOF \<noteq> 0))) \<and>
      (ev_writable ev \<longleftrightarrow> (\<exists>k \<in> set ks. ke_ident k = ev_fd ev \<and> ke_filter k = EVFILT_WRITE)) \<and>
      (ev_hangup ev \<longleftrightarrow> (\<exists>k \<in> set ks. ke_ident k = ev_fd ev \<and> ke_flags k AND EV_ERROR \<noteq> 0)))"
proof -
  let ?f = "\<lambda>fd. fold kq_merge (filter (\<lambda>k. ke_ident k = fd) ks) (blank_event fd)"
  have fd: "ev_fd (?f fd) = fd" for fd by (simp add: fold_merge_flags blank_event_def)
  then show "distinct (map ev_fd (kq_coalesce ks Map.empty []))"
    by (simp add: kq_coalesce_start comp_def distinct_nub_from)
  have "ev \<in> set (kq_coalesce ks Map.empty []) \<longleftrightarrow> ev_fd ev \<in> ke_ident ` set ks \<and> ev = ?f (ev_fd ev)"
    using fd by (auto simp: kq_coalesce_start)
  also have "ev = ?f (ev_fd ev) \<longleftrightarrow> ev_readable ev = ev_readable (?f (ev_fd ev)) \<and>
      ev_writable ev = ev_writable (?f (ev_fd ev)) \<and> ev_hangup ev = ev_hangup (?f (ev_fd ev))"
    using fd [of "ev_fd ev"] by (auto intro!: Event.equality)
  finally show "ev \<in> set (kq_coalesce ks Map.empty []) \<longleftrightarrow>
     (ev_fd ev \<in> ke_ident ` set ks \<and>
      (ev_readable ev \<longleftrightarrow> (\<exists>k \<in> set ks. ke_ident k = ev_fd ev \<and>
          (ke_filter k = EVFILT_READ \<or> ke_flags k AND EV_EOF \<noteq> 0))) \<and>
      (ev_writable ev \<longleftrightarrow> (\<exists>k \<in> set ks. ke_ident k = ev_fd ev \<and> ke_filter k = EVFILT_WRITE)) \<and>
      (ev_hangup ev \<longleftrightarrow> (\<exists>k \<in> set ks. ke_ident k = ev_fd ev \<and> ke_flags k AND EV_ERROR \<noteq> 0)))"
    by (simp only: fold_merge_flags) (auto simp: blank_event_def)
qed

section \<open>Sequences of registrations\<close>

datatype loop_op = OpAdd int bool bool | OpUpdate int bool bool | OpRemove int

fun run_op :: "loop_op \<Rightarrow> EventLoop \<Rightarrow> EventLoop" where
  "run_op (OpAdd fd r w) l = snd (loop_add fd r w l)"
| "run_op (OpUpdate fd r w) l = snd (loop_update fd r w l)"
| "run_op (OpRemove fd) l = loop_remove fd l"

fun spec_op :: "loop_op \<Rightarrow> (int \<rightharpoonup> bool \<times> bool) \<Rightarrow> (int \<rightharpoonup> bool \<times> bool)" where
  "spec_op (OpAdd fd r w) m = m(fd \<mapsto> (r, w))"
| "spec_op (OpUpdate fd r w) m = m(fd \<mapsto> (r, w))"
| "spec_op (OpRemove fd) m = m(fd := None)"

lemma run_op_inv: "loop_inv l \<Longrightarrow> loop_inv (run_op op l)"
  by (cases op) (simp_all add: el.laws)

lemma run_op_interest: "loop_inv l \<Longrightarrow> loop_interest (run_op op l) = spec_op op (loop_interest l)"
  by (cases op) (simp_all add: el.laws)

lemma run_ops_inv: "loop_inv l \<Longrightarrow> loop_inv (fold run_op ops l)"
  by (induction ops arbitrary: l) (simp_all add: run_op_inv)

lemma run_ops_interest:
  "loop_inv l \<Longrightarrow> loop_interest (fold run_op ops l) = fold spec_op ops (loop_interest l)"
  by (induction ops arbitrary: l) (simp_all add: run_op_inv run_op_interest)

lemma run_op_backend [simp]: "backend (run_op op l) = backend l"
  by (cases op) (simp_all add: loop_add_def loop_update_def loop_remove_def)

lemma run_ops_backend [simp]: "backend (fold run_op ops l) = backend l"
  by (induction ops arbitrary: l) simp_all

section \<open>Properties\<close>

text \<open>C36: the two backends are interchangeable. Whatever sequence of registrations, updates and
  removals is applied to a fresh loop, in which the kernel refuses no change, either backend ends
  with the interest each descriptor was last given and with removed descriptors forgotten.\<close>

theorem backends_agree:
  assumes "set script \<subseteq> {None}"
  shows "loop_interest (fold run_op ops (new_loop have_kq kqr b script)) = fold spec_op ops Map.empty"
  using run_ops_interest [OF new_loop_inv(1) [OF assms]] new_loop_inv(2) [OF assms] by simp

theorem backends_agree_witness:
  "loop_interest (fold run_op [OpAdd 4 True False, OpAdd 5 True False, OpUpdate 5 True True, OpRemove 4]
     (new_loop True 3 Kqueue [])) = [5 \<mapsto> (True, True)] \<and>
   loop_interest (fold run_op [OpAdd 4 True False, OpAdd 5 True False, OpUpdate 5 True True, OpRemove 4]
     (new_loop False 3 Poll [])) = [5 \<mapsto> (True, True)]"
  using backends_agree [of "[]" "[OpAdd 4 True False, OpAdd 5 True False, OpUpdate 5 True True, OpRemove 4]" True 3 Kqueue]
    backends_agree [of "[]" "[OpAdd 4 True False, OpAdd 5 True False, OpUpdate 5 True True, OpRemove 4]" False 3 Poll]
  by (auto simp: fun_eq_iff)

text \<open>Swap-with-last removal. With the poll backend, after any sequence of operations the
  array has no descriptor twice and \<open>poll_index_\<close> maps each of its descriptors, and nothing else, to
  the position where it is.\<close>

theorem poll_index_consistent:
  assumes "l = fold run_op ops (new_loop False kqr b script)"
  shows "distinct (map pfd_fd (pollfds l)) \<and>
    (\<forall>fd k. poll_index l fd = Some k \<longleftrightarrow> k < length (pollfds l) \<and> pfd_fd (pollfds l ! k) = fd)"
proof -
  have "backend (new_loop False kqr b script) = Poll" by (simp add: new_loop_def)
  moreover have "loop_inv (new_loop False kqr b script)"
    by (simp add: loop_inv_def new_loop_def poll_inv_def)
  ultimately have inv: "poll_inv l"
    using run_ops_inv [of "new_loop False kqr b script" ops] assms by (simp add: loop_inv_def)
  with poll_inv_fds_distinct [OF inv] show ?thesis by (simp add: poll_inv_def)
qed

theorem poll_index_consistent_witness:
  "map pfd_fd (pollfds (fold run_op [OpAdd 4 True False, OpAdd 5 True False, OpAdd 6 True False, OpRemove 4]
     (new_loop False 3 Poll []))) = [6, 5] \<and>
   distinct (map pfd_fd (pollfds (fold run_op [OpAdd 4 True False, OpAdd 5 True False, OpAdd 6 True False, OpRemove 4]
     (new_loop False 3 Poll []))))"
proof -
  have "map pfd_fd (pollfds (fold run_op [OpAdd 4 True False, OpAdd 5 True False, OpAdd 6 True False, OpRemove 4]
     (new_loop False 3 Poll []))) = [6, 5]"
    by (simp add: loop_add_def loop_remove_def new_loop_def poll_add_def poll_push_def poll_remove_def Let_def)
  with poll_index_consistent [OF refl, of "[OpAdd 4 True False, OpAdd 5 True False, OpAdd 6 True False, OpRemove 4]"]
  show ?thesis by blast
qed

text \<open>C38: the kqueue backend mirrors the kernel. When the kernel refuses no change, the filters it
  holds after any sequence of operations are exactly those the recorded interest asks for, and
  every deletion requested by a further update names a filter the kernel holds, so that
  \<^verbatim>\<open>ENOENT\<close> does not arise.\<close>

theorem kqueue_mirrors_kernel:
  assumes "set script \<subseteq> {None}" and "0 \<le> kqr"
    and "l = fold run_op ops (new_loop True kqr Kqueue script)"
  shows "(\<forall>fd. (fd, EVFILT_READ) \<in> set (kq_filters l) \<longleftrightarrow> (\<exists>w. loop_interest l fd = Some (True, w))) \<and>
    (\<forall>fd. (fd, EVFILT_WRITE) \<in> set (kq_filters l) \<longleftrightarrow> (\<exists>r. loop_interest l fd = Some (r, True))) \<and>
    (\<forall>fd f. (fd, f, EV_DELETE) \<in> set (kq_changes fd r w (recorded fd l)) \<longrightarrow> (fd, f) \<in> set (kq_filters l))"
proof -
  have kqb: "backend l = Kqueue" using assms(2,3) by (simp add: new_loop_def)
  have inv: "kq_inv l"
    using run_ops_inv [OF new_loop_inv(1) [OF assms(1), of True kqr Kqueue], of ops] assms(3) kqb
    by (simp add: loop_inv_def)
  have look: "loop_interest l = map_of (kq_interest l)"
    using kqb by (simp add: loop_interest_def kq_lookup_def)
  have del: "(fd, f) \<in> set (kq_filters l)" if "(fd, f, EV_DELETE) \<in> set (kq_changes fd r w (recorded fd l))" for fd f
    using that inv by (cases f) (auto simp: kq_changes_def kq_inv_def split: if_splits)
  have rec: "fst (recorded fd l) \<longleftrightarrow> (\<exists>w. loop_interest l fd = Some (True, w))"
      "snd (recorded fd l) \<longleftrightarrow> (\<exists>r. loop_interest l fd = Some (r, True))" for fd
    unfolding look recorded_def by (cases "map_of (kq_interest l) fd"; force)+
  show ?thesis
    using inv del unfolding kq_inv_def rec by blast
qed

theorem kqueue_mirrors_kernel_witness:
  "(5, EVFILT_WRITE) \<in> set (kq_filters (fold run_op [OpAdd 5 True False, OpUpdate 5 True True] (new_loop True 3 Kqueue []))) \<and>
   (\<exists>r. loop_interest (fold run_op [OpAdd 5 True False, OpUpdate 5 True True] (new_loop True 3 Kqueue [])) 5 = Some (r, True))"
proof -
  have "\<exists>r. loop_interest (fold run_op [OpAdd 5 True False, OpUpdate 5 True True] (new_loop True 3 Kqueue [])) 5 = Some (r, True)"
    using run_ops_interest [OF new_loop_inv(1), of "[]" "[OpAdd 5 True False, OpUpdate 5 True True]" True 3 Kqueue]
      new_loop_inv(2) [of "[]" True 3 Kqueue] by auto
  with kqueue_mirrors_kernel [OF _ _ refl, of "[]" 3 "[OpAdd 5 True False, OpUpdate 5 True True]"]
  show ?thesis by simp
qed

text \<open>Readiness is reported once per descriptor. The events of a kqueue wait name each ready
  descriptor exactly once, and an event is readable, writable or a hangup exactly when one of the
  delivered kernel events for its descriptor says so (end of file counts as readable).\<close>

theorem kq_wait_coalesces:
  assumes "have_kqueue l" and "kq_interest l \<noteq> []"
    and "kq_wait (KEvents ks) l = (n, out)" and "length ks \<le> length (kq_interest l) * 2 + 8"
  shows "n = int (length out) \<and> distinct (map ev_fd out) \<and> ev_fd ` set out = ke_ident ` set ks \<and>
    (\<forall>ev \<in> set out.
      (ev_readable ev \<longleftrightarrow> (\<exists>k \<in> set ks. ke_ident k = ev_fd ev \<and>
          (ke_filter k = EVFILT_READ \<or> ke_flags k AND EV_EOF \<noteq> 0))) \<and>
      (ev_writable ev \<longleftrightarrow> (\<exists>k \<in> set ks. ke_ident k = ev_fd ev \<and> ke_filter k = EVFILT_WRITE)) \<and>
      (ev_hangup ev \<longleftrightarrow> (\<exists>k \<in> set ks. ke_ident k = ev_fd ev \<and> ke_flags k AND EV_ERROR \<noteq> 0)))"
proof -
  have out: "out = kq_coalesce ks Map.empty []" and n: "n = int (length out)"
    using assms by (auto simp: kq_wait_def Let_def)
  have "ev_fd ` set out = ke_ident ` set ks"
    by (auto simp: out kq_coalesce_start image_image fold_merge_flags blank_event_def)
  then show ?thesis
    using kq_coalesce_events(2) [of _ ks] by (auto simp: n out kq_coalesce_events(1))
qed

theorem kq_wait_coalesces_witness:
  "map ev_fd (kq_coalesce [\<lparr>ke_ident = 7, ke_filter = EVFILT_WRITE, ke_flags = 0\<rparr>,
      \<lparr>ke_ident = 7, ke_filter = EVFILT_READ, ke_flags = 0\<rparr>] Map.empty []) = [7] \<and>
   distinct (map ev_fd (snd (kq_wait (KEvents [\<lparr>ke_ident = 7, ke_filter = EVFILT_WRITE, ke_flags = 0\<rparr>,
      \<lparr>ke_ident = 7, ke_filter = EVFILT_READ, ke_flags = 0\<rparr>])
      (snd (kq_apply 7 True True (new_loop True 3 Kqueue []))))))"
proof -
  let ?ks = "[\<lparr>ke_ident = 7, ke_filter = EVFILT_WRITE, ke_flags = 0\<rparr>,
      \<lparr>ke_ident = 7, ke_filter = EVFILT_READ, ke_flags = 0\<rparr>]"
  let ?l = "snd (kq_apply 7 True True (new_loop True 3 Kqueue []))"
  have inv: "kq_inv (new_loop True 3 Kqueue [])"
    using new_loop_inv(1) [of "[]" True 3 Kqueue] by (simp add: loop_inv_def new_loop_def)
  have l: "have_kqueue ?l" "kq_interest ?l = [(7, (True, True))]"
    using kq_apply_facts [OF inv, of 7 True True] by (simp_all add: new_loop_def)
  have "map ev_fd (kq_coalesce ?ks Map.empty []) = [7]"
    by (simp add: kq_merge_def Let_def)
  with kq_wait_coalesces [OF l(1) _ prod.collapse [symmetric], of ?ks] l(2) show ?thesis by simp
qed

end
