(* ===== verification/Client_Session.thy ===== *)
theory Client_Session
  imports Exchange_Prelude
begin

text \<open>
  The per-connection state of the server, \<^verbatim>\<open>src/src/network/client_session.hpp\<close>: buffers for both
  directions, the role inferred from the first role-specific command, and the flags that mirror
  what is registered with the event loop.
\<close>

datatype ClientRole = ROLE_UNKNOWN | ROLE_TRADER | ROLE_MARKET_DATA

record ClientSession =
  s_fd :: int
  role :: ClientRole
  inbuf :: string
  outbuf :: string
  out_start :: nat
  closing :: bool
  backlogged :: bool
  write_interest :: bool
  read_interest :: bool
  peer :: string
  username :: string
  logged_in :: bool
  subscriptions :: "string list"

definition new_session :: "int \<Rightarrow> ClientSession" where
  "new_session fd = \<lparr>s_fd = fd, role = ROLE_UNKNOWN, inbuf = [], outbuf = [], out_start = 0,
     closing = False, backlogged = False, write_interest = False, read_interest = True,
     peer = [], username = [], logged_in = False, subscriptions = []\<rparr>"

definition pending_bytes :: "ClientSession \<Rightarrow> nat" where
  "pending_bytes s = length (outbuf s) - out_start s"

definition has_pending_output :: "ClientSession \<Rightarrow> bool" where
  "has_pending_output s \<longleftrightarrow> pending_bytes s > 0"

definition session_label :: "ClientSession \<Rightarrow> string" where
  "session_label s =
     (let who = ''fd '' @ to_string (s_fd s)
      in if username s \<noteq> [] then who @ '' ('' @ username s @ '')'' else who)"

text \<open>The bytes not yet handed to the kernel.\<close>

definition pending :: "ClientSession \<Rightarrow> string" where
  "pending s = drop (out_start s) (outbuf s)"

lemma length_pending [simp]: "length (pending s) = pending_bytes s"
  by (simp add: pending_def pending_bytes_def)

lemma has_pending_iff: "has_pending_output s \<longleftrightarrow> pending s \<noteq> []"
  by (auto simp: has_pending_output_def pending_bytes_def pending_def)

end
