(* ===== verification/Posix.thy ===== *)
theory Posix
  imports Exchange_Prelude
begin

text \<open>
  The world outside the program, as the sources see it: the results of system calls, given as
  scripts that the calls consume in order, and the part of the kernel's and the C library's state
  that the properties speak about. Every theorem of the development is about all scripts: a
  script is any finite sequence of outcomes the interface documents. A call beyond the end of its
  script finds nothing to do (\<^verbatim>\<open>EAGAIN\<close> for \<^verbatim>\<open>send\<close>, \<^verbatim>\<open>recv\<close> and \<^verbatim>\<open>accept\<close>) or
  succeeds, so that each loop over a system call ends with its script.

  Documented behaviour built in: \<^verbatim>\<open>send\<close> accepts at most the bytes it is offered, \<^verbatim>\<open>recv\<close>
  delivers at most the bytes asked for and keeps the rest, \<^verbatim>\<open>socket\<close> and \<^verbatim>\<open>accept\<close> return
  the lowest descriptor not in use.
\<close>

datatype send_result = Written nat | SendError errno

datatype recv_result = Data string | RecvError errno

text \<open>A connection waiting to be accepted: its peer's address as \<^verbatim>\<open>inet_ntop\<close> renders it
  (\<^term>\<open>None\<close> when it cannot) and its port; or the error of \<^verbatim>\<open>accept\<close>.\<close>

datatype accept_result = Connection "string option" nat | AcceptError errno

datatype syscall = Sys_socket | Sys_bind | Sys_listen | Sys_connect | Sys_fcntl
  | Sys_setsockopt | Sys_getsockopt | Sys_kqueue

datatype shutdown_how = SHUT_RD | SHUT_WR | SHUT_RDWR

text \<open>\<open>outcomes\<close> scripts the remaining calls (\<^term>\<open>None\<close> is success). \<open>wire\<close> holds, per
  descriptor, the bytes the kernel has accepted for the peer since the connection was made;
  \<open>listening\<close> the backlog of each listening socket;
  \<open>bad_close\<close> records a \<^verbatim>\<open>close\<close> of a descriptor that is not open. \<open>hash_order\<close> is the
  order in which the C++ library happens to iterate over an unordered set. \<open>poll_script\<close> tells how
  the waits for writability of a client end; at its end the wait never returns.\<close>

record Kernel =
  strerror :: "errno \<Rightarrow> string"
  inet_pton :: "string \<Rightarrow> 32 word option"
  getaddrinfo :: "string \<Rightarrow> string + 32 word"
  outcomes :: "syscall \<Rightarrow> errno option list"
  send_script :: "int \<Rightarrow> send_result list"
  recv_script :: "int \<Rightarrow> recv_result list"
  accept_script :: "accept_result list"
  wire :: "int \<Rightarrow> string"
  open_fds :: "int list"
  fd_flags :: "int \<Rightarrow> 32 word"
  sockopts :: "int \<Rightarrow> string \<rightharpoonup> int"
  bound :: "int \<rightharpoonup> 32 word \<times> 16 word"
  listening :: "int \<rightharpoonup> int"
  connected :: "int \<rightharpoonup> 32 word \<times> 16 word"
  shutdowns :: "(int \<times> shutdown_how) list"
  bad_close :: bool
  now :: nat
  hash_order :: "int list \<Rightarrow> int list"
  poll_script :: "errno option list"

section \<open>Calls\<close>

definition outcome :: "syscall \<Rightarrow> Kernel \<Rightarrow> errno option \<times> Kernel" where
  "outcome c k =
     (case outcomes k c of
        [] \<Rightarrow> (None, k)
      | r # rest \<Rightarrow> (r, k\<lparr>outcomes := (outcomes k)(c := rest)\<rparr>))"

definition sys_send :: "int \<Rightarrow> string \<Rightarrow> Kernel \<Rightarrow> send_result \<times> Kernel" where
  "sys_send fd data k =
     (case send_script k fd of
        [] \<Rightarrow> (SendError EAGAIN, k)
      | SendError e # rest \<Rightarrow> (SendError e, k\<lparr>send_script := (send_script k)(fd := rest)\<rparr>)
      | Written n # rest \<Rightarrow>
          (let m = min n (length data)
           in (Written m, k\<lparr>send_script := (send_script k)(fd := rest),
                            wire := (wire k)(fd := wire k fd @ take m data)\<rparr>)))"

definition sys_recv :: "int \<Rightarrow> nat \<Rightarrow> Kernel \<Rightarrow> recv_result \<times> Kernel" where
  "sys_recv fd n k =
     (case recv_script k fd of
        [] \<Rightarrow> (RecvError EAGAIN, k)
      | RecvError e # rest \<Rightarrow> (RecvError e, k\<lparr>recv_script := (recv_script k)(fd := rest)\<rparr>)
      | Data bs # rest \<Rightarrow>
          (if length bs > n
           then (Data (take n bs), k\<lparr>recv_script := (recv_script k)(fd := Data (drop n bs) # rest)\<rparr>)
           else (Data bs, k\<lparr>recv_script := (recv_script k)(fd := rest)\<rparr>)))"

text \<open>The lowest non-negative number that is not an open descriptor.\<close>

definition lowest_free :: "int list \<Rightarrow> int" where
  "lowest_free fds = hd (filter (\<lambda>n. n \<notin> set fds) (map int [0..<Suc (length fds)]))"

definition open_fd :: "int \<Rightarrow> Kernel \<Rightarrow> Kernel" where
  "open_fd fd k = k\<lparr>open_fds := fd # open_fds k, wire := (wire k)(fd := []),
     fd_flags := (fd_flags k)(fd := 0), sockopts := (sockopts k)(fd := Map.empty),
     bound := (bound k)(fd := None), listening := (listening k)(fd := None),
     connected := (connected k)(fd := None)\<rparr>"

definition sys_accept :: "Kernel \<Rightarrow> (errno + (int \<times> string option \<times> nat)) \<times> Kernel" where
  "sys_accept k =
     (case accept_script k of
        [] \<Rightarrow> (Inl EAGAIN, k)
      | AcceptError e # rest \<Rightarrow> (Inl e, k\<lparr>accept_script := rest\<rparr>)
      | Connection addr port # rest \<Rightarrow>
          (let fd = lowest_free (open_fds k)
           in (Inr (fd, addr, port), open_fd fd (k\<lparr>accept_script := rest\<rparr>))))"

definition sys_socket :: "Kernel \<Rightarrow> (errno + int) \<times> Kernel" where
  "sys_socket k =
     (let (err, k) = outcome Sys_socket k
      in case err of
           Some e \<Rightarrow> (Inl e, k)
         | None \<Rightarrow> (let fd = lowest_free (open_fds k) in (Inr fd, open_fd fd k)))"

definition sys_kqueue :: "Kernel \<Rightarrow> (errno + int) \<times> Kernel" where
  "sys_kqueue k =
     (let (err, k) = outcome Sys_kqueue k
      in case err of
           Some e \<Rightarrow> (Inl e, k)
         | None \<Rightarrow> (let fd = lowest_free (open_fds k) in (Inr fd, open_fd fd k)))"

definition sys_bind :: "int \<Rightarrow> 32 word \<Rightarrow> 16 word \<Rightarrow> Kernel \<Rightarrow> errno option \<times> Kernel" where
  "sys_bind fd addr port k =
     (let (err, k) = outcome Sys_bind k
      in (err, if err = None then k\<lparr>bound := (bound k)(fd \<mapsto> (addr, port))\<rparr> else k))"

definition sys_listen :: "int \<Rightarrow> int \<Rightarrow> Kernel \<Rightarrow> errno option \<times> Kernel" where
  "sys_listen fd backlog k =
     (let (err, k) = outcome Sys_listen k
      in (err, if err = None then k\<lparr>listening := (listening k)(fd \<mapsto> backlog)\<rparr> else k))"

definition sys_connect :: "int \<Rightarrow> 32 word \<Rightarrow> 16 word \<Rightarrow> Kernel \<Rightarrow> errno option \<times> Kernel" where
  "sys_connect fd addr port k =
     (let (err, k) = outcome Sys_connect k
      in (err, if err = None then k\<lparr>connected := (connected k)(fd \<mapsto> (addr, port))\<rparr> else k))"

definition sys_setsockopt :: "int \<Rightarrow> string \<Rightarrow> int \<Rightarrow> Kernel \<Rightarrow> errno option \<times> Kernel" where
  "sys_setsockopt fd opt v k =
     (let (err, k) = outcome Sys_setsockopt k
      in (err, if err = None then k\<lparr>sockopts := (sockopts k)(fd := (sockopts k fd)(opt \<mapsto> v))\<rparr> else k))"

definition sys_close :: "int \<Rightarrow> Kernel \<Rightarrow> Kernel" where
  "sys_close fd k =
     (if fd \<in> set (open_fds k) then k\<lparr>open_fds := removeAll fd (open_fds k)\<rparr>
      else k\<lparr>bad_close := True\<rparr>)"

definition sys_shutdown :: "int \<Rightarrow> shutdown_how \<Rightarrow> Kernel \<Rightarrow> Kernel" where
  "sys_shutdown fd how k = k\<lparr>shutdowns := shutdowns k @ [(fd, how)]\<rparr>"

text \<open>\<^verbatim>\<open>poll\<close> on one descriptor without a time limit; \<^term>\<open>None\<close> when it never returns.\<close>

definition sys_poll :: "Kernel \<Rightarrow> (errno option \<times> Kernel) option" where
  "sys_poll k = (case poll_script k of [] \<Rightarrow> None | r # rest \<Rightarrow> Some (r, k\<lparr>poll_script := rest\<rparr>))"

section \<open>Facts\<close>

lemma lowest_free_exists: "\<exists>n \<in> set (map int [0..<Suc (length fds)]). n \<notin> set fds"
proof (rule ccontr)
  assume "\<not> ?thesis"
  then have "set (map int [0..<Suc (length fds)]) \<subseteq> set fds" by blast
  then have "card (set (map int [0..<Suc (length fds)])) \<le> card (set fds)"
    by (intro card_mono) simp_all
  also have "\<dots> \<le> length fds" by (rule card_length)
  finally show False by (simp add: card_image del: upt_Suc)
qed

lemma lowest_free_fresh: "lowest_free fds \<notin> set fds" "0 \<le> lowest_free fds"
proof -
  have ne: "filter (\<lambda>n. n \<notin> set fds) (map int [0..<Suc (length fds)]) \<noteq> []"
    using lowest_free_exists [of fds] by (simp add: filter_empty_conv del: upt_Suc)
  from hd_in_set [OF ne]
  have "lowest_free fds \<in> {n \<in> set (map int [0..<Suc (length fds)]). n \<notin> set fds}"
    by (simp add: lowest_free_def del: upt_Suc)
  then show "lowest_free fds \<notin> set fds" "0 \<le> lowest_free fds" by auto
qed

text \<open>Everything of the world except the scripts and the bytes handed over: what \<^verbatim>\<open>send\<close> and
  \<^verbatim>\<open>recv\<close> leave alone.\<close>

lemma outcome_frame [frame_simps]:
  "open_fds (snd (outcome c k)) = open_fds k" "wire (snd (outcome c k)) = wire k"
  "bad_close (snd (outcome c k)) = bad_close k" "fd_flags (snd (outcome c k)) = fd_flags k"
  "send_script (snd (outcome c k)) = send_script k" "recv_script (snd (outcome c k)) = recv_script k"
  "accept_script (snd (outcome c k)) = accept_script k" "hash_order (snd (outcome c k)) = hash_order k"
  "sockopts (snd (outcome c k)) = sockopts k" "now (snd (outcome c k)) = now k"
  "strerror (snd (outcome c k)) = strerror k"
  by (simp_all add: outcome_def split: list.split)

lemma outcome_frame2 [frame_simps]:
  "bound (snd (outcome c k)) = bound k" "listening (snd (outcome c k)) = listening k"
  "connected (snd (outcome c k)) = connected k" "shutdowns (snd (outcome c k)) = shutdowns k"
  by (simp_all add: outcome_def split: list.split)

lemma sys_setsockopt_frame [frame_simps]:
  "open_fds (snd (sys_setsockopt fd opt v k)) = open_fds k"
  "wire (snd (sys_setsockopt fd opt v k)) = wire k"
  "bad_close (snd (sys_setsockopt fd opt v k)) = bad_close k"
  "fd_flags (snd (sys_setsockopt fd opt v k)) = fd_flags k"
  "send_script (snd (sys_setsockopt fd opt v k)) = send_script k"
  "recv_script (snd (sys_setsockopt fd opt v k)) = recv_script k"
  "accept_script (snd (sys_setsockopt fd opt v k)) = accept_script k"
  "hash_order (snd (sys_setsockopt fd opt v k)) = hash_order k"
  "now (snd (sys_setsockopt fd opt v k)) = now k"
  by (simp_all add: sys_setsockopt_def case_prod_unfold Let_def outcome_frame outcome_frame2)

lemma sys_send_frame [frame_simps]:
  "open_fds (snd (sys_send fd data k)) = open_fds k"
  "bad_close (snd (sys_send fd data k)) = bad_close k" "fd_flags (snd (sys_send fd data k)) = fd_flags k"
  "recv_script (snd (sys_send fd data k)) = recv_script k"
  "accept_script (snd (sys_send fd data k)) = accept_script k"
  "hash_order (snd (sys_send fd data k)) = hash_order k" "now (snd (sys_send fd data k)) = now k"
  "fd' \<noteq> fd \<Longrightarrow> wire (snd (sys_send fd data k)) fd' = wire k fd'"
  "fd' \<noteq> fd \<Longrightarrow> send_script (snd (sys_send fd data k)) fd' = send_script k fd'"
  by (simp_all add: sys_send_def Let_def split: list.split send_result.split)

lemma sys_recv_frame [frame_simps]:
  "open_fds (snd (sys_recv fd n k)) = open_fds k" "wire (snd (sys_recv fd n k)) = wire k"
  "bad_close (snd (sys_recv fd n k)) = bad_close k" "fd_flags (snd (sys_recv fd n k)) = fd_flags k"
  "send_script (snd (sys_recv fd n k)) = send_script k"
  "accept_script (snd (sys_recv fd n k)) = accept_script k"
  "hash_order (snd (sys_recv fd n k)) = hash_order k" "now (snd (sys_recv fd n k)) = now k"
  by (simp_all add: sys_recv_def split: list.split recv_result.split)

lemma sys_recv_size: "fst (sys_recv fd n k) = Data bs \<Longrightarrow> length bs \<le> n"
  by (auto simp: sys_recv_def split: list.splits recv_result.splits if_splits)

lemma sys_close_frame [frame_simps]:
  "wire (sys_close fd k) = wire k" "fd_flags (sys_close fd k) = fd_flags k"
  "send_script (sys_close fd k) = send_script k" "recv_script (sys_close fd k) = recv_script k"
  "accept_script (sys_close fd k) = accept_script k" "hash_order (sys_close fd k) = hash_order k"
  "now (sys_close fd k) = now k"
  by (simp_all add: sys_close_def)

lemma sys_shutdown_frame [frame_simps]:
  "wire (sys_shutdown fd how k) = wire k" "fd_flags (sys_shutdown fd how k) = fd_flags k"
  "send_script (sys_shutdown fd how k) = send_script k"
  "recv_script (sys_shutdown fd how k) = recv_script k"
  "accept_script (sys_shutdown fd how k) = accept_script k"
  "open_fds (sys_shutdown fd how k) = open_fds k" "bad_close (sys_shutdown fd how k) = bad_close k"
  "hash_order (sys_shutdown fd how k) = hash_order k" "now (sys_shutdown fd how k) = now k"
  by (simp_all add: sys_shutdown_def)

text \<open>Closing a list of descriptors.\<close>

lemma fold_sys_close:
  assumes "distinct fds" and "set fds \<subseteq> set (open_fds k)"
  shows "set (open_fds (fold sys_close fds k)) = set (open_fds k) - set fds"
    and "bad_close (fold sys_close fds k) = bad_close k"
    and "fd_flags (fold sys_close fds k) = fd_flags k"
proof -
  have "set (open_fds (fold sys_close fds k)) = set (open_fds k) - set fds \<and>
      bad_close (fold sys_close fds k) = bad_close k \<and> fd_flags (fold sys_close fds k) = fd_flags k"
    using assms
  proof (induction fds arbitrary: k)
    case (Cons fd fds)
    have k: "sys_close fd k = k\<lparr>open_fds := removeAll fd (open_fds k)\<rparr>"
      using Cons.prems by (simp add: sys_close_def)
    have "set fds \<subseteq> set (open_fds (sys_close fd k))" using Cons.prems by (auto simp: k)
    with Cons.IH [of "sys_close fd k"] Cons.prems show ?case by (auto simp: k)
  qed simp
  then show "set (open_fds (fold sys_close fds k)) = set (open_fds k) - set fds"
    "bad_close (fold sys_close fds k) = bad_close k" "fd_flags (fold sys_close fds k) = fd_flags k" by auto
qed

text \<open>The bytes still in a receive script: what a loop over \<^verbatim>\<open>recv\<close> uses up.\<close>

fun recv_weight :: "recv_result list \<Rightarrow> nat" where
  "recv_weight [] = 0"
| "recv_weight (Data bs # rest) = Suc (length bs + recv_weight rest)"
| "recv_weight (RecvError e # rest) = Suc (recv_weight rest)"

lemma sys_recv_weight:
  assumes "fst (sys_recv fd n k) \<noteq> RecvError EAGAIN" and "0 < n"
  shows "recv_weight (recv_script (snd (sys_recv fd n k)) fd) < recv_weight (recv_script k fd)"
  using assms
  by (auto simp: sys_recv_def split: list.splits recv_result.splits)

section \<open>A socket that goes on taking bytes\<close>

text \<open>A script of sends without a failure, the number of bytes it takes, and the number of calls in it that would block.\<close>

fun benign :: "send_result \<Rightarrow> bool" where
  "benign (Written n) \<longleftrightarrow> n > 0"
| "benign (SendError e) \<longleftrightarrow> e = EINTR \<or> e = EAGAIN \<or> e = EWOULDBLOCK"

fun capacity :: "send_result list \<Rightarrow> nat" where
  "capacity [] = 0"
| "capacity (Written n # rest) = n + capacity rest"
| "capacity (SendError e # rest) = capacity rest"

fun waits :: "send_result list \<Rightarrow> nat" where
  "waits [] = 0"
| "waits (Written n # rest) = waits rest"
| "waits (SendError e # rest) = (if e = EINTR then waits rest else Suc (waits rest))"

lemma sys_send_benign:
  assumes "list_all benign (send_script k fd)" and "length bs \<le> capacity (send_script k fd)" and "bs \<noteq> []"
    and "sys_send fd bs k = (r, k')"
  shows "list_all benign (send_script k' fd) \<and> benign r \<and>
    (case r of Written n \<Rightarrow> length bs - n \<le> capacity (send_script k' fd) \<and> waits (send_script k' fd) = waits (send_script k fd)
     | SendError e \<Rightarrow> length bs \<le> capacity (send_script k' fd) \<and>
         waits (send_script k fd) = (if e = EINTR then 0 else 1) + waits (send_script k' fd))"
  using assms by (cases "send_script k fd") (auto simp: sys_send_def Let_def split: send_result.splits)

text \<open>Each call uses up one result, beyond the end of the script none; the call fails when the result is a failure.\<close>

lemma sys_send_used:
  assumes "sys_send fd bs k = (r, k')"
  shows "send_script k fd = send_script k' fd \<and> r = SendError EAGAIN \<or>
    (\<exists>x. send_script k fd = x # send_script k' fd \<and> (bs \<noteq> [] \<longrightarrow> benign x = benign r))"
  using assms by (cases "send_script k fd") (auto simp: sys_send_def Let_def split: send_result.splits)

end
