(* ===== verification/Socket_Utils.thy ===== *)
theory Socket_Utils
  imports Posix
begin

text \<open>
  \<^verbatim>\<open>src/src/network/socket_utils.hpp\<close> and \<^verbatim>\<open>socket_utils.cpp\<close>: creating listening and connected
  sockets, non-blocking mode and the other socket settings. Each function takes and returns the
  \<open>Kernel\<close>; a failure is the error text the C++ function leaves in \<^verbatim>\<open>err\<close>.
  The theory shows that no failing path leaks a descriptor and that a successful
  \<open>create_listening_socket\<close> returns a fresh, bound, listening and non-blocking one.
\<close>

unbundle bit_operations_syntax

definition O_NONBLOCK :: "32 word" where "O_NONBLOCK = 4"

text \<open>Both \<^verbatim>\<open>fcntl\<close> calls; \<^term>\<open>None\<close> is \<^verbatim>\<open>true\<close>, an error number is \<^verbatim>\<open>false\<close> with
  \<^verbatim>\<open>errno\<close> set.\<close>

definition set_nonblocking :: "int \<Rightarrow> Kernel \<Rightarrow> errno option \<times> Kernel" where
  "set_nonblocking fd k =
     (let (err, k) = outcome Sys_fcntl k
      in if err \<noteq> None then (err, k)
         else (let flags = fd_flags k fd; (err, k) = outcome Sys_fcntl k
               in if err \<noteq> None then (err, k)
                  else (None, k\<lparr>fd_flags := (fd_flags k)(fd := flags OR O_NONBLOCK)\<rparr>)))"

definition set_tcp_nodelay :: "int \<Rightarrow> Kernel \<Rightarrow> bool \<times> Kernel" where
  "set_tcp_nodelay fd k = (let (err, k) = sys_setsockopt fd ''TCP_NODELAY'' 1 k in (err = None, k))"

text \<open>\<open>first\<close> and \<open>second\<close> are what the two \<^verbatim>\<open>getrlimit\<close> calls deliver, soft limit and hard limit, which are unsigned; the
  result is a \<^verbatim>\<open>long\<close>, negative for a limit such as \<^verbatim>\<open>RLIM_INFINITY\<close>.\<close>

definition raise_fd_limit :: "(64 word \<times> 64 word) option \<Rightarrow> (64 word \<times> 64 word) option \<Rightarrow> int" where
  "raise_fd_limit first second =
     (case first of
        None \<Rightarrow> -1
      | Some (cur, hard) \<Rightarrow>
          sint (if cur < hard then (case second of None \<Rightarrow> hard | Some (cur', hard') \<Rightarrow> cur') else cur))"

definition resolve_ipv4 :: "string \<Rightarrow> Kernel \<Rightarrow> string + 32 word" where
  "resolve_ipv4 host k =
     (if host = [] \<or> host = ''*'' then Inr 0
      else case inet_pton k host of
             Some a \<Rightarrow> Inr a
           | None \<Rightarrow>
               (case getaddrinfo k host of
                  Inl gai \<Rightarrow> Inl (''cannot resolve host '' @ [CHR 0x27] @ host @ [CHR 0x27] @ '': '' @ gai)
                | Inr a \<Rightarrow> Inr a))"

definition create_listening_socket :: "string \<Rightarrow> int \<Rightarrow> int \<Rightarrow> Kernel \<Rightarrow> (string + int) \<times> Kernel" where
  "create_listening_socket host port backlog k =
     (case resolve_ipv4 host k of
        Inl err \<Rightarrow> (Inl err, k)
      | Inr addr \<Rightarrow>
          (let (sock, k) = sys_socket k
           in case sock of
                Inl e \<Rightarrow> (Inl (''socket() failed: '' @ strerror k e), k)
              | Inr fd \<Rightarrow>
                  (let k = snd (sys_setsockopt fd ''SO_REUSEADDR'' 1 k);
                       (berr, k) = sys_bind fd addr (word_of_int port) k
                   in case berr of
                        Some e \<Rightarrow> (Inl (''bind() failed: '' @ strerror k e), sys_close fd k)
                      | None \<Rightarrow>
                          (let (lerr, k) = sys_listen fd backlog k
                           in case lerr of
                                Some e \<Rightarrow> (Inl (''listen() failed: '' @ strerror k e), sys_close fd k)
                              | None \<Rightarrow>
                                  (let (nerr, k) = set_nonblocking fd k
                                   in case nerr of
                                        Some e \<Rightarrow> (Inl (''fcntl(O_NONBLOCK) failed: '' @ strerror k e), sys_close fd k)
                                      | None \<Rightarrow> (Inr fd, k))))))"

definition connect_to :: "string \<Rightarrow> int \<Rightarrow> Kernel \<Rightarrow> (string + int) \<times> Kernel" where
  "connect_to host port k =
     (case resolve_ipv4 (if host = [] then ''127.0.0.1'' else host) k of
        Inl err \<Rightarrow> (Inl err, k)
      | Inr addr \<Rightarrow>
          (let (sock, k) = sys_socket k
           in case sock of
                Inl e \<Rightarrow> (Inl (''socket() failed: '' @ strerror k e), k)
              | Inr fd \<Rightarrow>
                  (let (cerr, k) = sys_connect fd addr (word_of_int port) k
                   in case cerr of
                        Some e \<Rightarrow> (Inl (''connect() failed: '' @ strerror k e), sys_close fd k)
                      | None \<Rightarrow> (Inr fd, k))))"

text \<open>\<open>applied\<close> is the size \<^verbatim>\<open>getsockopt\<close> reports.\<close>

definition set_send_buffer :: "int \<Rightarrow> int \<Rightarrow> int \<Rightarrow> Kernel \<Rightarrow> int \<times> Kernel" where
  "set_send_buffer fd bytes applied k =
     (let (err, k) = sys_setsockopt fd ''SO_SNDBUF'' bytes k
      in if err \<noteq> None then (-1, k)
         else (let (err, k) = outcome Sys_getsockopt k in (if err \<noteq> None then -1 else applied, k)))"

section \<open>Facts\<close>

lemma set_nonblocking_frame [frame_simps]:
  "open_fds (snd (set_nonblocking fd k)) = open_fds k" "wire (snd (set_nonblocking fd k)) = wire k"
  "bad_close (snd (set_nonblocking fd k)) = bad_close k"
  "send_script (snd (set_nonblocking fd k)) = send_script k"
  "recv_script (snd (set_nonblocking fd k)) = recv_script k"
  "accept_script (snd (set_nonblocking fd k)) = accept_script k"
  "hash_order (snd (set_nonblocking fd k)) = hash_order k" "now (snd (set_nonblocking fd k)) = now k"
  "bound (snd (set_nonblocking fd k)) = bound k" "listening (snd (set_nonblocking fd k)) = listening k"
  by (simp_all add: set_nonblocking_def Let_def case_prod_unfold frame_simps)

lemma set_nonblocking_flags:
  "fd' \<noteq> fd \<Longrightarrow> fd_flags (snd (set_nonblocking fd k)) fd' = fd_flags k fd'"
  "fst (set_nonblocking fd k) = None \<Longrightarrow> fd_flags (snd (set_nonblocking fd k)) fd AND O_NONBLOCK \<noteq> 0"
proof -
  have "(x OR O_NONBLOCK) AND O_NONBLOCK = O_NONBLOCK" for x by (simp add: word_ao_absorbs)
  then show "fst (set_nonblocking fd k) = None \<Longrightarrow> fd_flags (snd (set_nonblocking fd k)) fd AND O_NONBLOCK \<noteq> 0"
    by (auto simp: set_nonblocking_def Let_def case_prod_unfold O_NONBLOCK_def split: if_splits)
qed (simp add: set_nonblocking_def Let_def case_prod_unfold frame_simps)

lemma set_tcp_nodelay_frame [frame_simps]:
  "open_fds (snd (set_tcp_nodelay fd k)) = open_fds k" "wire (snd (set_tcp_nodelay fd k)) = wire k"
  "bad_close (snd (set_tcp_nodelay fd k)) = bad_close k"
  "fd_flags (snd (set_tcp_nodelay fd k)) = fd_flags k"
  "send_script (snd (set_tcp_nodelay fd k)) = send_script k"
  "recv_script (snd (set_tcp_nodelay fd k)) = recv_script k"
  "accept_script (snd (set_tcp_nodelay fd k)) = accept_script k"
  "hash_order (snd (set_tcp_nodelay fd k)) = hash_order k" "now (snd (set_tcp_nodelay fd k)) = now k"
  by (simp_all add: set_tcp_nodelay_def case_prod_unfold Let_def frame_simps)

lemma set_send_buffer_frame [frame_simps]:
  "open_fds (snd (set_send_buffer fd n a k)) = open_fds k" "wire (snd (set_send_buffer fd n a k)) = wire k"
  "bad_close (snd (set_send_buffer fd n a k)) = bad_close k"
  "fd_flags (snd (set_send_buffer fd n a k)) = fd_flags k"
  "send_script (snd (set_send_buffer fd n a k)) = send_script k"
  "recv_script (snd (set_send_buffer fd n a k)) = recv_script k"
  "accept_script (snd (set_send_buffer fd n a k)) = accept_script k"
  "hash_order (snd (set_send_buffer fd n a k)) = hash_order k" "now (snd (set_send_buffer fd n a k)) = now k"
  by (simp_all add: set_send_buffer_def case_prod_unfold Let_def frame_simps)

lemma sys_socket_facts:
  "fst (sys_socket k) = Inl e \<Longrightarrow> open_fds (snd (sys_socket k)) = open_fds k"
  "fst (sys_socket k) = Inr fd \<Longrightarrow> open_fds (snd (sys_socket k)) = fd # open_fds k \<and> fd \<notin> set (open_fds k)"
  "bad_close (snd (sys_socket k)) = bad_close k"
  by (auto simp: sys_socket_def case_prod_unfold Let_def open_fd_def frame_simps lowest_free_fresh
      split: option.splits)

lemma sys_bind_listen_frame [frame_simps]:
  "open_fds (snd (sys_bind fd a p k)) = open_fds k" "open_fds (snd (sys_listen fd bl k)) = open_fds k"
  "open_fds (snd (sys_connect fd a p k)) = open_fds k"
  "bad_close (snd (sys_bind fd a p k)) = bad_close k" "bad_close (snd (sys_listen fd bl k)) = bad_close k"
  "bad_close (snd (sys_connect fd a p k)) = bad_close k"
  "bound (snd (sys_listen fd bl k)) = bound k"
  by (simp_all add: sys_bind_def sys_listen_def sys_connect_def case_prod_unfold Let_def frame_simps)

lemma hash_kept [frame_simps]:
  "hash_order (snd (sys_socket k)) = hash_order k" "hash_order (snd (sys_bind fd a p k)) = hash_order k"
  "hash_order (snd (sys_listen fd bl k)) = hash_order k"
  by (simp_all add: sys_socket_def sys_bind_def sys_listen_def open_fd_def Let_def case_prod_unfold frame_simps split: option.split)

lemma sys_socket_nonneg: "fst (sys_socket k) = Inr fd \<Longrightarrow> 0 \<le> fd"
  by (auto simp: sys_socket_def Let_def case_prod_unfold lowest_free_fresh split: option.splits)

lemma close_fresh:
  "open_fds k = fd # fds \<Longrightarrow> fd \<notin> set fds \<Longrightarrow>
     open_fds (sys_close fd k) = fds \<and> bad_close (sys_close fd k) = bad_close k"
  by (simp add: sys_close_def)

definition no_leak :: "(string + int) \<times> Kernel \<Rightarrow> Kernel \<Rightarrow> bool" where
  "no_leak r k \<longleftrightarrow>
     (case r of
        (Inl err, k') \<Rightarrow> open_fds k' = open_fds k \<and> bad_close k' = bad_close k
      | (Inr fd, k') \<Rightarrow> open_fds k' = fd # open_fds k \<and> fd \<notin> set (open_fds k) \<and> bad_close k' = bad_close k)"

lemma no_leak_create: "no_leak (create_listening_socket host port backlog k) k"
proof (cases "resolve_ipv4 host k")
  case (Inl err)
  then show ?thesis by (simp add: create_listening_socket_def no_leak_def)
next
  case addr: (Inr addr)
  show ?thesis
  proof (cases "fst (sys_socket k)")
    case (Inl e)
    then show ?thesis
      using addr sys_socket_facts [of k]
      by (simp add: create_listening_socket_def no_leak_def case_prod_unfold Let_def)
  next
    case (Inr fd)
    define k1 where "k1 = snd (sys_setsockopt fd ''SO_REUSEADDR'' 1 (snd (sys_socket k)))"
    obtain berr k2 where b: "sys_bind fd addr (word_of_int port) k1 = (berr, k2)" by fastforce
    obtain lerr k3 where l: "sys_listen fd backlog k2 = (lerr, k3)" by fastforce
    obtain nerr k4 where n: "set_nonblocking fd k3 = (nerr, k4)" by fastforce
    have fds: "open_fds k2 = fd # open_fds k" "open_fds k3 = open_fds k2" "open_fds k4 = open_fds k3"
        "bad_close k2 = bad_close k" "bad_close k3 = bad_close k2" "bad_close k4 = bad_close k3"
        "fd \<notin> set (open_fds k)"
      using sys_socket_facts(2) [OF Inr] sys_socket_facts(3) [of k]
        sys_bind_listen_frame(1,4) [of fd addr "word_of_int port" k1]
        sys_bind_listen_frame(2,5) [of fd backlog k2] set_nonblocking_frame(1,3) [of fd k3]
      by (simp_all add: b l n) (simp_all add: k1_def sys_setsockopt_frame)
    have "create_listening_socket host port backlog k =
        (case berr of Some e \<Rightarrow> (Inl (''bind() failed: '' @ strerror k2 e), sys_close fd k2)
         | None \<Rightarrow> case lerr of Some e \<Rightarrow> (Inl (''listen() failed: '' @ strerror k3 e), sys_close fd k3)
         | None \<Rightarrow> case nerr of Some e \<Rightarrow> (Inl (''fcntl(O_NONBLOCK) failed: '' @ strerror k4 e), sys_close fd k4)
         | None \<Rightarrow> (Inr fd, k4))"
      using Inr by (simp add: create_listening_socket_def addr split_beta [where prod = "sys_socket k"]
        Let_def k1_def [symmetric] b l n split: option.split)
    then show ?thesis
      using fds close_fresh [of k2 fd] close_fresh [of k3 fd] close_fresh [of k4 fd]
      by (simp add: no_leak_def split: option.split)
  qed
qed

lemma create_listening_socket_hash: "hash_order (snd (create_listening_socket host port backlog k)) = hash_order k"
  by (simp add: create_listening_socket_def Let_def case_prod_unfold frame_simps split: sum.split option.split)

lemma create_listening_socket_nonneg: "fst (create_listening_socket host port backlog k) = Inr fd \<Longrightarrow> 0 \<le> fd"
  using sys_socket_nonneg [of k]
  by (simp add: create_listening_socket_def Let_def case_prod_unfold split: sum.splits option.splits)

lemma no_leak_connect: "no_leak (connect_to host port k) k"
proof (cases "resolve_ipv4 (if host = [] then ''127.0.0.1'' else host) k")
  case (Inl err)
  then show ?thesis by (simp add: connect_to_def no_leak_def)
next
  case addr: (Inr addr)
  show ?thesis
  proof (cases "fst (sys_socket k)")
    case (Inl e)
    then show ?thesis
      using addr sys_socket_facts [of k]
      by (simp add: connect_to_def no_leak_def case_prod_unfold Let_def)
  next
    case (Inr fd)
    obtain cerr k2 where c: "sys_connect fd addr (word_of_int port) (snd (sys_socket k)) = (cerr, k2)"
      by fastforce
    have "open_fds k2 = fd # open_fds k" "bad_close k2 = bad_close k" "fd \<notin> set (open_fds k)"
      using sys_socket_facts(2) [OF Inr] sys_socket_facts(3) [of k]
        sys_bind_listen_frame(3,6) [of fd addr "word_of_int port" "snd (sys_socket k)"]
      by (simp_all add: c)
    moreover have "connect_to host port k =
        (case cerr of Some e \<Rightarrow> (Inl (''connect() failed: '' @ strerror k2 e), sys_close fd k2)
         | None \<Rightarrow> (Inr fd, k2))"
      using Inr by (simp add: connect_to_def addr split_beta [where prod = "sys_socket k"] Let_def c)
    ultimately show ?thesis
      using close_fresh [of k2 fd] by (simp add: no_leak_def split: option.split)
  qed
qed

text \<open>A world in which every call succeeds, with three descriptors open.\<close>

definition quiet_kernel :: Kernel where
  "quiet_kernel = \<lparr>strerror = (\<lambda>e. []), inet_pton = (\<lambda>h. None), getaddrinfo = (\<lambda>h. Inr 1),
     outcomes = (\<lambda>c. []), send_script = (\<lambda>fd. []), recv_script = (\<lambda>fd. []), accept_script = [],
     wire = (\<lambda>fd. []), open_fds = [0, 1, 2], fd_flags = (\<lambda>fd. 0), sockopts = (\<lambda>fd. Map.empty),
     bound = Map.empty, listening = Map.empty, connected = Map.empty, shutdowns = [],
     bad_close = False, now = 0, hash_order = (\<lambda>fds. fds), poll_script = []\<rparr>"

section \<open>Properties\<close>

text \<open>C39: no descriptor leaks while sockets are created. When creating a listening socket or a
  connected one fails, at whatever call, the open descriptors are the same as before; when it
  succeeds, exactly one new descriptor is open. No descriptor that is not open is ever closed.\<close>

theorem socket_creation_no_leak:
  "(case create_listening_socket host port backlog k of
      (Inl err, k') \<Rightarrow> open_fds k' = open_fds k \<and> bad_close k' = bad_close k
    | (Inr fd, k') \<Rightarrow> open_fds k' = fd # open_fds k \<and> fd \<notin> set (open_fds k) \<and> bad_close k' = bad_close k) \<and>
   (case connect_to host port k of
      (Inl err, k') \<Rightarrow> open_fds k' = open_fds k \<and> bad_close k' = bad_close k
    | (Inr fd, k') \<Rightarrow> open_fds k' = fd # open_fds k \<and> fd \<notin> set (open_fds k) \<and> bad_close k' = bad_close k)"
  using no_leak_create [of host port backlog k] no_leak_connect [of host port k]
  by (simp only: no_leak_def)

text \<open>The listening socket is ready to use. When \<open>create_listening_socket\<close> succeeds, the
  descriptor is bound to the resolved address and the port, listening and non-blocking.\<close>

theorem create_listening_socket_ready:
  assumes "create_listening_socket host port backlog k = (Inr fd, k')"
  shows "\<exists>addr. resolve_ipv4 host k = Inr addr \<and> bound k' fd = Some (addr, word_of_int port) \<and>
    listening k' fd = Some backlog \<and> fd_flags k' fd AND O_NONBLOCK \<noteq> 0"
proof -
  obtain addr where addr: "resolve_ipv4 host k = Inr addr"
    using assms by (auto simp: create_listening_socket_def split: sum.splits)
  have "fst (sys_socket k) = Inr fd"
    using assms addr
    by (auto simp: create_listening_socket_def case_prod_unfold Let_def split: sum.splits option.splits)
  define k1 where "k1 = snd (sys_setsockopt fd ''SO_REUSEADDR'' 1 (snd (sys_socket k)))"
  define k2 where "k2 = snd (sys_bind fd addr (word_of_int port) k1)"
  define k3 where "k3 = snd (sys_listen fd backlog k2)"
  have ok: "fst (sys_bind fd addr (word_of_int port) k1) = None" "fst (sys_listen fd backlog k2) = None"
      "fst (set_nonblocking fd k3) = None" "k' = snd (set_nonblocking fd k3)"
    using assms addr \<open>fst (sys_socket k) = Inr fd\<close>
    by (auto simp: create_listening_socket_def case_prod_unfold Let_def k1_def k2_def k3_def split: option.splits)
  have "bound k2 fd = Some (addr, word_of_int port)"
    using ok(1) by (simp add: k2_def sys_bind_def case_prod_unfold Let_def)
  moreover have "listening k3 fd = Some backlog"
    using ok(2) by (simp add: k3_def sys_listen_def case_prod_unfold Let_def)
  ultimately show ?thesis
    using set_nonblocking_flags(2) [OF ok(3)] by (simp add: addr ok(4) frame_simps k3_def)
qed

theorem create_listening_socket_ready_witness:
  "\<exists>addr. resolve_ipv4 ''localhost'' quiet_kernel = Inr addr \<and>
     bound (snd (create_listening_socket ''localhost'' 8080 128 quiet_kernel)) 3 = Some (addr, 8080) \<and>
     listening (snd (create_listening_socket ''localhost'' 8080 128 quiet_kernel)) 3 = Some 128 \<and>
     fd_flags (snd (create_listening_socket ''localhost'' 8080 128 quiet_kernel)) 3 AND O_NONBLOCK \<noteq> 0"
proof -
  have "fst (create_listening_socket ''localhost'' 8080 128 quiet_kernel) = Inr 3"
    by (simp add: create_listening_socket_def resolve_ipv4_def quiet_kernel_def sys_socket_def outcome_def
        Let_def lowest_free_def open_fd_def sys_setsockopt_def sys_bind_def sys_listen_def set_nonblocking_def)
  then have "create_listening_socket ''localhost'' 8080 128 quiet_kernel =
      (Inr 3, snd (create_listening_socket ''localhost'' 8080 128 quiet_kernel))"
    by (metis prod.collapse)
  from create_listening_socket_ready [OF this] show ?thesis by simp
qed

end
