(* ===== verification/Tcp_Server.thy ===== *)
theory Tcp_Server
  imports Socket_Utils
begin

text \<open>
  The listening socket, \<^verbatim>\<open>src/src/network/tcp_server.hpp\<close> and \<^verbatim>\<open>tcp_server.cpp\<close>.
  \<open>accept_connection\<close> returns the descriptor (or -1) together with the values it writes through its
  pointer arguments. The theory shows that an accepted descriptor is new, non-blocking and never leaked.
\<close>

unbundle bit_operations_syntax

record TCPServer =
  ts_host :: string
  ts_port :: int
  ts_fd :: int
  ts_error :: string

definition new_server :: "string \<Rightarrow> int \<Rightarrow> TCPServer" where
  "new_server host port = \<lparr>ts_host = host, ts_port = port, ts_fd = -1, ts_error = []\<rparr>"

definition start :: "int \<Rightarrow> TCPServer \<Rightarrow> Kernel \<Rightarrow> bool \<times> TCPServer \<times> Kernel" where
  "start backlog srv k =
     (case create_listening_socket (ts_host srv) (ts_port srv) backlog k of
        (Inl err, k) \<Rightarrow> (False, srv\<lparr>ts_fd := -1, ts_error := err\<rparr>, k)
      | (Inr fd, k) \<Rightarrow> (fd \<ge> 0, srv\<lparr>ts_fd := fd\<rparr>, k))"

text \<open>The destructor.\<close>

definition destroy_server :: "TCPServer \<Rightarrow> Kernel \<Rightarrow> Kernel" where
  "destroy_server srv k = (if ts_fd srv \<ge> 0 then sys_close (ts_fd srv) k else k)"

text \<open>What \<open>accept_connection\<close> hands back: its return value, \<^verbatim>\<open>*again\<close>, \<^verbatim>\<open>*exhausted\<close> and
  \<^verbatim>\<open>*peer\<close> (all three pointers are given by its only caller).\<close>

record accepted =
  acc_fd :: int
  acc_again :: bool
  acc_exhausted :: bool
  acc_peer :: string

definition peer_text :: "string option \<Rightarrow> nat \<Rightarrow> string" where
  "peer_text addr port =
     (case addr of Some text \<Rightarrow> text @ '':'' @ to_string (int port) | None \<Rightarrow> ''<unknown>'')"

definition accept_connection :: "TCPServer \<Rightarrow> Kernel \<Rightarrow> accepted \<times> TCPServer \<times> Kernel" where
  "accept_connection srv k =
     (let none = \<lparr>acc_fd = -1, acc_again = False, acc_exhausted = False, acc_peer = []\<rparr>;
          (res, k) = sys_accept k
      in case res of
           Inl e \<Rightarrow>
             (if e = EAGAIN \<or> e = EWOULDBLOCK then (none\<lparr>acc_again := True\<rparr>, srv, k)
              else if e = ECONNABORTED \<or> e = EINTR then (none\<lparr>acc_again := False\<rparr>, srv, k)
              else if e = EMFILE \<or> e = ENFILE \<or> e = ENOBUFS \<or> e = ENOMEM
              then (none\<lparr>acc_exhausted := True\<rparr>, srv\<lparr>ts_error := ''accept() failed: '' @ strerror k e\<rparr>, k)
              else (none, srv\<lparr>ts_error := ''accept() failed: '' @ strerror k e\<rparr>, k))
         | Inr (client_fd, addr, port) \<Rightarrow>
             (let (nerr, k) = set_nonblocking client_fd k
              in case nerr of
                   Some e \<Rightarrow> (none, srv\<lparr>ts_error := ''fcntl(O_NONBLOCK) failed: '' @ strerror k e\<rparr>,
                              sys_close client_fd k)
                 | None \<Rightarrow> (let (_, k) = set_tcp_nodelay client_fd k
                           in (none\<lparr>acc_fd := client_fd, acc_peer := peer_text addr port\<rparr>, srv, k))))"

text \<open>\<^verbatim>\<open>net::peer_name\<close>, on the peer address \<^verbatim>\<open>getpeername\<close> delivers.\<close>

definition peer_name :: "(string option \<times> nat) option \<Rightarrow> string" where
  "peer_name peer = (case peer of None \<Rightarrow> ''<unknown>'' | Some (addr, port) \<Rightarrow> peer_text addr port)"

section \<open>Facts\<close>

lemma sys_accept_frame [frame_simps]:
  "recv_script (snd (sys_accept k)) = recv_script k" "send_script (snd (sys_accept k)) = send_script k"
  "bad_close (snd (sys_accept k)) = bad_close k" "hash_order (snd (sys_accept k)) = hash_order k"
  "now (snd (sys_accept k)) = now k"
  by (simp_all add: sys_accept_def open_fd_def Let_def split: list.split accept_result.split)

lemma sys_accept_script:
  "fst (sys_accept k) \<noteq> Inl EAGAIN \<Longrightarrow> length (accept_script (snd (sys_accept k))) < length (accept_script k)"
  by (auto simp: sys_accept_def open_fd_def Let_def split: list.splits accept_result.splits)

lemma sys_accept_Inl:
  "fst (sys_accept k) = Inl e \<Longrightarrow> open_fds (snd (sys_accept k)) = open_fds k \<and>
     wire (snd (sys_accept k)) = wire k \<and> fd_flags (snd (sys_accept k)) = fd_flags k"
  by (auto simp: sys_accept_def Let_def split: list.splits accept_result.splits)

lemma sys_accept_Inr:
  assumes "fst (sys_accept k) = Inr (fd, addr, port)"
  shows "open_fds (snd (sys_accept k)) = fd # open_fds k" "fd \<notin> set (open_fds k)" "0 \<le> fd"
    "wire (snd (sys_accept k)) = (wire k)(fd := [])"
    "fd_flags (snd (sys_accept k)) = (fd_flags k)(fd := 0)"
  using assms
  by (auto simp: sys_accept_def Let_def open_fd_def lowest_free_fresh split: list.splits accept_result.splits)

text \<open>The two ways \<open>accept_connection\<close> can end.\<close>

lemma accept_connection_none:
  assumes "accept_connection srv k = (a, srv', k')" and "acc_fd a < 0"
  shows "open_fds k' = open_fds k" "bad_close k' = bad_close k"
    "recv_script k' = recv_script k" "send_script k' = send_script k" "hash_order k' = hash_order k"
    "fd \<in> set (open_fds k) \<Longrightarrow> fd_flags k' fd = fd_flags k fd"
    "fd \<in> set (open_fds k) \<Longrightarrow> wire k' fd = wire k fd"
    "ts_fd srv' = ts_fd srv" "now k' = now k"
proof -
  consider (err) e where "fst (sys_accept k) = Inl e"
    | (flag) client addr port e where "fst (sys_accept k) = Inr (client, addr, port)"
        "fst (set_nonblocking client (snd (sys_accept k))) = Some e"
    | (ok) client addr port where "fst (sys_accept k) = Inr (client, addr, port)"
        "fst (set_nonblocking client (snd (sys_accept k))) = None"
    by (metis obj_sumE option.exhaust surj_pair)
  then have "open_fds k' = open_fds k \<and> bad_close k' = bad_close k \<and>
    recv_script k' = recv_script k \<and> send_script k' = send_script k \<and> hash_order k' = hash_order k \<and>
    (fd \<in> set (open_fds k) \<longrightarrow> fd_flags k' fd = fd_flags k fd) \<and>
    (fd \<in> set (open_fds k) \<longrightarrow> wire k' fd = wire k fd) \<and> ts_fd srv' = ts_fd srv \<and> now k' = now k"
  proof cases
    case err
    then have "k' = snd (sys_accept k) \<and> ts_fd srv' = ts_fd srv"
      using assms(1) by (auto simp: accept_connection_def case_prod_unfold Let_def split: if_splits)
    with sys_accept_Inl [OF err] show ?thesis by (simp add: frame_simps)
  next
    case flag
    define k1 where "k1 = snd (set_nonblocking client (snd (sys_accept k)))"
    have k': "k' = sys_close client k1 \<and> ts_fd srv' = ts_fd srv"
      using assms(1) flag by (auto simp: accept_connection_def case_prod_unfold Let_def k1_def)
    have "open_fds k1 = client # open_fds k" "client \<notin> set (open_fds k)" "bad_close k1 = bad_close k"
      using sys_accept_Inr [OF flag(1)] by (simp_all add: k1_def frame_simps)
    moreover have "fd \<noteq> client" if "fd \<in> set (open_fds k)" using that sys_accept_Inr(2) [OF flag(1)] by auto
    ultimately show ?thesis
      using close_fresh [of k1 client] set_nonblocking_flags(1) [of fd client]
        sys_accept_Inr(4,5) [OF flag(1)]
      by (auto simp: k' frame_simps) (auto simp: k1_def frame_simps)
  next
    case ok
    then have "acc_fd a = client"
      using assms(1) by (auto simp: accept_connection_def case_prod_unfold Let_def)
    with sys_accept_Inr(3) [OF ok(1)] assms(2) show ?thesis by simp
  qed
  then show "open_fds k' = open_fds k" "bad_close k' = bad_close k"
    "recv_script k' = recv_script k" "send_script k' = send_script k" "hash_order k' = hash_order k"
    "fd \<in> set (open_fds k) \<Longrightarrow> fd_flags k' fd = fd_flags k fd"
    "fd \<in> set (open_fds k) \<Longrightarrow> wire k' fd = wire k fd"
    "ts_fd srv' = ts_fd srv" "now k' = now k" by blast+
qed

lemma accept_connection_some:
  assumes "accept_connection srv k = (a, srv', k')" and "0 \<le> acc_fd a"
  shows "open_fds k' = acc_fd a # open_fds k" "acc_fd a \<notin> set (open_fds k)" "bad_close k' = bad_close k"
    "recv_script k' = recv_script k" "send_script k' = send_script k" "hash_order k' = hash_order k"
    "fd \<noteq> acc_fd a \<Longrightarrow> fd_flags k' fd = fd_flags k fd"
    "fd_flags k' (acc_fd a) AND O_NONBLOCK \<noteq> 0"
    "wire k' = (wire k)(acc_fd a := [])" "srv' = srv"
    "length (accept_script k') < length (accept_script k)" "now k' = now k"
proof -
  obtain client addr port where acc: "fst (sys_accept k) = Inr (client, addr, port)"
    using assms by (cases "fst (sys_accept k)")
      (auto simp: accept_connection_def case_prod_unfold Let_def split: if_splits)
  have nb: "fst (set_nonblocking client (snd (sys_accept k))) = None"
    using assms acc by (cases "fst (set_nonblocking client (snd (sys_accept k)))")
      (auto simp: accept_connection_def case_prod_unfold Let_def)
  have eq: "acc_fd a = client" "srv' = srv"
      "k' = snd (set_tcp_nodelay client (snd (set_nonblocking client (snd (sys_accept k)))))"
    using assms(1) acc nb by (auto simp: accept_connection_def case_prod_unfold Let_def)
  note facts = sys_accept_Inr [OF acc] sys_accept_script [of k]
    set_nonblocking_flags(1) [of fd client] set_nonblocking_flags(2) [OF nb]
  show "open_fds k' = acc_fd a # open_fds k" "acc_fd a \<notin> set (open_fds k)" "bad_close k' = bad_close k"
    "recv_script k' = recv_script k" "send_script k' = send_script k" "hash_order k' = hash_order k"
    "fd \<noteq> acc_fd a \<Longrightarrow> fd_flags k' fd = fd_flags k fd"
    "fd_flags k' (acc_fd a) AND O_NONBLOCK \<noteq> 0"
    "wire k' = (wire k)(acc_fd a := [])" "srv' = srv"
    "length (accept_script k') < length (accept_script k)" "now k' = now k"
    using facts by (simp_all add: eq acc frame_simps)
qed

section \<open>Properties\<close>

text \<open>No connection leaks while it is accepted. Either nothing is returned and the open
  descriptors are as before (also when the non-blocking mode cannot be set), or the returned
  descriptor is the one new open descriptor, is in non-blocking mode and starts with an empty
  stream; the other descriptors keep their mode and their bytes.\<close>

theorem accept_connection_no_leak:
  assumes "accept_connection srv k = (a, srv', k')"
  shows "acc_fd a < 0 \<and> open_fds k' = open_fds k \<and> bad_close k' = bad_close k \<or>
    0 \<le> acc_fd a \<and> open_fds k' = acc_fd a # open_fds k \<and> acc_fd a \<notin> set (open_fds k) \<and>
    bad_close k' = bad_close k \<and> fd_flags k' (acc_fd a) AND O_NONBLOCK \<noteq> 0 \<and> wire k' (acc_fd a) = [] \<and>
    (\<forall>fd. fd \<noteq> acc_fd a \<longrightarrow> fd_flags k' fd = fd_flags k fd \<and> wire k' fd = wire k fd)"
proof (cases "acc_fd a < 0")
  case True
  then show ?thesis using accept_connection_none(1,2) [OF assms] by simp
next
  case False
  then have "0 \<le> acc_fd a" by simp
  from accept_connection_some [OF assms this] False show ?thesis by (auto split: if_splits)
qed

theorem accept_connection_no_leak_witness:
  "\<exists>a srv' k'. accept_connection (new_server ''h'' 1)
      (quiet_kernel\<lparr>accept_script := [Connection (Some ''127.0.0.1'') 40000]\<rparr>) = (a, srv', k') \<and>
     acc_fd a = 3 \<and> acc_peer a = ''127.0.0.1:40000'' \<and> open_fds k' = [3, 0, 1, 2]"
proof -
  let ?k = "quiet_kernel\<lparr>accept_script := [Connection (Some ''127.0.0.1'') 40000]\<rparr>"
  obtain a srv' k' where acc: "accept_connection (new_server ''h'' 1) ?k = (a, srv', k')"
    by (metis surj_pair)
  then have "acc_fd a = 3 \<and> acc_peer a = ''127.0.0.1:40000''"
    by (auto simp: accept_connection_def sys_accept_def quiet_kernel_def lowest_free_def Let_def
        set_nonblocking_def outcome_def set_tcp_nodelay_def sys_setsockopt_def open_fd_def peer_text_def
        to_string_def nat_digits.simps digit_char_def char_of_def bit_Suc_0_iff)
  with accept_connection_no_leak [OF acc] acc show ?thesis
    by (simp add: quiet_kernel_def)
qed

end
