(* ===== verification/Server_State.thy ===== *)
theory Server_State
  imports Order_Book Message_Parser Event_Loop Client_Session Tcp_Server
begin

text \<open>
  The state of the exchange server and the operations that every handler uses,
  \<^verbatim>\<open>src/src/exchange_server.cpp\<close>: constants, the members of \<^verbatim>\<open>ExchangeServer\<close>, dropping a
  client, the deferred closing of descriptors, the output path and the orderly close.

  Printing is modelled by appending to \<open>console\<close> one string per line printed (standard output and standard
  error alike); flushing the stream is not. A \<^verbatim>\<open>ClientSession&\<close> is the value of the session,
  written back to its entry of the map with \<open>put_session\<close> before anything else can read it. Monotonic time
  is counted in nanoseconds.

  The theory shows that the bytes handed to the kernel followed by those still queued are always
  what was queued (\<open>write_pending_stream\<close>), and gives the normal form of \<open>flush\<close> from which
  the later theories derive what sending keeps (\<open>flush_cases\<close>).
\<close>

definition kMaxLineBytes :: nat where "kMaxLineBytes = 64 * 1024"
definition kMaxOutputBytes :: nat where "kMaxOutputBytes = 16 * 1024 * 1024"
definition kReadChunk :: nat where "kReadChunk = 65536"
definition kAcceptBackoff :: nat where "kAcceptBackoff = 1000000000"
definition kVerboseConnectionLimit :: nat where "kVerboseConnectionLimit = 64"
definition kConnectionLogInterval :: nat where "kConnectionLogInterval = 1000"

text \<open>The event loop as its constructor makes it, and its destructor.\<close>

definition open_loop :: "bool \<Rightarrow> Backend \<Rightarrow> (errno \<times> nat) option list \<Rightarrow> Kernel \<Rightarrow> EventLoop \<times> Kernel" where
  "open_loop have_kq b script k =
     (if have_kq \<and> b = Kqueue
      then (let (r, k) = sys_kqueue k in (new_loop have_kq (case r of Inl _ \<Rightarrow> -1 | Inr fd \<Rightarrow> fd) b script, k))
      else (new_loop have_kq (-1) b script, k))"

definition destroy_loop :: "EventLoop \<Rightarrow> Kernel \<Rightarrow> Kernel" where
  "destroy_loop l k = (if kq_fd l \<ge> 0 then sys_close (kq_fd l) k else k)"

text \<open>The members of the class, with the world it runs in (\<open>kern\<close>) and what it has printed.
  \<open>accept_resume_at\<close> is 0 while accepting is not suspended.\<close>

record Server =
  listener :: TCPServer
  event_loop :: EventLoop
  verbose :: bool
  send_buffer_bytes :: int
  sessions :: "(int \<times> ClientSession) list"
  subscribers :: "string \<rightharpoonup> int list"
  usernames :: "string list"
  closed_fds :: "int list"
  book :: OrderBook
  accept_resume_at :: nat
  kern :: Kernel
  console :: "string list"

definition new_exchange :: "string \<Rightarrow> int \<Rightarrow> EventLoop \<Rightarrow> bool \<Rightarrow> int \<Rightarrow> Kernel \<Rightarrow> Server" where
  "new_exchange host port l verbose_flag sndbuf k =
     \<lparr>listener = new_server host port, event_loop = l, verbose = verbose_flag, send_buffer_bytes = sndbuf,
      sessions = [], subscribers = Map.empty, usernames = [], closed_fds = [], book = empty_book,
      accept_resume_at = 0, kern = k, console = []\<rparr>"

abbreviation session :: "Server \<Rightarrow> int \<Rightarrow> ClientSession option" where
  "session s fd \<equiv> map_of (sessions s) fd"

abbreviation put_session :: "int \<Rightarrow> ClientSession \<Rightarrow> Server \<Rightarrow> Server" where
  "put_session fd ss s \<equiv> s\<lparr>sessions := AList.update fd ss (sessions s)\<rparr>"

text \<open>\<^verbatim>\<open>subscribers_[instrument]\<close>: an entry that is missing springs up empty.\<close>

definition subscribed :: "string \<Rightarrow> (string \<rightharpoonup> int list) \<Rightarrow> int list" where
  "subscribed i subs = (case subs i of Some fds \<Rightarrow> fds | None \<Rightarrow> [])"

definition say :: "string \<Rightarrow> Server \<Rightarrow> Server" where
  "say line s = s\<lparr>console := console s @ [line]\<rparr>"

definition quoted :: "string \<Rightarrow> string" where
  "quoted x = [CHR 0x27] @ x @ [CHR 0x27]"

section \<open>Connection lifecycle\<close>

definition log_connection_count :: "string \<Rightarrow> nat \<Rightarrow> Server \<Rightarrow> Server" where
  "log_connection_count message clients s =
     (let verbose_scale = (clients \<le> kVerboseConnectionLimit)
      in if \<not> verbose_scale \<and> clients mod kConnectionLogInterval \<noteq> 0 then s
         else say (c_str message @ '' ('' @ to_string (int clients) @ '' clients)'') s)"

definition erase_subscriber :: "int \<Rightarrow> string \<Rightarrow> (string \<rightharpoonup> int list) \<Rightarrow> string \<rightharpoonup> int list" where
  "erase_subscriber fd i subs = subs(i \<mapsto> removeAll fd (subscribed i subs))"

definition drop_fd :: "int \<Rightarrow> string \<Rightarrow> Server \<Rightarrow> Server" where
  "drop_fd fd reason s =
     (case session s fd of
        None \<Rightarrow> s
      | Some ss \<Rightarrow>
          (let s = s\<lparr>subscribers := fold (erase_subscriber fd) (subscriptions ss) (subscribers s)\<rparr>;
               s = (if logged_in ss then s\<lparr>usernames := removeAll (username ss) (usernames s)\<rparr> else s);
               s = s\<lparr>book := remove_orders_of fd (book s)\<rparr>;
               s = log_connection_count
                     (''[-] connection closed: '' @ session_label ss @ '' - '' @ reason)
                     (length (sessions s) - 1) s;
               s = s\<lparr>sessions := AList.delete fd (sessions s)\<rparr>;
               s = s\<lparr>event_loop := loop_remove fd (event_loop s)\<rparr>
           in s\<lparr>closed_fds := closed_fds s @ [fd]\<rparr>))"

definition reap_closed :: "Server \<Rightarrow> Server" where
  "reap_closed s = s\<lparr>kern := fold sys_close (closed_fds s) (kern s), closed_fds := []\<rparr>"

text \<open>The connections are closed in the iteration order of the hash map.\<close>

definition shutdown_all :: "Server \<Rightarrow> Server" where
  "shutdown_all s =
     (let s = say (''Exchange Server shutting down; closing '' @ to_string (int (length (sessions s))) @
                   '' connection(s).'') s;
          order = hash_order (kern s) (map fst (sessions s));
          k = fold (\<lambda>fd k. sys_close fd (sys_shutdown fd SHUT_RDWR k)) order (kern s)
      in reap_closed (s\<lparr>kern := k, sessions := []\<rparr>))"

section \<open>Output path\<close>

text \<open>The loop of \<^verbatim>\<open>flush\<close>. \<open>Gone e\<close> is the way out that drops the client; when \<^verbatim>\<open>send\<close>
  returns 0 \<^verbatim>\<open>errno\<close> is not set, which only the printed reason shows (\<^term>\<open>EOTHER 0\<close>).\<close>

datatype write_status = Flushed | Gone errno

lemma sys_send_script:
  "fst (sys_send fd bs k) \<noteq> SendError EAGAIN \<Longrightarrow>
     length (send_script (snd (sys_send fd bs k)) fd) < length (send_script k fd)"
  by (auto simp: sys_send_def Let_def split: list.splits send_result.splits)

function write_pending :: "ClientSession \<Rightarrow> Kernel \<Rightarrow> write_status \<times> ClientSession \<times> Kernel" where
  "write_pending ss k =
     (if \<not> has_pending_output ss then (Flushed, ss, k)
      else let r = sys_send (s_fd ss) (pending ss) k; k' = snd r
           in case fst r of
                Written n \<Rightarrow>
                  (if n > 0 then write_pending (ss\<lparr>out_start := out_start ss + n\<rparr>) k'
                   else (Gone (EOTHER 0), ss, k'))
              | SendError e \<Rightarrow>
                  (if e = EINTR then write_pending ss k'
                   else if e = EAGAIN \<or> e = EWOULDBLOCK then (Flushed, ss, k')
                   else (Gone e, ss, k')))"
  by pat_completeness auto

termination
  by (relation "measure (\<lambda>(ss, k). length (send_script k (s_fd ss)))")
    (auto intro: sys_send_script)

declare write_pending.simps [simp del]

text \<open>The consumed prefix is reclaimed when everything is written or when it has grown large.\<close>

definition reclaim :: "ClientSession \<Rightarrow> ClientSession" where
  "reclaim ss =
     (if \<not> has_pending_output ss then ss\<lparr>outbuf := [], out_start := 0\<rparr>
      else if out_start ss > kReadChunk
      then ss\<lparr>outbuf := drop (out_start ss) (outbuf ss), out_start := 0\<rparr>
      else ss)"

definition note_backlog :: "ClientSession \<Rightarrow> Server \<Rightarrow> ClientSession \<times> Server" where
  "note_backlog ss s =
     (let n = pending_bytes ss
      in if n > 0 \<and> \<not> backlogged ss
         then (ss\<lparr>backlogged := True\<rparr>,
               say (''[!] '' @ c_str (session_label ss) @ '' is not draining its socket; buffering output (backlog now ''
                    @ to_string (int n) @ '' bytes)'') s)
         else if n = 0 \<and> backlogged ss
         then (ss\<lparr>backlogged := False\<rparr>, say (''[ ] '' @ c_str (session_label ss) @ '' drained its backlog'') s)
         else (ss, s))"

text \<open>\<open>fd\<close> is the key of the map entry that the reference \<^verbatim>\<open>session\<close> points into.\<close>

definition flush :: "int \<Rightarrow> ClientSession \<Rightarrow> Server \<Rightarrow> Server" where
  "flush fd ss s =
     (case write_pending ss (kern s) of
        (Gone e, ss, k) \<Rightarrow>
          drop_fd (s_fd ss) (''send() failed: '' @ strerror k e) (put_session fd ss (s\<lparr>kern := k\<rparr>))
      | (Flushed, ss, k) \<Rightarrow>
          (let s = s\<lparr>kern := k\<rparr>;
               ss = reclaim ss;
               n = pending_bytes ss
           in if n > kMaxOutputBytes
              then drop_fd (s_fd ss) (''output backlog exceeded '' @ to_string (int kMaxOutputBytes) @
                     '' bytes (client is not reading)'') (put_session fd ss s)
              else
                (let (ss, s) = note_backlog ss s
                 in if n = 0 \<and> closing ss
                    then drop_fd (s_fd ss) ''orderly close completed after flushing output'' (put_session fd ss s)
                    else
                      (let want_read = (\<not> closing ss); want_write = (n > 0)
                       in if want_read \<noteq> read_interest ss \<or> want_write \<noteq> write_interest ss
                          then put_session fd (ss\<lparr>read_interest := want_read, write_interest := want_write\<rparr>)
                                 (s\<lparr>event_loop := snd (loop_update (s_fd ss) want_read want_write (event_loop s))\<rparr>)
                          else put_session fd ss s))))"

definition send_to :: "int \<Rightarrow> string \<Rightarrow> Server \<Rightarrow> Server" where
  "send_to fd message s =
     (case session s fd of
        None \<Rightarrow> s
      | Some ss \<Rightarrow> flush fd (ss\<lparr>outbuf := outbuf ss @ message\<rparr>) s)"

definition on_writable :: "int \<Rightarrow> Server \<Rightarrow> Server" where
  "on_writable fd s = (case session s fd of None \<Rightarrow> s | Some ss \<Rightarrow> flush fd ss s)"

definition begin_orderly_close :: "int \<Rightarrow> string \<Rightarrow> Server \<Rightarrow> Server" where
  "begin_orderly_close fd reason s =
     (case session s fd of
        None \<Rightarrow> s
      | Some ss \<Rightarrow>
          (let ss = ss\<lparr>closing := True, inbuf := []\<rparr>; s = put_session fd ss s
           in if \<not> has_pending_output ss then drop_fd fd reason s
              else (let s = s\<lparr>kern := sys_shutdown fd SHUT_RD (kern s)\<rparr>
                    in put_session fd (ss\<lparr>read_interest := False, write_interest := True\<rparr>)
                         (s\<lparr>event_loop := snd (loop_update fd False True (event_loop s))\<rparr>))))"

section \<open>What writing does\<close>

text \<open>Writing advances \<open>out_start\<close> of the session and touches nothing of the world but this
  descriptor's stream and script.\<close>

lemma sys_send_form:
  "\<exists>sc w. snd (sys_send fd bs k) = k\<lparr>send_script := (send_script k)(fd := sc), wire := (wire k)(fd := w)\<rparr>"
proof (cases "send_script k fd")
  case Nil
  then have "snd (sys_send fd bs k) = k" by (simp add: sys_send_def)
  moreover have "k = k\<lparr>send_script := (send_script k)(fd := send_script k fd), wire := (wire k)(fd := wire k fd)\<rparr>"
    by simp
  ultimately show ?thesis by metis
next
  case (Cons r rest)
  show ?thesis
  proof (cases r)
    case (Written n)
    with Cons show ?thesis by (auto simp: sys_send_def Let_def)
  next
    case (SendError e)
    with Cons have "snd (sys_send fd bs k) =
        k\<lparr>send_script := (send_script k)(fd := rest), wire := (wire k)(fd := wire k fd)\<rparr>"
      by (simp add: sys_send_def)
    then show ?thesis by blast
  qed
qed

lemma sys_send_wire:
  "wire (snd (sys_send fd bs k)) fd =
     wire k fd @ (case fst (sys_send fd bs k) of Written n \<Rightarrow> take n bs | SendError e \<Rightarrow> [])"
  "fst (sys_send fd bs k) = Written n \<Longrightarrow> n \<le> length bs"
  by (auto simp: sys_send_def Let_def split: list.splits send_result.splits)

definition advances :: "ClientSession \<Rightarrow> Kernel \<Rightarrow> ClientSession \<times> Kernel \<Rightarrow> bool" where
  "advances ss k p \<longleftrightarrow>
     (\<exists>n sc w. p = (ss\<lparr>out_start := n\<rparr>,
        k\<lparr>send_script := (send_script k)(s_fd ss := sc), wire := (wire k)(s_fd ss := w)\<rparr>))"

lemma advances_send: "advances ss k (ss, snd (sys_send (s_fd ss) bs k))"
proof -
  have "ss = ss\<lparr>out_start := out_start ss\<rparr>" by simp
  then show ?thesis
    using sys_send_form [of "s_fd ss" bs k] unfolding advances_def by metis
qed

lemma advances_refl: "advances ss k (ss, k)"
proof -
  have "(ss, k) = (ss\<lparr>out_start := out_start ss\<rparr>,
      k\<lparr>send_script := (send_script k)(s_fd ss := send_script k (s_fd ss)), wire := (wire k)(s_fd ss := wire k (s_fd ss))\<rparr>)"
    by simp
  then show ?thesis unfolding advances_def by blast
qed

lemma advances_trans:
  assumes "advances ss k (ss1, k1)" and "advances (ss1\<lparr>out_start := m\<rparr>) k1 p"
  shows "advances ss k p"
proof -
  obtain n sc w where 1: "ss1 = ss\<lparr>out_start := n\<rparr>"
      "k1 = k\<lparr>send_script := (send_script k)(s_fd ss := sc), wire := (wire k)(s_fd ss := w)\<rparr>"
    using assms(1) by (auto simp: advances_def)
  obtain n' sc' w' where "p = (ss1\<lparr>out_start := m, out_start := n'\<rparr>,
      k1\<lparr>send_script := (send_script k1)(s_fd ss1 := sc'), wire := (wire k1)(s_fd ss1 := w')\<rparr>)"
    using assms(2) by (auto simp: advances_def)
  then have "p = (ss\<lparr>out_start := n'\<rparr>,
      k\<lparr>send_script := (send_script k)(s_fd ss := sc'), wire := (wire k)(s_fd ss := w')\<rparr>)"
    by (simp add: 1)
  then show ?thesis unfolding advances_def by blast
qed

text \<open>The loop by cases: nothing left to write, a write that took something, an interruption, and the ways out.\<close>

lemma write_pending_induct [case_names empty wrote again stop]:
  assumes "\<And>ss k. \<not> has_pending_output ss \<Longrightarrow> write_pending ss k = (Flushed, ss, k) \<Longrightarrow> P ss k"
    and "\<And>ss k n k'. has_pending_output ss \<Longrightarrow> sys_send (s_fd ss) (pending ss) k = (Written n, k') \<Longrightarrow> 0 < n \<Longrightarrow>
      write_pending ss k = write_pending (ss\<lparr>out_start := out_start ss + n\<rparr>) k' \<Longrightarrow> P (ss\<lparr>out_start := out_start ss + n\<rparr>) k' \<Longrightarrow> P ss k"
    and "\<And>ss k k'. has_pending_output ss \<Longrightarrow> sys_send (s_fd ss) (pending ss) k = (SendError EINTR, k') \<Longrightarrow>
      write_pending ss k = write_pending ss k' \<Longrightarrow> P ss k' \<Longrightarrow> P ss k"
    and "\<And>ss k r k'. has_pending_output ss \<Longrightarrow> sys_send (s_fd ss) (pending ss) k = (r, k') \<Longrightarrow>
      r \<noteq> SendError EINTR \<Longrightarrow> (\<And>n. r = Written n \<Longrightarrow> n = 0) \<Longrightarrow>
      write_pending ss k = (if r = SendError EAGAIN \<or> r = SendError EWOULDBLOCK then Flushed
        else Gone (case r of SendError e \<Rightarrow> e | Written n \<Rightarrow> EOTHER 0), ss, k') \<Longrightarrow> P ss k"
  shows "P ss k"
proof (induction ss k rule: write_pending.induct)
  case (1 ss k)
  obtain r k' where r: "sys_send (s_fd ss) (pending ss) k = (r, k')" by fastforce
  note form = write_pending.simps [of ss k, unfolded Let_def r fst_conv snd_conv]
  show ?case
  proof (cases "has_pending_output ss")
    case False
    then show ?thesis by (intro assms(1)) (simp_all add: form)
  next
    case True
    note IH = 1(1,2) [OF _ r [symmetric] refl, unfolded fst_conv snd_conv]
    consider (wrote) n where "r = Written n" "0 < n" | (again) "r = SendError EINTR"
      | (stop) "r \<noteq> SendError EINTR" "\<And>n. r = Written n \<Longrightarrow> n = 0" by fastforce
    then show ?thesis
    proof cases
      case wrote
      with True r IH(1) show ?thesis by (intro assms(2) [of ss k n k']) (simp_all add: form)
    next
      case again
      with True r IH(2) show ?thesis by (intro assms(3) [of ss k k']) (simp_all add: form)
    next
      case stop
      with True r show ?thesis by (intro assms(4) [of ss k r k']) (auto simp: form split: send_result.split)
    qed
  qed
qed

lemma write_pending_form: "advances ss k (snd (write_pending ss k))"
proof (induction ss k rule: write_pending_induct)
  case (empty ss k)
  then show ?case by (simp add: advances_refl)
next
  case (wrote ss k n k')
  with advances_send [of ss k "pending ss"] show ?case by (auto intro: advances_trans)
next
  case (again ss k k')
  with advances_send [of ss k "pending ss"] advances_trans [of ss k ss k' "out_start ss"] show ?case by simp
next
  case (stop ss k r k')
  with advances_send [of ss k "pending ss"] show ?case by simp
qed

text \<open>The stream: what the kernel has taken and what is still queued, together, do not change.\<close>

lemma write_pending_stream:
  assumes "out_start ss \<le> length (outbuf ss)" and "write_pending ss k = (st, ss', k')"
  shows "wire k' (s_fd ss) @ pending ss' = wire k (s_fd ss) @ pending ss \<and> out_start ss' \<le> length (outbuf ss)"
  using assms
proof (induction ss k rule: write_pending_induct)
  case (wrote ss k n k1)
  have wire: "wire k1 (s_fd ss) = wire k (s_fd ss) @ take n (pending ss)" "n \<le> pending_bytes ss"
    using sys_send_wire [of "s_fd ss" "pending ss" k] wrote(2) by simp_all
  then have le: "out_start ss + n \<le> length (outbuf ss)" using wrote(6) by (simp add: pending_bytes_def)
  have "take n (pending ss) @ drop (out_start ss + n) (outbuf ss) = pending ss"
    by (simp add: pending_def add.commute flip: drop_drop)
  with wrote(5) le wrote(4,7) wire(1) show ?case by (simp add: pending_def)
next
  case (again ss k k1)
  with sys_send_wire(1) [of "s_fd ss" "pending ss" k] show ?case by simp
next
  case (stop ss k r k1)
  with sys_send_wire(1) [of "s_fd ss" "pending ss" k] show ?case by (cases r) auto
qed simp

text \<open>The results of \<^verbatim>\<open>send\<close> used up by the loop; it gives up only after one that is a failure.\<close>

lemma write_pending_used:
  assumes "write_pending ss k = (st, ss', k')"
  shows "\<exists>used. send_script k (s_fd ss) = used @ send_script k' (s_fd ss) \<and> (st \<noteq> Flushed \<longrightarrow> \<not> list_all benign used)"
  using assms
proof (induction ss k rule: write_pending_induct)
  case (wrote ss k n k1)
  obtain r where "send_script k (s_fd ss) = r # send_script k1 (s_fd ss)" using sys_send_used [OF wrote(2)] wrote(1,3) by auto
  with wrote(4-6) show ?case by (force intro: exI [of _ "r # used" for used])
next
  case (again ss k k1)
  obtain r where "send_script k (s_fd ss) = r # send_script k1 (s_fd ss)" using sys_send_used [OF again(2)] again(1) by auto
  with again(3-5) show ?case by (force intro: exI [of _ "r # used" for used])
next
  case (stop ss k r k1)
  have "pending ss \<noteq> []" using stop(1) by (auto simp: has_pending_output_def simp flip: length_pending)
  with sys_send_used [OF stop(2)] stop(3-6) show ?case by (cases r) (auto split: if_splits)
qed auto

section \<open>What flushing does\<close>

text \<open>Two states of a session that differ in the output path only.\<close>

definition same_client :: "ClientSession \<Rightarrow> ClientSession \<Rightarrow> bool" where
  "same_client ss ss' \<longleftrightarrow>
     s_fd ss' = s_fd ss \<and> role ss' = role ss \<and> inbuf ss' = inbuf ss \<and> closing ss' = closing ss \<and>
     peer ss' = peer ss \<and> username ss' = username ss \<and> logged_in ss' = logged_in ss \<and>
     subscriptions ss' = subscriptions ss"

text \<open>The output path of a session is at rest: the counters fit the buffer, the backlog is within its
  limit, a drained buffer is empty, and the flags say whether anything is queued.\<close>

definition settled_output :: "ClientSession \<Rightarrow> bool" where
  "settled_output ss \<longleftrightarrow>
     out_start ss \<le> length (outbuf ss) \<and> out_start ss \<le> kReadChunk \<and> pending_bytes ss \<le> kMaxOutputBytes \<and>
     (\<not> has_pending_output ss \<longrightarrow> outbuf ss = []) \<and>
     backlogged ss = has_pending_output ss \<and> write_interest ss = has_pending_output ss \<and>
     read_interest ss = (\<not> closing ss) \<and> (closing ss \<longrightarrow> has_pending_output ss)"

lemma reclaim_facts:
  shows "pending (reclaim ss) = pending ss" and "same_client ss (reclaim ss)"
    and "out_start (reclaim ss) \<le> length (outbuf (reclaim ss))" and "out_start (reclaim ss) \<le> kReadChunk"
    and "\<not> has_pending_output (reclaim ss) \<longrightarrow> outbuf (reclaim ss) = []"
    and "read_interest (reclaim ss) = read_interest ss" and "write_interest (reclaim ss) = write_interest ss"
  by (auto simp: reclaim_def pending_def has_pending_output_def pending_bytes_def same_client_def)

lemma note_backlog_form:
  "\<exists>c. note_backlog ss s = (ss\<lparr>backlogged := has_pending_output ss\<rparr>, s\<lparr>console := c\<rparr>)"
proof -
  show ?thesis
  proof (cases "backlogged ss = has_pending_output ss")
    case True
    then have "note_backlog ss s = (ss, s)" by (auto simp: note_backlog_def Let_def has_pending_output_def)
    then show ?thesis by (intro exI [of _ "console s"]) (simp flip: True)
  next
    case False
    then show ?thesis
      by (auto simp: note_backlog_def say_def Let_def has_pending_output_def)
  qed
qed

lemma write_pending_same:
  assumes "write_pending ss k = (st, ss', k')"
  shows "same_client ss ss'" "outbuf ss' = outbuf ss" "read_interest ss' = read_interest ss"
    "write_interest ss' = write_interest ss" "backlogged ss' = backlogged ss"
  using write_pending_form [of ss k] assms by (auto simp: advances_def same_client_def)

text \<open>The normal form of \<^verbatim>\<open>flush\<close> when no write failed.\<close>

lemma flush_form:
  assumes wp: "write_pending ss (kern s) = (Flushed, ss1, k)" and ss2: "ss2 = reclaim ss1"
    and ss3: "ss3 = ss2\<lparr>backlogged := has_pending_output ss2\<rparr>" and r: "r = (\<not> closing ss)" and w: "w = (pending_bytes ss2 > 0)"
  obtains c where "flush fd ss s =
     (if pending_bytes ss2 > kMaxOutputBytes
      then drop_fd (s_fd ss) (''output backlog exceeded '' @ to_string (int kMaxOutputBytes) @
             '' bytes (client is not reading)'') (put_session fd ss2 (s\<lparr>kern := k\<rparr>))
      else if pending_bytes ss2 = 0 \<and> closing ss
      then drop_fd (s_fd ss) ''orderly close completed after flushing output'' (put_session fd ss3 (s\<lparr>kern := k, console := c\<rparr>))
      else if r \<noteq> read_interest ss \<or> w \<noteq> write_interest ss
      then put_session fd (ss3\<lparr>read_interest := r, write_interest := w\<rparr>)
             (s\<lparr>kern := k, console := c, event_loop := snd (loop_update (s_fd ss) r w (event_loop s))\<rparr>)
      else put_session fd ss3 (s\<lparr>kern := k, console := c\<rparr>))"
proof -
  note rec = reclaim_facts [of ss1, folded ss2]
  note same1 = write_pending_same [OF wp]
  have fds: "s_fd ss3 = s_fd ss" "s_fd ss2 = s_fd ss" "closing ss3 = closing ss" "read_interest ss3 = read_interest ss"
      "write_interest ss3 = write_interest ss"
    using rec(2,6,7) same1 by (simp_all add: same_client_def ss3)
  obtain c where "note_backlog ss2 (s\<lparr>kern := k\<rparr>) = (ss3, s\<lparr>kern := k, console := c\<rparr>)"
    using note_backlog_form [of ss2 "s\<lparr>kern := k\<rparr>"] by (auto simp: ss3)
  then show thesis
    by (intro that [of c]) (simp add: flush_def wp ss2 [symmetric] Let_def fds r w)
qed

text \<open>Flushing keeps the client with its output path at rest, or drops it: because a write failed, because too much is
  queued, or because the last output before an orderly close is out.\<close>

lemma flush_cases:
  obtains (kept) ss' k c l where
      "flush fd ss s = put_session fd ss' (s\<lparr>kern := k, console := c, event_loop := l\<rparr>)"
      "same_client ss ss'" "settled_output ss'" "k = snd (snd (write_pending ss (kern s)))"
      "l = (if read_interest ss' = read_interest ss \<and> write_interest ss' = write_interest ss then event_loop s
            else snd (loop_update (s_fd ss) (read_interest ss') (write_interest ss') (event_loop s)))"
      "pending ss' = pending (fst (snd (write_pending ss (kern s))))"
  | (gone) reason ss' k c where
      "flush fd ss s = drop_fd (s_fd ss) reason (put_session fd ss' (s\<lparr>kern := k, console := c\<rparr>))"
      "same_client ss ss'" "k = snd (snd (write_pending ss (kern s)))"
      "fst (write_pending ss (kern s)) = Flushed \<Longrightarrow>
         pending_bytes (fst (snd (write_pending ss (kern s)))) > kMaxOutputBytes \<or>
         pending_bytes (fst (snd (write_pending ss (kern s)))) = 0 \<and> closing ss"
proof -
  obtain st ss1 k where wp: "write_pending ss (kern s) = (st, ss1, k)" by (metis surj_pair)
  note same1 = write_pending_same [OF wp]
  show thesis
  proof (cases st)
    case (Gone e)
    then have "flush fd ss s = drop_fd (s_fd ss) (''send() failed: '' @ strerror k e)
        (put_session fd ss1 (s\<lparr>kern := k, console := console s\<rparr>))"
      using same1 by (simp add: flush_def wp same_client_def)
    then show thesis by (rule gone) (simp_all add: same1 wp Gone)
  next
    case Flushed
    define ss2 where "ss2 = reclaim ss1"
    define ss3 where "ss3 = ss2\<lparr>backlogged := has_pending_output ss2\<rparr>"
    define r w where "r = (\<not> closing ss)" and "w = (pending_bytes ss2 > 0)"
    obtain c where form: "flush fd ss s =
       (if pending_bytes ss2 > kMaxOutputBytes
        then drop_fd (s_fd ss) (''output backlog exceeded '' @ to_string (int kMaxOutputBytes) @
               '' bytes (client is not reading)'') (put_session fd ss2 (s\<lparr>kern := k\<rparr>))
        else if pending_bytes ss2 = 0 \<and> closing ss
        then drop_fd (s_fd ss) ''orderly close completed after flushing output'' (put_session fd ss3 (s\<lparr>kern := k, console := c\<rparr>))
        else if r \<noteq> read_interest ss \<or> w \<noteq> write_interest ss
        then put_session fd (ss3\<lparr>read_interest := r, write_interest := w\<rparr>)
               (s\<lparr>kern := k, console := c, event_loop := snd (loop_update (s_fd ss) r w (event_loop s))\<rparr>)
        else put_session fd ss3 (s\<lparr>kern := k, console := c\<rparr>))"
      using flush_form [OF wp [unfolded Flushed] ss2_def ss3_def r_def w_def] by blast
    note rec = reclaim_facts [of ss1, folded ss2_def]
    have n2: "pending_bytes ss2 = pending_bytes ss1" using rec(1) by (metis length_pending)
    have sc: "same_client ss ss2" "same_client ss ss3" using rec(2) same1 by (simp_all add: same_client_def ss3_def)
    consider (big) "pending_bytes ss2 > kMaxOutputBytes"
      | (closed) "pending_bytes ss2 \<le> kMaxOutputBytes" "pending_bytes ss2 = 0 \<and> closing ss"
      | (rest) "pending_bytes ss2 \<le> kMaxOutputBytes" "\<not> (pending_bytes ss2 = 0 \<and> closing ss)"
      by linarith
    then show thesis
    proof cases
      case big
      have "flush fd ss s = drop_fd (s_fd ss) (''output backlog exceeded '' @ to_string (int kMaxOutputBytes) @
          '' bytes (client is not reading)'') (put_session fd ss2 (s\<lparr>kern := k, console := console s\<rparr>))"
        using form big by simp
      then show thesis by (rule gone) (use big n2 in \<open>simp_all add: sc wp\<close>)
    next
      case closed
      then have "flush fd ss s = drop_fd (s_fd ss) ''orderly close completed after flushing output''
          (put_session fd ss3 (s\<lparr>kern := k, console := c\<rparr>))"
        using form by simp
      then show thesis by (rule gone) (use closed n2 in \<open>simp_all add: sc wp\<close>)
    next
      case rest
      define ss4 where "ss4 = ss3\<lparr>read_interest := r, write_interest := w\<rparr>"
      have int: "read_interest ss3 = read_interest ss" "write_interest ss3 = write_interest ss"
        using rec(6,7) same1 by (simp_all add: ss3_def)
      have "ss4 = ss3" if "r = read_interest ss" "w = write_interest ss"
        using that by (simp add: ss4_def flip: int)
      then have fl: "flush fd ss s = put_session fd ss4 (s\<lparr>kern := k, console := c, event_loop :=
          (if r = read_interest ss \<and> w = write_interest ss then event_loop s
           else snd (loop_update (s_fd ss) r w (event_loop s)))\<rparr>)"
        using form rest unfolding ss4_def [symmetric]
        by (cases "r = read_interest ss \<and> w = write_interest ss") (simp, auto)
      have same: "pending ss4 = pending ss1" "same_client ss ss4" "read_interest ss4 = r" "write_interest ss4 = w"
        using rec(1) sc by (simp_all add: ss4_def ss3_def pending_def same_client_def)
      have fields: "out_start ss4 = out_start ss2" "outbuf ss4 = outbuf ss2" "pending_bytes ss4 = pending_bytes ss2"
          "has_pending_output ss4 = has_pending_output ss2" "closing ss4 = closing ss"
          "backlogged ss4 = has_pending_output ss2" "w = has_pending_output ss2"
        using same(2) by (simp_all add: ss4_def ss3_def pending_bytes_def has_pending_output_def w_def same_client_def)
      have "settled_output ss4"
        using rec(3-5) rest
        unfolding settled_output_def fields same(3,4) r_def has_pending_output_def by auto
      then show thesis
        by (intro kept [OF fl same(2)]) (simp_all only: same wp fst_conv snd_conv)
    qed
  qed
qed

section \<open>What dropping does\<close>

lemma subscribed_erase [simp]:
  "subscribed j (erase_subscriber fd i subs) = (if j = i then removeAll fd (subscribed j subs) else subscribed j subs)"
  by (simp add: erase_subscriber_def subscribed_def)

lemma subscribed_fold_erase:
  "subscribed j (fold (erase_subscriber fd) is subs) =
     (if j \<in> set is then removeAll fd (subscribed j subs) else subscribed j subs)"
  by (induction "is" arbitrary: subs) auto

lemma log_connection_count_form: "\<exists>c. log_connection_count m n s = s\<lparr>console := c\<rparr>"
proof -
  have "s = s\<lparr>console := console s\<rparr>" by simp
  then show ?thesis
    unfolding log_connection_count_def say_def Let_def by (cases "n \<le> kVerboseConnectionLimit") metis+
qed

lemma drop_fd_None: "session s fd = None \<Longrightarrow> drop_fd fd reason s = s"
  by (simp add: drop_fd_def)

lemma drop_fd_form:
  assumes "session s fd = Some ss"
  obtains c where "drop_fd fd reason s =
    s\<lparr>subscribers := fold (erase_subscriber fd) (subscriptions ss) (subscribers s),
      usernames := (if logged_in ss then removeAll (username ss) (usernames s) else usernames s),
      book := remove_orders_of fd (book s), console := c, sessions := AList.delete fd (sessions s),
      event_loop := loop_remove fd (event_loop s), closed_fds := closed_fds s @ [fd]\<rparr>"
proof -
  define s1 where "s1 = s\<lparr>subscribers := fold (erase_subscriber fd) (subscriptions ss) (subscribers s),
    usernames := (if logged_in ss then removeAll (username ss) (usernames s) else usernames s),
    book := remove_orders_of fd (book s)\<rparr>"
  let ?m = "''[-] connection closed: '' @ session_label ss @ '' - '' @ reason"
  obtain c where c: "log_connection_count ?m (length (sessions s1) - 1) s1 = s1\<lparr>console := c\<rparr>"
    using log_connection_count_form by blast
  have "drop_fd fd reason s =
     (let s = log_connection_count ?m (length (sessions s1) - 1) s1;
          s = s\<lparr>sessions := AList.delete fd (sessions s)\<rparr>;
          s = s\<lparr>event_loop := loop_remove fd (event_loop s)\<rparr>
      in s\<lparr>closed_fds := closed_fds s @ [fd]\<rparr>)"
    using assms by (simp add: drop_fd_def s1_def Let_def)
  then have "drop_fd fd reason s =
     s1\<lparr>console := c, sessions := AList.delete fd (sessions s),
       event_loop := loop_remove fd (event_loop s), closed_fds := closed_fds s @ [fd]\<rparr>"
    unfolding c Let_def by (simp add: s1_def)
  then show thesis using that unfolding s1_def by simp
qed

lemma drop_fd_fields:
  assumes "session s fd = Some ss"
  shows "subscribers (drop_fd fd reason s) = fold (erase_subscriber fd) (subscriptions ss) (subscribers s)"
    "usernames (drop_fd fd reason s) = (if logged_in ss then removeAll (username ss) (usernames s) else usernames s)"
    "book (drop_fd fd reason s) = remove_orders_of fd (book s)"
    "sessions (drop_fd fd reason s) = AList.delete fd (sessions s)"
    "event_loop (drop_fd fd reason s) = loop_remove fd (event_loop s)"
    "closed_fds (drop_fd fd reason s) = closed_fds s @ [fd]"
    "kern (drop_fd fd reason s) = kern s" "listener (drop_fd fd reason s) = listener s"
    "accept_resume_at (drop_fd fd reason s) = accept_resume_at s"
  by (rule drop_fd_form [OF assms, of reason], simp)+

text \<open>\<^verbatim>\<open>on_writable\<close> is a send of nothing.\<close>

lemma on_writable_send: "on_writable fd s = send_to fd [] s"
  by (simp add: on_writable_def send_to_def split: option.split)

lemma begin_orderly_close_cases:
  obtains (absent) "session s fd = None" "begin_orderly_close fd reason s = s"
  | (drained) ss where "session s fd = Some ss" "\<not> has_pending_output ss"
      "begin_orderly_close fd reason s = drop_fd fd reason (put_session fd (ss\<lparr>closing := True, inbuf := []\<rparr>) s)"
  | (queued) ss where "session s fd = Some ss" "has_pending_output ss"
      "begin_orderly_close fd reason s =
         put_session fd (ss\<lparr>closing := True, inbuf := [], read_interest := False, write_interest := True\<rparr>)
           (s\<lparr>kern := sys_shutdown fd SHUT_RD (kern s),
              event_loop := snd (loop_update fd False True (event_loop s))\<rparr>)"
proof (cases "session s fd")
  case None
  then show thesis by (rule absent) (simp add: begin_orderly_close_def None)
next
  case (Some ss)
  have p: "has_pending_output (ss\<lparr>closing := True, inbuf := []\<rparr>) = has_pending_output ss"
    by (simp add: has_pending_output_def pending_bytes_def)
  show thesis
  proof (cases "has_pending_output ss")
    case True
    with Some show thesis by (intro queued) (simp_all add: begin_orderly_close_def p Let_def)
  next
    case False
    with Some show thesis by (intro drained) (simp_all add: begin_orderly_close_def p Let_def)
  qed
qed

section \<open>What sending does\<close>

definition only_output :: "int \<Rightarrow> string \<Rightarrow> Kernel \<Rightarrow> Kernel \<Rightarrow> bool" where
  "only_output fd w k k' \<longleftrightarrow>
     (\<exists>sc. k' = k\<lparr>send_script := (send_script k)(fd := sc), wire := (wire k)(fd := w)\<rparr>)"

lemma only_output_frame [frame_simps]:
  assumes "only_output fd w k k'"
  shows "open_fds k' = open_fds k" "bad_close k' = bad_close k" "fd_flags k' = fd_flags k"
    "recv_script k' = recv_script k" "accept_script k' = accept_script k" "hash_order k' = hash_order k"
    "now k' = now k" "wire k' = (wire k)(fd := w)"
    "fd' \<noteq> fd \<Longrightarrow> send_script k' fd' = send_script k fd'"
  using assms by (auto simp: only_output_def)

lemma write_pending_output:
  assumes "write_pending ss k = (st, ss', k')"
  shows "only_output (s_fd ss) (wire k' (s_fd ss)) k k'"
  using write_pending_form [of ss k] assms by (auto simp: advances_def only_output_def)

text \<open>Why a client may be lost while it is told \<open>m\<close>: a \<^verbatim>\<open>send\<close> to it failed; more than the limit is left unsent; or it
  was on its way out and everything queued for it has been handed over.\<close>

definition lost :: "int \<Rightarrow> bool \<Rightarrow> ClientSession \<Rightarrow> string \<Rightarrow> Kernel \<Rightarrow> Kernel \<Rightarrow> bool" where
  "lost fd leaving ss m k k' \<longleftrightarrow>
     (\<exists>used. send_script k fd = used @ send_script k' fd \<and> \<not> list_all benign used) \<or>
     kMaxOutputBytes + length (wire k' fd) < length (wire k fd @ pending ss @ m) \<or>
     leaving \<and> prefix (wire k fd @ pending ss) (wire k' fd)"

lemma send_to_cases:
  obtains (absent) "session s fd = None" "send_to fd m s = s"
  | (kept) ss ss' k c l w where
      "session s fd = Some ss" "send_to fd m s = put_session fd ss' (s\<lparr>kern := k, console := c, event_loop := l\<rparr>)"
      "same_client ss ss'" "settled_output ss'" "only_output (s_fd ss) w (kern s) k"
      "l = (if read_interest ss' = read_interest ss \<and> write_interest ss' = write_interest ss then event_loop s
            else snd (loop_update (s_fd ss) (read_interest ss') (write_interest ss') (event_loop s)))"
      "out_start ss \<le> length (outbuf ss) \<Longrightarrow> w @ pending ss' = wire (kern s) (s_fd ss) @ pending ss @ m"
      "suffix (send_script k (s_fd ss)) (send_script (kern s) (s_fd ss))"
  | (gone) ss reason ss' k c w where
      "session s fd = Some ss"
      "send_to fd m s = drop_fd (s_fd ss) reason (put_session fd ss' (s\<lparr>kern := k, console := c\<rparr>))"
      "same_client ss ss'" "only_output (s_fd ss) w (kern s) k"
      "out_start ss \<le> length (outbuf ss) \<Longrightarrow> prefix w (wire (kern s) (s_fd ss) @ pending ss @ m)"
      "suffix (send_script k (s_fd ss)) (send_script (kern s) (s_fd ss))"
      "out_start ss \<le> length (outbuf ss) \<Longrightarrow> lost (s_fd ss) (closing ss) ss m (kern s) k"
proof (cases "session s fd")
  case None
  then show thesis by (rule absent) (simp add: send_to_def None)
next
  case (Some ss)
  define ss0 where "ss0 = ss\<lparr>outbuf := outbuf ss @ m\<rparr>"
  obtain st ss1 k where wp: "write_pending ss0 (kern s) = (st, ss1, k)" by (metis surj_pair)
  have form: "send_to fd m s = flush fd ss0 s" by (simp add: send_to_def Some ss0_def)
  have ss0: "s_fd ss0 = s_fd ss" "read_interest ss0 = read_interest ss" "write_interest ss0 = write_interest ss"
      "same_client ss ss'' = same_client ss0 ss''" for ss''
    by (simp_all add: ss0_def same_client_def)
  have out: "only_output (s_fd ss) (wire k (s_fd ss)) (kern s) k"
    using write_pending_output [OF wp] by (simp add: ss0)
  have stream: "wire k (s_fd ss) @ pending ss1 = wire (kern s) (s_fd ss) @ pending ss @ m"
    if "out_start ss \<le> length (outbuf ss)"
    using write_pending_stream [OF _ wp] that by (simp add: ss0) (simp add: ss0_def pending_def)
  obtain used where used: "send_script (kern s) (s_fd ss) = used @ send_script k (s_fd ss)" "st \<noteq> Flushed \<longrightarrow> \<not> list_all benign used"
    using write_pending_used [OF wp] by (auto simp: ss0)
  then have suf: "suffix (send_script k (s_fd ss)) (send_script (kern s) (s_fd ss))" by (simp add: suffix_def)
  show thesis
  proof (rule flush_cases [of fd ss0 s])
    fix ss' k' c l
    assume *: "flush fd ss0 s = put_session fd ss' (s\<lparr>kern := k', console := c, event_loop := l\<rparr>)"
      "same_client ss0 ss'" "settled_output ss'" "k' = snd (snd (write_pending ss0 (kern s)))"
      "l = (if read_interest ss' = read_interest ss0 \<and> write_interest ss' = write_interest ss0 then event_loop s
            else snd (loop_update (s_fd ss0) (read_interest ss') (write_interest ss') (event_loop s)))"
      "pending ss' = pending (fst (snd (write_pending ss0 (kern s))))"
    then show thesis
      using out stream suf
      by (intro kept [OF Some, where ss' = ss' and w = "wire k (s_fd ss)" and k = k' and c = c and l = l])
        (simp_all add: form wp ss0)
  next
    fix reason ss' k' c
    assume *: "flush fd ss0 s = drop_fd (s_fd ss0) reason (put_session fd ss' (s\<lparr>kern := k', console := c\<rparr>))"
      "same_client ss0 ss'" "k' = snd (snd (write_pending ss0 (kern s)))"
      "fst (write_pending ss0 (kern s)) = Flushed \<Longrightarrow>
         pending_bytes (fst (snd (write_pending ss0 (kern s)))) > kMaxOutputBytes \<or>
         pending_bytes (fst (snd (write_pending ss0 (kern s)))) = 0 \<and> closing ss0"
    have why: "lost (s_fd ss) (closing ss) ss m (kern s) k" if "out_start ss \<le> length (outbuf ss)"
    proof (cases "st = Flushed")
      case True
      have ss0_closing: "closing ss0 = closing ss" by (simp add: ss0_def)
      from True consider "pending_bytes ss1 > kMaxOutputBytes" | "pending ss1 = []" "closing ss"
        using *(4) unfolding wp fst_conv snd_conv by (auto simp: ss0_closing simp flip: length_pending)
      then show ?thesis
      proof cases
        case 1
        with arg_cong [OF stream [OF that], of length] show ?thesis by (simp add: lost_def)
      next
        case 2
        with stream [OF that] show ?thesis by (simp add: lost_def prefix_def)
      qed
    qed (use used in \<open>auto simp: lost_def\<close>)
    have "prefix (wire k (s_fd ss)) (wire (kern s) (s_fd ss) @ pending ss @ m)"
      if "out_start ss \<le> length (outbuf ss)"
      using stream [OF that] by (metis prefixI)
    then show thesis
      using * out suf why
      by (intro gone [OF Some, where ss' = ss' and w = "wire k (s_fd ss)" and k = k' and c = c and reason = reason])
        (simp_all add: form wp ss0)
  qed
qed

end
