(* ===== verification/Server_Protocol.thy ===== *)
theory Server_Protocol
  imports Server_State
begin

text \<open>
  What the server does with a complete message and with received bytes,
  \<^verbatim>\<open>handle_message\<close>, \<^verbatim>\<open>consume_messages\<close>, \<^verbatim>\<open>on_readable\<close> and the handlers of
  \<^verbatim>\<open>src/src/exchange_server.cpp\<close>.

  The locale \<open>server_effects\<close> is the contract between the handlers and the primitive operations: a
  reflexive and transitive relation between server states that holds across every primitive
  operation holds across every handler. Frame properties and invariants alike are obtained by
  interpreting it; the first interpretation (\<open>fr\<close>) shows what message handling never touches, which
  is what makes the two input loops terminate.
\<close>

section \<open>Handlers\<close>

text \<open>\<^verbatim>\<open>sessions_[fd]\<close>: a missing entry springs up default-constructed.\<close>

definition session_at :: "int \<Rightarrow> Server \<Rightarrow> ClientSession \<times> Server" where
  "session_at fd s =
     (case session s fd of
        Some ss \<Rightarrow> (ss, s)
      | None \<Rightarrow> (new_session (-1), put_session fd (new_session (-1)) s))"

definition reject_wrong_role :: "int \<Rightarrow> ClientRole \<Rightarrow> CommandType \<Rightarrow> Server \<Rightarrow> bool \<times> Server" where
  "reject_wrong_role fd required type s =
     (let (ss, s) = session_at fd s
      in if role ss = ROLE_UNKNOWN \<or> role ss = required then (False, s)
         else (let actual = (if role ss = ROLE_TRADER then ''trader'' else ''market-data'')
               in (True, send_to fd (error (verb type @ '' is not permitted for a '' @ actual @ '' client'')) s)))"

definition register_login :: "int \<Rightarrow> ClientSession \<Rightarrow> string \<Rightarrow> Server \<Rightarrow> Server" where
  "register_login fd ss user s =
     (let s = put_session fd (ss\<lparr>role := ROLE_TRADER, username := user, logged_in := True\<rparr>) s
      in s\<lparr>usernames := List.insert user (usernames s)\<rparr>)"

definition handle_login :: "int \<Rightarrow> ParsedCommand \<Rightarrow> Server \<Rightarrow> Server" where
  "handle_login fd cmd s =
     (let (rejected, s) = reject_wrong_role fd ROLE_TRADER (cmd_type cmd) s
      in if rejected then s
         else
           (let (ss, s) = session_at fd s
            in if logged_in ss then send_to fd (error (''Already logged in as '' @ username ss)) s
               else
                 (let user = cmd_args cmd ! 0
                  in if user \<in> set (usernames s)
                     then send_to fd (error (''Username '' @ user @ '' is already in use'')) s
                     else
                       (let s = register_login fd ss user s;
                            s = say (''[=] fd '' @ to_string fd @ '' is trader '' @ quoted (c_str user)) s
                        in send_to fd ok s))))"

definition add_subscription :: "int \<Rightarrow> ClientSession \<Rightarrow> string \<Rightarrow> Server \<Rightarrow> Server" where
  "add_subscription fd ss i s =
     (let s = put_session fd (ss\<lparr>subscriptions := List.insert i (subscriptions ss)\<rparr>) s
      in s\<lparr>subscribers := (subscribers s)(i \<mapsto> List.insert fd (subscribed i (subscribers s)))\<rparr>)"

definition remove_subscription :: "int \<Rightarrow> ClientSession \<Rightarrow> string \<Rightarrow> Server \<Rightarrow> Server" where
  "remove_subscription fd ss i s =
     (let s = put_session fd (ss\<lparr>subscriptions := removeAll i (subscriptions ss)\<rparr>) s
      in s\<lparr>subscribers := erase_subscriber fd i (subscribers s)\<rparr>)"

definition handle_subscription :: "int \<Rightarrow> ParsedCommand \<Rightarrow> Server \<Rightarrow> Server" where
  "handle_subscription fd cmd s =
     (let (rejected, s) = reject_wrong_role fd ROLE_MARKET_DATA (cmd_type cmd) s
      in if rejected then s
         else
           (let (ss, s) = session_at fd s;
                subscribing = (cmd_type cmd = SUBSCRIBE)
            in if \<not> subscribing \<and> cmd_instrument cmd \<notin> set (subscriptions ss)
               then send_to fd (error (''Not subscribed to '' @ cmd_instrument cmd)) s
               else
                 (let (ss, s) =
                        (if role ss = ROLE_UNKNOWN
                         then (let ss = ss\<lparr>role := ROLE_MARKET_DATA\<rparr>
                               in (ss, say (''[=] fd '' @ to_string fd @ '' is a market-data client'')
                                         (put_session fd ss s)))
                         else (ss, s));
                      s = (if subscribing then add_subscription fd ss (cmd_instrument cmd) s
                           else remove_subscription fd ss (cmd_instrument cmd) s)
                  in send_to fd ok s)))"

definition require_logged_in_trader :: "int \<Rightarrow> CommandType \<Rightarrow> Server \<Rightarrow> bool \<times> Server" where
  "require_logged_in_trader fd type s =
     (let (rejected, s) = reject_wrong_role fd ROLE_TRADER type s
      in if rejected then (False, s)
         else
           (let (ss, s) = session_at fd s
            in if \<not> logged_in ss
               then (False, send_to fd (error ''Not logged in: send LOGIN <username> before trading'') s)
               else (True, s)))"

definition publish :: "TradeExecution \<Rightarrow> Server \<Rightarrow> Server" where
  "publish x s =
     (let s = send_to (x_buyer_fd x) (bought (x_instrument x) (x_quantity x) (x_price x)) s;
          s = send_to (x_seller_fd x) (sold (x_instrument x) (x_quantity x) (x_price x)) s;
          update = trade (x_instrument x) (x_quantity x) (x_price x)
      in case subscribers s (x_instrument x) of
           None \<Rightarrow> s
         | Some fds \<Rightarrow> fold (\<lambda>subscriber_fd. send_to subscriber_fd update) (hash_order (kern s) fds) s)"

text \<open>The loop over the executions; it returns when the submitting session is gone.\<close>

fun publish_all :: "int \<Rightarrow> TradeExecution list \<Rightarrow> Server \<Rightarrow> Server" where
  "publish_all fd [] s = s"
| "publish_all fd (x # xs) s =
     (let s = publish x s in if session s fd = None then s else publish_all fd xs s)"

definition handle_order :: "int \<Rightarrow> ParsedCommand \<Rightarrow> Server \<Rightarrow> Server" where
  "handle_order fd cmd s =
     (let (allowed, s) = require_logged_in_trader fd (cmd_type cmd) s
      in if \<not> allowed then s
         else
           (let side = (if cmd_type cmd = BUY then Side_BUY else Side_SELL);
                (order_id, executions, b) =
                  add_order fd (cmd_instrument cmd) side (cmd_quantity cmd) (cmd_price cmd) [] (book s);
                s = s\<lparr>book := b\<rparr>;
                s = send_to fd (order_accepted order_id) s
            in publish_all fd executions s))"

definition handle_cancel :: "int \<Rightarrow> ParsedCommand \<Rightarrow> Server \<Rightarrow> Server" where
  "handle_cancel fd cmd s =
     (let (allowed, s) = require_logged_in_trader fd (cmd_type cmd) s
      in if \<not> allowed then s
         else
           (let (result, b) = cancel_order (cmd_order_id cmd) fd (book s);
                s = s\<lparr>book := b\<rparr>
            in case result of
                 Inr _ \<Rightarrow> send_to fd (order_cancelled (cmd_order_id cmd)) s
               | Inl err \<Rightarrow> send_to fd (error err) s))"

definition handle_message :: "int \<Rightarrow> string \<Rightarrow> Server \<Rightarrow> Server" where
  "handle_message fd line s =
     (let cmd = parse line
      in if \<not> cmd_valid cmd then send_to fd (error (cmd_error cmd)) s
         else case cmd_type cmd of
                QUIT \<Rightarrow> begin_orderly_close fd ''client sent QUIT'' s
              | LOGIN \<Rightarrow> handle_login fd cmd s
              | SUBSCRIBE \<Rightarrow> handle_subscription fd cmd s
              | UNSUBSCRIBE \<Rightarrow> handle_subscription fd cmd s
              | BUY \<Rightarrow> handle_order fd cmd s
              | SELL \<Rightarrow> handle_order fd cmd s
              | CANCEL \<Rightarrow> handle_cancel fd cmd s
              | UNKNOWN \<Rightarrow> send_to fd (error ''Unknown command'') s)"

section \<open>What holds across every handler\<close>

lemma match_loop_instrument:
  "x \<in> set (snd (snd (snd (match_loop owner i side price q qty idx ex)))) \<Longrightarrow> x \<in> set ex \<or> x_instrument x = i"
proof (induction q arbitrary: qty idx ex)
  case (Cons nr q)
  obtain n r where nr: "nr = (n, r)" by fastforce
  define t where "t = min qty (o_quantity r)"
  have new: "x_instrument (make_execution owner i side price r t) = i" by (simp add: make_execution_def)
  note IH = Cons.IH [of qty idx ex] Cons.IH [of "qty - t" idx "ex @ [make_execution owner i side price r t]"]
    Cons.IH [of "qty - t" "AList.delete (o_id r) idx" "ex @ [make_execution owner i side price r t]"]
  show ?case
    using Cons.prems IH new unfolding nr
    by (auto simp: Let_def case_prod_unfold t_def [symmetric] split: if_splits)
qed simp

lemma add_order_instrument:
  "x \<in> set (fst (snd (add_order owner i side qty price [] b))) \<Longrightarrow> x_instrument x = i"
  by (auto simp: add_order_def Let_def case_prod_unfold dest: match_loop_instrument)

text \<open>A user name never contains a line end.\<close>

definition names_ok :: "Server \<Rightarrow> bool" where
  "names_ok s \<longleftrightarrow> (\<forall>fd ss. session s fd = Some ss \<longrightarrow> LF \<notin> set (username ss))"

locale output_effects =
  fixes R :: "Server \<Rightarrow> Server \<Rightarrow> bool"
  assumes R_refl: "R s s"
    and R_trans: "R s t \<Longrightarrow> R t u \<Longrightarrow> R s u"
    and R_say: "R s (say line s)"
    and R_send: "(names_ok s \<Longrightarrow> one_line m) \<Longrightarrow> R s (send_to fd m s)"
    and R_close: "R s (begin_orderly_close fd reason s)"

locale server_effects = output_effects +
  assumes R_login: "session s fd = Some ss \<Longrightarrow> role ss \<noteq> ROLE_MARKET_DATA \<Longrightarrow> \<not> logged_in ss \<Longrightarrow>
          user \<notin> set (usernames s) \<Longrightarrow> user_name user \<Longrightarrow> R s (register_login fd ss user s)"
    and R_role: "session s fd = Some ss \<Longrightarrow> role ss = ROLE_UNKNOWN \<Longrightarrow>
          R s (put_session fd (ss\<lparr>role := ROLE_MARKET_DATA\<rparr>) s)"
    and R_subscribe: "session s fd = Some ss \<Longrightarrow> role ss = ROLE_MARKET_DATA \<Longrightarrow> is_valid_instrument i \<Longrightarrow>
          R s (add_subscription fd ss i s)"
    and R_unsubscribe: "session s fd = Some ss \<Longrightarrow> role ss = ROLE_MARKET_DATA \<Longrightarrow>
          R s (remove_subscription fd ss i s)"
    and R_order: "session s fd = Some ss \<Longrightarrow> logged_in ss \<Longrightarrow> is_valid_instrument i \<Longrightarrow> order_terms qty price \<Longrightarrow>
          R s (s\<lparr>book := snd (snd (add_order fd i side qty price [] (book s)))\<rparr>)"
    and R_cancel: "session s fd = Some ss \<Longrightarrow> logged_in ss \<Longrightarrow>
          R s (s\<lparr>book := snd (cancel_order oid fd (book s))\<rparr>)"
begin

lemma R_send_line: "one_line m \<Longrightarrow> R s (send_to fd m s)"
  by (rule R_send)

lemma R_send_error: "LF \<notin> set text \<Longrightarrow> R s (send_to fd (error text) s)"
  by (rule R_send) (simp add: text_simps)

lemma R_send_each: "one_line m \<Longrightarrow> R s (fold (\<lambda>fd. send_to fd m) fds s)"
proof (induction fds arbitrary: s)
  case (Cons fd fds)
  then show ?case by simp (blast intro: R_trans R_send_line)
qed (simp add: R_refl)

lemma R_publish:
  assumes "LF \<notin> set (x_instrument x)"
  shows "R s (publish x s)"
proof -
  define s1 where "s1 = send_to (x_buyer_fd x) (bought (x_instrument x) (x_quantity x) (x_price x)) s"
  define s2 where "s2 = send_to (x_seller_fd x) (sold (x_instrument x) (x_quantity x) (x_price x)) s1"
  have "R s s1" "R s1 s2" unfolding s1_def s2_def by (rule R_send_line, simp add: assms text_simps)+
  then have "R s s2" by (rule R_trans)
  moreover have "R s2 (fold (\<lambda>fd. send_to fd (trade (x_instrument x) (x_quantity x) (x_price x))) fds s2)" for fds
    by (rule R_send_each) (simp add: assms text_simps)
  ultimately show ?thesis
    unfolding publish_def Let_def s1_def [symmetric] s2_def [symmetric]
    by (auto split: option.split intro: R_trans)
qed

lemma R_publish_all: "\<forall>x \<in> set xs. LF \<notin> set (x_instrument x) \<Longrightarrow> R s (publish_all fd xs s)"
proof (induction xs arbitrary: s)
  case (Cons x xs)
  then have "R s (publish x s)" and "R (publish x s) (publish_all fd xs (publish x s))" by (simp_all add: R_publish)
  then show ?case by (auto simp: Let_def intro: R_trans)
qed (simp add: R_refl)

lemma R_reject:
  assumes "session s fd = Some ss" and "reject_wrong_role fd required type s = (rejected, s')"
  shows "R s s'" and "\<not> rejected \<Longrightarrow> s' = s \<and> (role ss = ROLE_UNKNOWN \<or> role ss = required)"
proof -
  have "LF \<notin> set (verb type)" by (rule is_word_LF) simp
  then show "R s s'"
    using assms
    by (auto simp: reject_wrong_role_def session_at_def Let_def intro!: R_refl R_send_error split: if_splits)
  show "\<not> rejected \<Longrightarrow> s' = s \<and> (role ss = ROLE_UNKNOWN \<or> role ss = required)"
    using assms by (auto simp: reject_wrong_role_def session_at_def Let_def split: if_splits)
qed


lemma R_require:
  assumes "session s fd = Some ss" and "require_logged_in_trader fd type s = (allowed, s')"
  shows "R s s'" and "allowed \<Longrightarrow> s' = s \<and> logged_in ss \<and> role ss \<noteq> ROLE_MARKET_DATA"
proof -
  obtain rejected s1 where rj: "reject_wrong_role fd ROLE_TRADER type s = (rejected, s1)" by fastforce
  note rej = R_reject [OF assms(1) rj]
  show "R s s'"
  proof (cases rejected)
    case False
    with rej(2) assms rj show ?thesis
      by (auto simp: require_logged_in_trader_def session_at_def Let_def intro!: R_refl R_send_error split: if_splits)
  qed (use assms rj rej(1) in \<open>simp add: require_logged_in_trader_def\<close>)
  show "allowed \<Longrightarrow> s' = s \<and> logged_in ss \<and> role ss \<noteq> ROLE_MARKET_DATA"
    using rej(2) assms rj
    by (auto simp: require_logged_in_trader_def session_at_def Let_def split: if_splits)
qed

lemma R_handle_login:
  assumes "session s fd = Some ss" and "user_name (cmd_args cmd ! 0)"
  shows "R s (handle_login fd cmd s)"
proof -
  obtain rejected s1 where rj: "reject_wrong_role fd ROLE_TRADER (cmd_type cmd) s = (rejected, s1)" by fastforce
  note rej = R_reject [OF assms(1) rj]
  define user where "user = cmd_args cmd ! 0"
  have word: "LF \<notin> set user" using assms(2) by (simp add: user_def is_word_LF user_name_word)
  show ?thesis
  proof (cases rejected)
    case True
    with rej(1) rj show ?thesis by (simp add: handle_login_def)
  next
    case False
    with rej(2) have s1: "s1 = s" "role ss \<noteq> ROLE_MARKET_DATA" by auto
    define t where "t = say (''[=] fd '' @ to_string fd @ '' is trader '' @ quoted (c_str user)) (register_login fd ss user s)"
    have login: "handle_login fd cmd s =
       (if logged_in ss then send_to fd (error (''Already logged in as '' @ username ss)) s
        else if user \<in> set (usernames s)
        then send_to fd (error (''Username '' @ user @ '' is already in use'')) s
        else send_to fd ok t)"
      using False s1 rj assms(1) by (simp add: handle_login_def session_at_def user_def t_def Let_def)
    have "R s (send_to fd ok t)" if "\<not> logged_in ss" "user \<notin> set (usernames s)"
      using that assms s1 unfolding t_def user_def
      by (blast intro: R_trans R_login R_say R_send_line one_line_responses)
    moreover have "R s (send_to fd (error (''Username '' @ user @ '' is already in use'')) s)"
      using word by (intro R_send_error) simp
    moreover have "R s (send_to fd (error (''Already logged in as '' @ username ss)) s)"
      by (rule R_send) (use assms(1) in \<open>simp add: names_ok_def text_simps\<close>)
    ultimately show ?thesis unfolding login by simp
  qed
qed

lemma R_handle_subscription:
  assumes "session s fd = Some ss" and "is_valid_instrument (cmd_instrument cmd)"
  shows "R s (handle_subscription fd cmd s)"
proof -
  obtain rejected s1 where rj: "reject_wrong_role fd ROLE_MARKET_DATA (cmd_type cmd) s = (rejected, s1)" by fastforce
  note rej = R_reject [OF assms(1) rj]
  let ?i = "cmd_instrument cmd" and ?sub = "cmd_type cmd = SUBSCRIBE"
  show ?thesis
  proof (cases rejected)
    case True
    with rej(1) rj show ?thesis by (simp add: handle_subscription_def)
  next
    case False
    with rej(2) have s1: "s1 = s" "role ss = ROLE_UNKNOWN \<or> role ss = ROLE_MARKET_DATA" by auto
    define ss' where "ss' = (if role ss = ROLE_UNKNOWN then ss\<lparr>role := ROLE_MARKET_DATA\<rparr> else ss)"
    define s' where "s' = (if role ss = ROLE_UNKNOWN then
      say (''[=] fd '' @ to_string fd @ '' is a market-data client'') (put_session fd ss' s) else s)"
    define t where "t = (if ?sub then add_subscription fd ss' ?i s' else remove_subscription fd ss' ?i s')"
    have "R s s'"
      using R_role [OF assms(1)] by (auto simp: s'_def ss'_def R_refl intro: R_trans R_say)
    moreover have "session s' fd = Some ss'" "role ss' = ROLE_MARKET_DATA"
      using s1 assms(1) by (auto simp: s'_def ss'_def say_def)
    then have "R s' t" using assms(2) by (simp add: t_def R_subscribe R_unsubscribe)
    ultimately have ok: "R s (send_to fd ok t)"
      by (blast intro: R_trans R_send_line one_line_responses)
    have form: "handle_subscription fd cmd s =
       (if \<not> ?sub \<and> ?i \<notin> set (subscriptions ss)
        then send_to fd (error (''Not subscribed to '' @ ?i)) s else send_to fd ok t)"
      using False s1 rj assms(1)
      by (simp add: handle_subscription_def session_at_def t_def s'_def ss'_def Let_def)
    have "LF \<notin> set ?i" using assms(2) by (simp add: is_word_LF is_word_instrument)
    then have "R s (send_to fd (error (''Not subscribed to '' @ ?i)) s)" by (intro R_send_error) simp
    with ok show ?thesis unfolding form by simp
  qed
qed

lemma R_handle_order:
  assumes "session s fd = Some ss" and "is_valid_instrument (cmd_instrument cmd)" and "order_terms (cmd_quantity cmd) (cmd_price cmd)"
  shows "R s (handle_order fd cmd s)"
proof -
  obtain allowed s1 where rq: "require_logged_in_trader fd (cmd_type cmd) s = (allowed, s1)" by fastforce
  note req = R_require [OF assms(1) rq]
  show ?thesis
  proof (cases allowed)
    case False
    with req(1) rq show ?thesis by (simp add: handle_order_def)
  next
    case True
    with req(2) have s1: "s1 = s" "logged_in ss" by auto
    define side where "side = (if cmd_type cmd = BUY then Side_BUY else Side_SELL)"
    obtain oid ex b where add: "add_order fd (cmd_instrument cmd) side (cmd_quantity cmd) (cmd_price cmd) [] (book s) =
        (oid, ex, b)" by (metis surj_pair)
    have b: "b = snd (snd (add_order fd (cmd_instrument cmd) side (cmd_quantity cmd) (cmd_price cmd) [] (book s)))"
      by (simp add: add)
    define t where "t = send_to fd (order_accepted oid) (s\<lparr>book := b\<rparr>)"
    have "R s (s\<lparr>book := b\<rparr>)"
      unfolding b using assms s1(2) by (intro R_order)
    then have "R s t" unfolding t_def by (rule R_trans [OF _ R_send_line]) (rule one_line_responses)
    moreover have "R t (publish_all fd ex t)"
      using add_order_instrument [of _ fd "cmd_instrument cmd" side "cmd_quantity cmd" "cmd_price cmd" "book s"]
      by (intro R_publish_all) (use assms(2) in \<open>simp add: add is_word_LF is_word_instrument\<close>)
    moreover have "handle_order fd cmd s = publish_all fd ex t"
      using True s1 rq add by (simp add: handle_order_def side_def t_def Let_def)
    ultimately show ?thesis by (simp add: R_trans)
  qed
qed

lemma R_handle_cancel:
  assumes "session s fd = Some ss"
  shows "R s (handle_cancel fd cmd s)"
proof -
  obtain allowed s1 where rq: "require_logged_in_trader fd (cmd_type cmd) s = (allowed, s1)" by fastforce
  note req = R_require [OF assms(1) rq]
  show ?thesis
  proof (cases allowed)
    case False
    with req(1) rq show ?thesis by (simp add: handle_cancel_def)
  next
    case True
    with req(2) have s1: "s1 = s" "logged_in ss" by auto
    obtain result b where c: "cancel_order (cmd_order_id cmd) fd (book s) = (result, b)" by fastforce
    have "R s (s\<lparr>book := b\<rparr>)" using R_cancel [OF assms s1(2), of "cmd_order_id cmd"] by (simp add: c)
    moreover have "LF \<notin> set (to_string n)" for n by (rule is_word_LF) simp
    then have "LF \<notin> set err" if "result = Inl err" for err
      using that c by (auto simp: cancel_order_def no_such_order_def other_trader_def split: option.splits if_splits)
    then have "R (s\<lparr>book := b\<rparr>) (handle_cancel fd cmd s)"
      using True s1 rq c
      by (auto simp: handle_cancel_def Let_def split: sum.split intro: R_send_error R_send_line one_line_responses)
    ultimately show ?thesis by (rule R_trans)
  qed
qed

lemma R_handle_message:
  assumes "session s fd = Some ss"
  shows "R s (handle_message fd line s)"
proof (cases "cmd_valid (parse line)")
  case False
  then show ?thesis
    using parse_error_no_LF by (auto simp: handle_message_def intro: R_send_error)
next
  case True
  note valid = valid_order [OF True] valid_login [OF True] valid_subscription [OF True]
  show ?thesis
    using True valid valid_type [OF True] assms
    by (cases "cmd_type (parse line)")
      (simp_all add: handle_message_def R_close R_handle_login R_handle_subscription R_handle_order R_handle_cancel)
qed

end

section \<open>What no handler touches\<close>

text \<open>The members and the parts of the world that message handling leaves alone.\<close>

definition fixed_part where
  "fixed_part s =
     (listener s, verbose s, send_buffer_bytes s, accept_resume_at s, recv_script (kern s),
      accept_script (kern s), open_fds (kern s), bad_close (kern s), fd_flags (kern s),
      hash_order (kern s), now (kern s))"

text \<open>Unread input stays, or is thrown away because the session is being closed.\<close>

definition input_kept :: "ClientSession \<Rightarrow> ClientSession \<Rightarrow> bool" where
  "input_kept ss ss' \<longleftrightarrow> s_fd ss' = s_fd ss \<and>
     (inbuf ss' = inbuf ss \<and> closing ss' = closing ss \<or> inbuf ss' = [] \<and> closing ss')"

definition untouched :: "Server \<Rightarrow> Server \<Rightarrow> bool" where
  "untouched s t \<longleftrightarrow> fixed_part t = fixed_part s \<and>
     (\<forall>fd ss'. session t fd = Some ss' \<longrightarrow> (\<exists>ss. session s fd = Some ss \<and> input_kept ss ss'))"

lemma input_kept_refl [simp]: "input_kept ss ss"
  by (simp add: input_kept_def)

lemma input_kept_trans: "input_kept a b \<Longrightarrow> input_kept b c \<Longrightarrow> input_kept a c"
  by (auto simp: input_kept_def)

lemma input_kept_same: "same_client ss ss' \<Longrightarrow> input_kept ss ss'"
  by (simp add: input_kept_def same_client_def)

lemma untouched_refl: "untouched s s"
  by (auto simp: untouched_def)

lemma untouched_trans: "untouched s t \<Longrightarrow> untouched t u \<Longrightarrow> untouched s u"
  unfolding untouched_def by (metis input_kept_trans)

lemma untouched_put:
  assumes "session s fd = Some ss" and "input_kept ss ss'" and "fixed_part t = fixed_part s"
    and "sessions t = AList.update fd ss' (sessions s)"
  shows "untouched s t"
  using assms by (auto simp: untouched_def)

lemma untouched_drop: "untouched s (drop_fd fd reason s)"
proof (cases "session s fd")
  case None
  then show ?thesis by (simp add: drop_fd_None untouched_refl)
next
  case (Some ss)
  obtain c where "drop_fd fd reason s =
    s\<lparr>subscribers := fold (erase_subscriber fd) (subscriptions ss) (subscribers s),
      usernames := (if logged_in ss then removeAll (username ss) (usernames s) else usernames s),
      book := remove_orders_of fd (book s), console := c, sessions := AList.delete fd (sessions s),
      event_loop := loop_remove fd (event_loop s), closed_fds := closed_fds s @ [fd]\<rparr>"
    by (rule drop_fd_form [OF Some])
  then show ?thesis by (auto simp: untouched_def fixed_part_def)
qed

lemma untouched_send: "untouched s (send_to fd m s)"
proof (cases rule: send_to_cases [of s fd m])
  case absent
  then show ?thesis by (simp add: untouched_refl)
next
  case (kept ss ss' k c l w)
  then show ?thesis
    by (intro untouched_put [OF kept(1)]) (simp_all add: fixed_part_def frame_simps input_kept_same)
next
  case (gone ss reason ss' k c w)
  have "untouched s (put_session fd ss' (s\<lparr>kern := k, console := c\<rparr>))"
    using gone by (intro untouched_put [OF gone(1)]) (simp_all add: fixed_part_def frame_simps input_kept_same)
  with untouched_drop show ?thesis unfolding gone(2) by (blast intro: untouched_trans)
qed

lemma untouched_close: "untouched s (begin_orderly_close fd reason s)"
proof (cases rule: begin_orderly_close_cases [of s fd reason])
  case absent
  then show ?thesis by (simp add: untouched_refl)
next
  case (drained ss)
  have "untouched s (put_session fd (ss\<lparr>closing := True, inbuf := []\<rparr>) s)"
    by (rule untouched_put [OF drained(1)]) (simp_all add: input_kept_def fixed_part_def)
  with untouched_drop show ?thesis unfolding drained(3) by (blast intro: untouched_trans)
next
  case (queued ss)
  show ?thesis
    unfolding queued(3)
    by (rule untouched_put [OF queued(1)]) (simp_all add: input_kept_def fixed_part_def frame_simps)
qed

interpretation fr: server_effects untouched
proof
  fix s t u fd ss i qty price side oid user line m reason
  show "untouched s s" by (rule untouched_refl)
  show "untouched s t \<Longrightarrow> untouched t u \<Longrightarrow> untouched s u" by (rule untouched_trans)
  show "untouched s (send_to fd m s)" by (rule untouched_send)
  show "untouched s (begin_orderly_close fd reason s)" by (rule untouched_close)
  show "untouched s (say line s)"
    "untouched s (s\<lparr>book := snd (snd (add_order fd i side qty price [] (book s)))\<rparr>)"
    "untouched s (s\<lparr>book := snd (cancel_order oid fd (book s))\<rparr>)"
    by (auto simp: untouched_def fixed_part_def say_def)
  assume ss: "session s fd = Some ss"
  show "untouched s (register_login fd ss user s)"
    by (rule untouched_put [OF ss]) (simp_all add: register_login_def input_kept_def fixed_part_def)
  show "untouched s (put_session fd (ss\<lparr>role := ROLE_MARKET_DATA\<rparr>) s)"
    by (rule untouched_put [OF ss]) (simp_all add: input_kept_def fixed_part_def)
  show "untouched s (add_subscription fd ss i s)"
    by (rule untouched_put [OF ss]) (simp_all add: add_subscription_def input_kept_def fixed_part_def)
  show "untouched s (remove_subscription fd ss i s)"
    by (rule untouched_put [OF ss]) (simp_all add: remove_subscription_def input_kept_def fixed_part_def)
qed

section \<open>Input path\<close>

definition input_left :: "int \<Rightarrow> Server \<Rightarrow> nat" where
  "input_left fd s = (case session s fd of None \<Rightarrow> 0 | Some ss \<Rightarrow> length (inbuf ss))"

text \<open>One pass of \<^verbatim>\<open>consume_messages\<close>: the first line is cut off the input buffer and handled.\<close>

definition take_message :: "int \<Rightarrow> ClientSession \<Rightarrow> nat \<Rightarrow> Server \<Rightarrow> Server" where
  "take_message fd ss n s =
     (let line = take n (inbuf ss);
          s = put_session fd (ss\<lparr>inbuf := drop (n + 1) (inbuf ss)\<rparr>) s;
          line = strip_cr line;
          s = (if verbose s
               then say (''[msg ] '' @ c_str (session_label ss) @ '': complete message '' @
                         c_str ([CHR 0x22] @ line @ [CHR 0x22])) s
               else s)
      in handle_message fd line s)"

lemma input_left_untouched: "untouched s t \<Longrightarrow> input_left fd t \<le> input_left fd s"
  by (fastforce simp: untouched_def input_left_def input_kept_def split: option.split)

lemma take_message_untouched:
  assumes "session s fd = Some ss"
  shows "untouched (put_session fd (ss\<lparr>inbuf := drop (n + 1) (inbuf ss)\<rparr>) s) (take_message fd ss n s)"
proof -
  define s1 where "s1 = put_session fd (ss\<lparr>inbuf := drop (n + 1) (inbuf ss)\<rparr>) s"
  have "untouched s1 (handle_message fd line (if v then say l s1 else s1))" for line v l
  proof (rule fr.R_trans)
    show "untouched s1 (if v then say l s1 else s1)" by (simp add: fr.R_refl fr.R_say)
    show "untouched (if v then say l s1 else s1) (handle_message fd line (if v then say l s1 else s1))"
      by (rule fr.R_handle_message [where ss = "ss\<lparr>inbuf := drop (n + 1) (inbuf ss)\<rparr>"]) (simp add: s1_def say_def)
  qed
  then show ?thesis unfolding take_message_def Let_def s1_def [symmetric] by blast
qed

lemma take_message_left:
  assumes "session s fd = Some ss" and "str_find LF (inbuf ss) = Some n"
  shows "input_left fd (take_message fd ss n s) < input_left fd s"
proof -
  have "input_left fd (take_message fd ss n s) \<le> input_left fd (put_session fd (ss\<lparr>inbuf := drop (n + 1) (inbuf ss)\<rparr>) s)"
    by (rule input_left_untouched [OF take_message_untouched [OF assms(1)]])
  also have "\<dots> < input_left fd s"
    using assms str_find_Some [OF assms(2)] by (auto simp: input_left_def)
  finally show ?thesis .
qed

function consume_messages :: "int \<Rightarrow> Server \<Rightarrow> bool \<times> Server" where
  "consume_messages fd s =
     (case session s fd of
        None \<Rightarrow> (False, s)
      | Some ss \<Rightarrow>
          (case str_find LF (inbuf ss) of
             None \<Rightarrow>
               (if length (inbuf ss) > kMaxLineBytes
                then (let s = send_to fd (error (''Message exceeds '' @ to_string (int kMaxLineBytes) @
                                '' bytes without a newline'')) s
                      in (False, begin_orderly_close fd ''oversized application message'' s))
                else (True, s))
           | Some n \<Rightarrow>
               (let s' = take_message fd ss n s
                in case session s' fd of
                     None \<Rightarrow> (False, s')
                   | Some ss' \<Rightarrow> (if closing ss' then (True, s') else consume_messages fd s'))))"
  by pat_completeness auto

termination
  by (relation "measure (\<lambda>(fd, s). input_left fd s)") (auto intro: take_message_left)

declare consume_messages.simps [simp del]

text \<open>A relation that holds across the handling of a message and survives cutting a line off an input buffer
  holds across \<^verbatim>\<open>consume_messages\<close>. This is the contract of one message, however the handlers go about it.\<close>

locale cutting_effects = output_effects +
  assumes R_cut: "session s fd = Some ss \<Longrightarrow> suffix rest (inbuf ss) \<Longrightarrow> R s (put_session fd (ss\<lparr>inbuf := rest\<rparr>) s)"

locale message_effects = cutting_effects +
  assumes R_message: "session s fd = Some ss \<Longrightarrow> R s (handle_message fd line s)"
begin

lemma R_take_message:
  assumes "session s fd = Some ss"
  shows "R s (take_message fd ss n s)"
proof -
  define s1 where "s1 = put_session fd (ss\<lparr>inbuf := drop (n + 1) (inbuf ss)\<rparr>) s"
  have "R s s1" unfolding s1_def by (rule R_cut [OF assms suffix_drop])
  moreover have "R s1 (if v then say l s1 else s1)" for v l by (simp add: R_refl R_say)
  moreover have "R (if v then say l s1 else s1) (handle_message fd line (if v then say l s1 else s1))" for line v l
    by (rule R_message [where ss = "ss\<lparr>inbuf := drop (n + 1) (inbuf ss)\<rparr>"]) (simp add: s1_def say_def)
  ultimately have "R s (handle_message fd line (if v then say l s1 else s1))" for line v l
    by (blast intro: R_trans)
  then show ?thesis
    unfolding take_message_def Let_def s1_def [symmetric] by blast
qed

lemma R_consume_messages: "R s (snd (consume_messages fd s))"
proof (induction fd s rule: consume_messages.induct)
  case (1 fd s)
  have "LF \<notin> set (to_string n)" for n by (rule is_word_LF) simp
  then have close: "R s (begin_orderly_close fd r (send_to fd (error (''Message exceeds '' @ to_string (int kMaxLineBytes) @
      '' bytes without a newline'')) s))" for r
    by (intro R_trans [OF R_send R_close]) (simp add: text_simps)
  show ?case
  proof (cases "session s fd")
    case None
    then show ?thesis by (subst consume_messages.simps) (simp add: R_refl)
  next
    case ss: (Some ss)
    show ?thesis
    proof (cases "str_find LF (inbuf ss)")
      case None
      with ss close R_refl show ?thesis
        by (subst consume_messages.simps) (auto simp: Let_def simp del: str_find_None)
    next
      case (Some n)
      have "R s (take_message fd ss n s)" using ss by (rule R_take_message)
      with 1 [OF ss Some refl] ss Some show ?thesis
        by (subst consume_messages.simps) (auto simp: Let_def split: option.split intro: R_trans)
    qed
  qed
qed

end

text \<open>A relation that holds across the primitive operations is such a contract.\<close>

locale consume_effects = server_effects + cutting_effects

sublocale consume_effects \<subseteq> message_effects R
  by unfold_locales (rule R_handle_message)

definition same_fixed :: "Server \<Rightarrow> Server \<Rightarrow> bool" where
  "same_fixed s t \<longleftrightarrow> fixed_part t = fixed_part s"

lemma same_fixed_untouched: "untouched s t \<Longrightarrow> same_fixed s t"
  by (simp add: same_fixed_def untouched_def)

interpretation cf: consume_effects same_fixed
proof
  fix s t u fd ss i qty price side oid user line m reason rest
  show "same_fixed s s" "same_fixed s t \<Longrightarrow> same_fixed t u \<Longrightarrow> same_fixed s u" by (simp_all add: same_fixed_def)
  show "same_fixed s (say line s)" "same_fixed s (send_to fd m s)" "same_fixed s (begin_orderly_close fd reason s)"
    using fr.R_say untouched_send untouched_close by (auto intro: same_fixed_untouched)
  show "same_fixed s (register_login fd ss user s)" "same_fixed s (put_session fd (ss\<lparr>role := ROLE_MARKET_DATA\<rparr>) s)"
    "same_fixed s (add_subscription fd ss i s)" "same_fixed s (remove_subscription fd ss i s)"
    "same_fixed s (s\<lparr>book := snd (snd (add_order fd i side qty price [] (book s)))\<rparr>)"
    "same_fixed s (s\<lparr>book := snd (cancel_order oid fd (book s))\<rparr>)" "same_fixed s (put_session fd (ss\<lparr>inbuf := rest\<rparr>) s)"
    by (simp_all add: same_fixed_def fixed_part_def register_login_def add_subscription_def remove_subscription_def)
qed

lemma consume_recv_script: "recv_script (kern (snd (consume_messages fd s))) = recv_script (kern s)"
  using cf.R_consume_messages [of s fd] by (simp add: same_fixed_def fixed_part_def)

text \<open>Received bytes are appended to the input buffer of the session.\<close>

definition receive_bytes :: "int \<Rightarrow> ClientSession \<Rightarrow> string \<Rightarrow> Server \<Rightarrow> Server" where
  "receive_bytes fd ss bs s =
     (let s = (if verbose s
               then say (''[recv] '' @ c_str (session_label ss) @ '': '' @ to_string (int (length bs)) @
                         '' byte(s) from the TCP stream'') s
               else s)
      in put_session fd (ss\<lparr>inbuf := inbuf ss @ bs\<rparr>) s)"

lemma receive_bytes_kern [simp]: "kern (receive_bytes fd ss bs s) = kern s"
  by (simp add: receive_bytes_def say_def Let_def)

lemma kReadChunk_pos: "0 < kReadChunk"
  by (simp add: kReadChunk_def)

function on_readable :: "int \<Rightarrow> Server \<Rightarrow> Server" where
  "on_readable fd s =
     (case session s fd of
        None \<Rightarrow> s
      | Some ss \<Rightarrow>
          (if closing ss then s
           else
             (let r = sys_recv fd kReadChunk (kern s); s1 = s\<lparr>kern := snd r\<rparr>
              in case fst r of
                   Data bs \<Rightarrow>
                     (if bs \<noteq> []
                      then (let c = consume_messages fd (receive_bytes fd ss bs s1)
                            in if \<not> fst c then snd c
                               else if length bs < kReadChunk then snd c
                               else on_readable fd (snd c))
                      else begin_orderly_close fd ''peer closed its sending direction (FIN)'' s1)
                 | RecvError e \<Rightarrow>
                     (if e = EINTR then on_readable fd s1
                      else if e = EAGAIN \<or> e = EWOULDBLOCK then s1
                      else drop_fd fd (''recv() failed: '' @ strerror (kern s1) e) s1))))"
  by pat_completeness auto

termination
  by (relation "measure (\<lambda>(fd, s). recv_weight (recv_script (kern s) fd))")
    (auto simp: consume_recv_script kReadChunk_pos intro: sys_recv_weight)

declare on_readable.simps [simp del]

text \<open>A relation that in addition survives a \<^verbatim>\<open>recv\<close>, appending what it delivered and dropping a
  client holds across \<^verbatim>\<open>on_readable\<close>.\<close>

locale io_effects = cutting_effects +
  assumes R_drop: "R s (drop_fd fd reason s)"
    and R_recv: "R s (s\<lparr>kern := snd (sys_recv fd n (kern s))\<rparr>)"
    and R_append: "session s fd = Some ss \<Longrightarrow> \<not> closing ss \<Longrightarrow> R s (put_session fd (ss\<lparr>inbuf := inbuf ss @ bs\<rparr>) s)"
    and R_writable: "R s (on_writable fd s)"
locale reading_effects = message_effects + io_effects
begin

lemma R_receive_bytes:
  assumes "session s fd = Some ss" and "\<not> closing ss"
  shows "R s (receive_bytes fd ss bs s)"
proof -
  have "R s (put_session fd (ss\<lparr>inbuf := inbuf ss @ bs\<rparr>) (if v then say l s else s))" for v l
    by (rule R_trans [OF _ R_append]) (use assms in \<open>simp_all add: R_refl R_say\<close>, simp_all add: say_def)
  then show ?thesis by (simp add: receive_bytes_def Let_def)
qed

lemma R_on_readable: "R s (on_readable fd s)"
proof (induction fd s rule: on_readable.induct)
  case (1 fd s)
  show ?case
  proof (cases "session s fd")
    case None
    then show ?thesis by (subst on_readable.simps) (simp add: R_refl)
  next
    case ss: (Some ss)
    define r where "r = sys_recv fd kReadChunk (kern s)"
    define s1 where "s1 = s\<lparr>kern := snd r\<rparr>"
    have s1: "R s s1" unfolding s1_def r_def by (rule R_recv)
    show ?thesis
    proof (cases "closing ss")
      case True
      with ss show ?thesis by (subst on_readable.simps) (simp add: R_refl)
    next
      case open_ss: False
      note form = on_readable.simps [of fd s, unfolded ss option.case Let_def, folded r_def, folded s1_def]
      note IH = 1 [OF ss open_ss r_def s1_def]
      show ?thesis
      proof (cases "fst r")
        case (Data bs)
        have "R s1 (receive_bytes fd ss bs s1)"
          using ss open_ss by (intro R_receive_bytes) (simp_all add: s1_def)
        then have "R s (snd (consume_messages fd (receive_bytes fd ss bs s1)))"
          using s1 R_consume_messages by (blast intro: R_trans)
        moreover have "R s (begin_orderly_close fd reason s1)" for reason
          using s1 R_close by (blast intro: R_trans)
        ultimately show ?thesis
          using IH(1) [OF Data _ refl] by (auto simp: form open_ss Data intro: R_trans)
      next
        case (RecvError e)
        have "R s (drop_fd fd reason s1)" for reason using s1 R_drop by (blast intro: R_trans)
        then show ?thesis
          using IH(2) [OF RecvError] s1 by (auto simp: form open_ss RecvError intro: R_trans)
      qed
    qed
  qed
qed

end

locale input_effects = consume_effects + io_effects

sublocale input_effects \<subseteq> reading_effects R ..

end
