(* ===== verification/Exchange_Server.thy ===== *)
theory Exchange_Server
  imports Server_Protocol
begin

text \<open>
  The server's main loop, \<^verbatim>\<open>src/src/exchange_server.cpp\<close>: accepting connections with a back-off when
  descriptors run out, dispatching the events of a batch, the deferred close at its end, start and
  shutdown. One \<open>tick\<close> is one pass of the loop: what the wait delivers, the time it ends and
  whether a signal arrives during the batch; \<open>run\<close> consumes a list of ticks and shuts down when the list
  ends (the signal found at the loop head).
\<close>

section \<open>Accepting connections\<close>

definition pause_accepting :: "Server \<Rightarrow> Server" where
  "pause_accepting s =
     (if accept_resume_at s \<noteq> 0 then s
      else
        (let s = s\<lparr>accept_resume_at := now (kern s) + kAcceptBackoff\<rparr>;
             s = s\<lparr>event_loop := snd (loop_update (ts_fd (listener s)) False False (event_loop s))\<rparr>
         in say (''exchange_server: '' @ ts_error (listener s) @ ''; not accepting for 1s ('' @
                 to_string (int (length (sessions s))) @ '' clients connected)'') s))"

definition resume_accepting_if_due :: "Server \<Rightarrow> Server" where
  "resume_accepting_if_due s =
     (if accept_resume_at s = 0 then s
      else if now (kern s) < accept_resume_at s then s
      else
        (let s = s\<lparr>accept_resume_at := 0\<rparr>
         in s\<lparr>event_loop := snd (loop_update (ts_fd (listener s)) True False (event_loop s))\<rparr>))"

lemma pause_frame [frame_simps]:
  "sessions (pause_accepting s) = sessions s" "closed_fds (pause_accepting s) = closed_fds s"
  "listener (pause_accepting s) = listener s" "kern (pause_accepting s) = kern s"
  "subscribers (pause_accepting s) = subscribers s" "usernames (pause_accepting s) = usernames s"
  "book (pause_accepting s) = book s"
  by (simp_all add: pause_accepting_def say_def Let_def)

lemma resume_frame [frame_simps]:
  "sessions (resume_accepting_if_due s) = sessions s" "closed_fds (resume_accepting_if_due s) = closed_fds s"
  "listener (resume_accepting_if_due s) = listener s" "kern (resume_accepting_if_due s) = kern s"
  "subscribers (resume_accepting_if_due s) = subscribers s" "usernames (resume_accepting_if_due s) = usernames s"
  "book (resume_accepting_if_due s) = book s"
  by (simp_all add: resume_accepting_if_due_def Let_def)

text \<open>The rest of the loop body once a connection is there: the session is created and registered, or
  the connection is closed again when it cannot be registered. The value the send buffer ends up
  with is not used.\<close>

definition admit :: "int \<Rightarrow> string \<Rightarrow> Server \<Rightarrow> Server" where
  "admit fd peer_addr s =
     (let s = (if send_buffer_bytes s > 0
               then s\<lparr>kern := snd (set_send_buffer fd (send_buffer_bytes s) (send_buffer_bytes s) (kern s))\<rparr>
               else s);
          s = (if session s fd = None then put_session fd ((new_session fd)\<lparr>peer := peer_addr\<rparr>) s else s);
          (added, l) = loop_add fd True False (event_loop s);
          s = s\<lparr>event_loop := l\<rparr>
      in if \<not> added
         then s\<lparr>sessions := AList.delete fd (sessions s), kern := sys_close fd (kern s)\<rparr>
         else
           (let (ss, s) = session_at fd s
            in log_connection_count (''[+] connection accepted: fd '' @ to_string fd @ '' from '' @ peer ss)
                 (length (sessions s)) s))"

lemma admit_accept_script [simp]: "accept_script (kern (admit fd p s)) = accept_script (kern s)"
  by (simp add: admit_def Let_def case_prod_unfold session_at_def log_connection_count_def say_def frame_simps
      split: option.split)

lemma accept_connection_shrinks:
  "0 \<le> acc_fd (fst (accept_connection srv k)) \<Longrightarrow>
     length (accept_script (snd (snd (accept_connection srv k)))) < length (accept_script k)"
  using accept_connection_some(11) [of srv k] by (metis prod.collapse)

function accept_pending :: "Server \<Rightarrow> Server" where
  "accept_pending s =
     (let r = accept_connection (listener s) (kern s);
          a = fst r;
          s' = s\<lparr>listener := fst (snd r), kern := snd (snd r)\<rparr>
      in if acc_fd a < 0
         then (if acc_again a then s'
               else if acc_exhausted a then pause_accepting s'
               else if ts_error (listener s') \<noteq> []
               then say (''exchange_server: '' @ ts_error (listener s')) s'
               else s')
         else accept_pending (admit (acc_fd a) (acc_peer a) s'))"
  by pat_completeness auto

termination
  by (relation "measure (\<lambda>s. length (accept_script (kern s)))") (auto intro: accept_connection_shrinks)

declare accept_pending.simps [simp del]

section \<open>The main loop\<close>

definition handle_event :: "Event \<Rightarrow> Server \<Rightarrow> Server" where
  "handle_event ev s =
     (if ev_fd ev = ts_fd (listener s) then accept_pending s
      else if session s (ev_fd ev) = None then s
      else
        (let s = (if ev_writable ev then on_writable (ev_fd ev) s else s)
         in if session s (ev_fd ev) = None then s
            else
              (let s = (if ev_readable ev then on_readable (ev_fd ev) s else s)
               in if session s (ev_fd ev) = None then s
                  else if ev_hangup ev
                  then drop_fd (ev_fd ev) ''socket error reported by the event loop'' s
                  else s)))"

text \<open>\<open>t_stop = Some n\<close>: the signal that sets \<^verbatim>\<open>g_stop\<close> arrives before the event number \<open>n\<close> of the
  batch is looked at.\<close>

record tick =
  t_poll :: poll_result
  t_kq :: kevent_result
  t_now :: nat
  t_stop :: "nat option"

fun dispatch :: "Event list \<Rightarrow> nat option \<Rightarrow> Server \<Rightarrow> Server" where
  "dispatch [] stop s = s"
| "dispatch (ev # evs) stop s =
     (if stop = Some 0 then s
      else dispatch evs (map_option (\<lambda>n. n - 1) stop) (handle_event ev s))"

text \<open>\<^verbatim>\<open>errno\<close> after a failed wait.\<close>

definition wait_errno :: "tick \<Rightarrow> EventLoop \<Rightarrow> errno" where
  "wait_errno t l =
     (if backend l = Poll then (case t_poll t of PollError e \<Rightarrow> e | PollEvents _ \<Rightarrow> EOTHER 0)
      else (case t_kq t of KError e \<Rightarrow> e | KEvents _ \<Rightarrow> EOTHER 0))"

definition batch :: "tick \<Rightarrow> Event list \<Rightarrow> Server \<Rightarrow> Server" where
  "batch t events s = reap_closed (dispatch events (t_stop t) (resume_accepting_if_due s))"

fun run :: "tick list \<Rightarrow> Server \<Rightarrow> Server" where
  "run [] s = shutdown_all s"
| "run (t # ts) s =
     (let (ready, events, l) = loop_wait (t_poll t) (t_kq t) (event_loop s);
          s = s\<lparr>event_loop := l, kern := (kern s)\<lparr>now := t_now t\<rparr>\<rparr>
      in if ready < 0
         then (if wait_errno t (event_loop s) = EINTR
               then (if t_stop t \<noteq> None then shutdown_all s else run ts s)
               else shutdown_all (say (''exchange_server: event wait failed: '' @
                                       strerror (kern s) (wait_errno t (event_loop s))) s))
         else
           (let s = batch t events s
            in if t_stop t \<noteq> None then shutdown_all s else run ts s))"

definition SOMAXCONN :: int where "SOMAXCONN = 128"

definition server_start :: "Server \<Rightarrow> bool \<times> Server" where
  "server_start s =
     (let (started, srv, k) = start SOMAXCONN (listener s) (kern s);
          s = s\<lparr>listener := srv, kern := k\<rparr>
      in if \<not> started then (False, say (''exchange_server: '' @ ts_error srv) s)
         else
           (let (added, l) = loop_add (ts_fd srv) True False (event_loop s);
                s = s\<lparr>event_loop := l\<rparr>
            in if \<not> added then (False, say ''exchange_server: cannot register listening socket'' s)
               else (True, say (''Exchange Server listening on '' @ ts_host srv @ '':'' @ to_string (ts_port srv) @
                       '' (listening socket fd '' @ to_string (ts_fd srv) @ '', I/O backend '' @
                       backend_name (backend (event_loop s)) @ '')'') s)))"

text \<open>The members are destroyed in the reverse order of their declaration; those that own a descriptor are the event
  loop and the listening socket.\<close>

definition destroy_exchange :: "Server \<Rightarrow> Kernel" where
  "destroy_exchange s = destroy_server (listener s) (destroy_loop (event_loop s) (kern s))"

end
