(* ===== verification/Server_Invariants.thy ===== *)
theory Server_Invariants
  imports Exchange_Server
begin

text \<open>
  Invariants of the exchange server. The locale \<open>message_invariant\<close> lists what has to be shown of a
  predicate on server states: that handling a message, sending, dropping and accepting keep it; its consequences are that
  reading, writing and whole batches of events keep it, and that it holds in every state the main
  loop passes through (\<open>serving\<close>). \<open>server_invariant\<close> asks instead that each primitive operation of the handlers
  keeps it, which gives the former. The latter is interpreted for the sessions' buffers and
  flags (\<open>si\<close>), the registries of users, subscribers and orders (\<open>rg\<close>), the descriptors (\<open>fi\<close>),
  the registrations with the event loop (\<open>li\<close>) and the outgoing streams (\<open>st\<close>).
\<close>

section \<open>Invariants of the main loop\<close>

locale loop_invariant =
  fixes P :: "Server \<Rightarrow> bool"
  assumes P_say: "P s \<Longrightarrow> P (say line s)"
    and P_send: "P s \<Longrightarrow> (names_ok s \<Longrightarrow> one_line m) \<Longrightarrow> P (send_to fd m s)"
    and P_writable: "P s \<Longrightarrow> P (on_writable fd s)"
    and P_close: "P s \<Longrightarrow> P (begin_orderly_close fd reason s)"
    and P_drop: "P s \<Longrightarrow> P (drop_fd fd reason s)"
    and P_cut: "P s \<Longrightarrow> session s fd = Some ss \<Longrightarrow> suffix rest (inbuf ss) \<Longrightarrow>
          P (put_session fd (ss\<lparr>inbuf := rest\<rparr>) s)"
    and P_recv: "P s \<Longrightarrow> P (s\<lparr>kern := snd (sys_recv fd n (kern s))\<rparr>)"
    and P_append: "P s \<Longrightarrow> session s fd = Some ss \<Longrightarrow> \<not> closing ss \<Longrightarrow>
          P (put_session fd (ss\<lparr>inbuf := inbuf ss @ bs\<rparr>) s)"
    and P_accept_none: "P s \<Longrightarrow> accept_connection (listener s) (kern s) = (a, srv, k) \<Longrightarrow> acc_fd a < 0 \<Longrightarrow>
          P (s\<lparr>listener := srv, kern := k\<rparr>)"
    and P_admit: "P s \<Longrightarrow> accept_connection (listener s) (kern s) = (a, srv, k) \<Longrightarrow> 0 \<le> acc_fd a \<Longrightarrow>
          P (admit (acc_fd a) (acc_peer a) (s\<lparr>listener := srv, kern := k\<rparr>))"
    and P_pause: "P s \<Longrightarrow> P (pause_accepting s)"
    and P_resume: "P s \<Longrightarrow> P (resume_accepting_if_due s)"
    and P_reap: "P s \<Longrightarrow> P (reap_closed s)"
    and P_wait: "P s \<Longrightarrow> P (s\<lparr>event_loop := snd (snd (loop_wait pr kr (event_loop s))), kern := (kern s)\<lparr>now := n\<rparr>\<rparr>)"

locale message_invariant = loop_invariant +
  assumes P_message: "P s \<Longrightarrow> session s fd = Some ss \<Longrightarrow> P (handle_message fd line s)"

sublocale message_invariant \<subseteq> rd: reading_effects "\<lambda>s t. P s \<longrightarrow> P t"
  by unfold_locales (blast intro: P_say P_send P_writable P_close P_drop P_message P_cut P_recv P_append)+

text \<open>The states the main loop passes through from \<open>s\<^sub>0\<close> on: after a wait, after the check of the
  accept back-off, after each event (whatever it is) and after the deferred closes.\<close>

inductive serving :: "Server \<Rightarrow> Server \<Rightarrow> bool" for s0 :: Server where
  start: "serving s0 s0"
| wait: "serving s0 s \<Longrightarrow>
    serving s0 (s\<lparr>event_loop := snd (snd (loop_wait pr kr (event_loop s))), kern := (kern s)\<lparr>now := n\<rparr>\<rparr>)"
| resume: "serving s0 s \<Longrightarrow> serving s0 (resume_accepting_if_due s)"
| event: "serving s0 s \<Longrightarrow> serving s0 (handle_event ev s)"
| reap: "serving s0 s \<Longrightarrow> serving s0 (reap_closed s)"

context message_invariant
begin

lemma P_accept_pending: "P s \<Longrightarrow> P (accept_pending s)"
proof (induction s rule: accept_pending.induct)
  case (1 s)
  obtain a srv k where acc: "accept_connection (listener s) (kern s) = (a, srv, k)" by (metis surj_pair)
  show ?case
  proof (cases "acc_fd a < 0")
    case True
    have "P (s\<lparr>listener := srv, kern := k\<rparr>)" using P_accept_none [OF 1(2) acc True] .
    then show ?thesis
      using True by (subst accept_pending.simps) (simp add: acc Let_def P_pause P_say)
  next
    case False
    then have "P (admit (acc_fd a) (acc_peer a) (s\<lparr>listener := srv, kern := k\<rparr>))"
      using P_admit [OF 1(2) acc] by simp
    with 1(1) [OF refl refl refl] False show ?thesis
      by (subst accept_pending.simps) (simp add: acc Let_def)
  qed
qed

lemma P_handle_event: "P s \<Longrightarrow> P (handle_event ev s)"
proof -
  assume "P s"
  moreover have "P s \<Longrightarrow> P (on_readable fd s)" for fd s using rd.R_on_readable by blast
  ultimately show ?thesis by (simp add: handle_event_def Let_def P_accept_pending P_writable P_drop)
qed

lemma serving_invariant: "serving s0 s \<Longrightarrow> P s0 \<Longrightarrow> P s"
  by (induction rule: serving.induct) (simp_all add: P_wait P_resume P_handle_event P_reap)

lemma dispatch_invariant: "P s \<Longrightarrow> P (dispatch evs stop s)"
  by (induction evs stop s rule: dispatch.induct) (simp_all add: P_handle_event)

lemma run_invariant:
  assumes "P s" and down: "\<And>u. P u \<Longrightarrow> Q (shutdown_all u)"
  shows "Q (run ts s)"
  using assms(1)
proof (induction ts arbitrary: s)
  case Nil
  then show ?case by (simp add: down)
next
  case (Cons t ts)
  obtain ready events l where w: "loop_wait (t_poll t) (t_kq t) (event_loop s) = (ready, events, l)" by (metis surj_pair)
  define s1 where "s1 = s\<lparr>event_loop := l, kern := (kern s)\<lparr>now := t_now t\<rparr>\<rparr>"
  have s1: "P s1" using P_wait [OF Cons.prems, where pr = "t_poll t" and kr = "t_kq t"] by (simp add: s1_def w)
  then have s2: "P (batch t events s1)" by (simp add: batch_def P_reap dispatch_invariant P_resume)
  show ?case
    using Cons.IH [OF s1] Cons.IH [OF s2] down [OF s1] down [OF s2] down [OF P_say [OF s1]]
    by (simp add: w s1_def [symmetric] Let_def)
qed

end

text \<open>Two invariants together are one.\<close>

lemma message_invariant_conj:
  assumes "message_invariant P" and "message_invariant Q"
  shows "message_invariant (\<lambda>s. P s \<and> Q s)"
  using assms unfolding message_invariant_def loop_invariant_def message_invariant_axioms_def by auto

section \<open>Invariants of the primitive operations\<close>

locale server_invariant = loop_invariant +
  assumes P_login: "P s \<Longrightarrow> session s fd = Some ss \<Longrightarrow> role ss \<noteq> ROLE_MARKET_DATA \<Longrightarrow> \<not> logged_in ss \<Longrightarrow>
          user \<notin> set (usernames s) \<Longrightarrow> user_name user \<Longrightarrow> P (register_login fd ss user s)"
    and P_role: "P s \<Longrightarrow> session s fd = Some ss \<Longrightarrow> role ss = ROLE_UNKNOWN \<Longrightarrow>
          P (put_session fd (ss\<lparr>role := ROLE_MARKET_DATA\<rparr>) s)"
    and P_subscribe: "P s \<Longrightarrow> session s fd = Some ss \<Longrightarrow> role ss = ROLE_MARKET_DATA \<Longrightarrow> is_valid_instrument i \<Longrightarrow>
          P (add_subscription fd ss i s)"
    and P_unsubscribe: "P s \<Longrightarrow> session s fd = Some ss \<Longrightarrow> role ss = ROLE_MARKET_DATA \<Longrightarrow>
          P (remove_subscription fd ss i s)"
    and P_order: "P s \<Longrightarrow> session s fd = Some ss \<Longrightarrow> logged_in ss \<Longrightarrow> is_valid_instrument i \<Longrightarrow> order_terms qty price \<Longrightarrow>
          P (s\<lparr>book := snd (snd (add_order fd i side qty price [] (book s)))\<rparr>)"
    and P_cancel: "P s \<Longrightarrow> session s fd = Some ss \<Longrightarrow> logged_in ss \<Longrightarrow>
          P (s\<lparr>book := snd (cancel_order oid fd (book s))\<rparr>)"

sublocale server_invariant \<subseteq> eff: input_effects "\<lambda>s t. P s \<longrightarrow> P t"
  by unfold_locales
    (blast intro: P_say P_send P_writable P_close P_drop P_login P_role P_subscribe P_unsubscribe P_order
      P_cancel P_cut P_recv P_append)+

sublocale server_invariant \<subseteq> message_invariant P
  by unfold_locales (use eff.R_handle_message in blast)

section \<open>Sessions\<close>

text \<open>Each session is filed under its descriptor, its output path is at rest, and a session being
  closed holds no unread input.\<close>

definition session_ok :: "int \<Rightarrow> ClientSession \<Rightarrow> bool" where
  "session_ok fd ss \<longleftrightarrow> s_fd ss = fd \<and> settled_output ss \<and> (closing ss \<longrightarrow> inbuf ss = [])"

definition sessions_inv :: "Server \<Rightarrow> bool" where
  "sessions_inv s \<longleftrightarrow> distinct (map fst (sessions s)) \<and> (\<forall>fd ss. session s fd = Some ss \<longrightarrow> session_ok fd ss)"

lemma sessions_invD: "sessions_inv s \<Longrightarrow> session s fd = Some ss \<Longrightarrow> session_ok fd ss"
  by (simp add: sessions_inv_def)

lemma sessions_inv_put:
  assumes "sessions_inv s" and "sessions t = AList.update fd ss (sessions s)" and "session_ok fd ss"
  shows "sessions_inv t"
  using assms by (simp add: sessions_inv_def distinct_update)

lemma sessions_inv_cong: "sessions_inv s \<Longrightarrow> sessions t = sessions s \<Longrightarrow> sessions_inv t"
  by (simp add: sessions_inv_def)

lemma sessions_inv_delete:
  "sessions_inv s \<Longrightarrow> sessions t = AList.delete fd (sessions s) \<Longrightarrow> sessions_inv t"
  by (simp add: sessions_inv_def distinct_delete)

lemma settled_output_cong:
  assumes "settled_output ss" and "out_start ss' = out_start ss" and "outbuf ss' = outbuf ss"
    and "backlogged ss' = backlogged ss" and "write_interest ss' = write_interest ss"
    and "read_interest ss' = read_interest ss" and "closing ss' = closing ss"
  shows "settled_output ss'"
  using assms by (simp add: settled_output_def has_pending_output_def pending_bytes_def)

lemma drop_fd_sessions: "sessions (drop_fd fd reason s) = AList.delete fd (sessions s)"
proof (cases "session s fd")
  case None
  then show ?thesis by (simp add: drop_fd_None delete_idem weak_map_of_SomeI map_of_eq_None_iff)
next
  case (Some ss)
  show ?thesis by (rule drop_fd_form [OF Some, of reason]) simp
qed

lemma sessions_inv_drop: "sessions_inv s \<Longrightarrow> sessions_inv (drop_fd fd reason s)"
  by (rule sessions_inv_delete [OF _ drop_fd_sessions])

lemma sessions_inv_send:
  assumes "sessions_inv s"
  shows "sessions_inv (send_to fd m s)"
proof (cases rule: send_to_cases [of s fd m])
  case absent
  with assms show ?thesis by simp
next
  case (kept ss ss' k c l w)
  from sessions_invD [OF assms kept(1)] kept(3,4) have "session_ok fd ss'"
    by (simp add: session_ok_def same_client_def)
  then show ?thesis using kept(2) by (intro sessions_inv_put [OF assms, of _ fd ss']) simp_all
next
  case (gone ss reason ss' k c w)
  from sessions_invD [OF assms gone(1)] have fd: "s_fd ss = fd" by (simp add: session_ok_def)
  have "sessions (send_to fd m s) = AList.delete fd (sessions s)"
    by (simp add: gone(2) drop_fd_sessions fd)
  with assms show ?thesis by (rule sessions_inv_delete)
qed

lemma sessions_inv_close:
  assumes "sessions_inv s"
  shows "sessions_inv (begin_orderly_close fd reason s)"
proof (cases rule: begin_orderly_close_cases [of s fd reason])
  case absent
  with assms show ?thesis by simp
next
  case (drained ss)
  have "sessions (begin_orderly_close fd reason s) = AList.delete fd (sessions s)"
    by (simp add: drained(3) drop_fd_sessions)
  with assms show ?thesis by (rule sessions_inv_delete)
next
  case (queued ss)
  from sessions_invD [OF assms queued(1)] queued(2)
  have "session_ok fd (ss\<lparr>closing := True, inbuf := [], read_interest := False, write_interest := True\<rparr>)"
    by (simp add: session_ok_def settled_output_def has_pending_output_def pending_bytes_def)
  then show ?thesis by (intro sessions_inv_put [OF assms]) (simp_all add: queued(3))
qed

text \<open>What \<open>admit\<close> does, up to what it prints.\<close>

lemma admit_form:
  obtains c where "admit fd p s =
    (let base = (if session s fd = None then AList.update fd ((new_session fd)\<lparr>peer := p\<rparr>) (sessions s) else sessions s);
         k = (if send_buffer_bytes s > 0 then snd (set_send_buffer fd (send_buffer_bytes s) (send_buffer_bytes s) (kern s)) else kern s);
         added = fst (loop_add fd True False (event_loop s))
     in s\<lparr>kern := (if added then k else sys_close fd k), sessions := (if added then base else AList.delete fd base),
          event_loop := snd (loop_add fd True False (event_loop s)), console := c\<rparr>)"
proof -
  define base where "base = (if session s fd = None then AList.update fd ((new_session fd)\<lparr>peer := p\<rparr>) (sessions s) else sessions s)"
  define k where "k = (if send_buffer_bytes s > 0 then snd (set_send_buffer fd (send_buffer_bytes s) (send_buffer_bytes s) (kern s)) else kern s)"
  obtain added l where add: "loop_add fd True False (event_loop s) = (added, l)" by fastforce
  define t where "t = s\<lparr>kern := k, sessions := base, event_loop := l\<rparr>"
  obtain ss where ss: "map_of base fd = Some ss" by (cases "session s fd") (auto simp: base_def)
  have "admit fd p s =
      (if \<not> added then t\<lparr>sessions := AList.delete fd (sessions t), kern := sys_close fd (kern t)\<rparr>
       else log_connection_count (''[+] connection accepted: fd '' @ to_string fd @ '' from '' @ peer ss) (length (sessions t)) t)"
    using ss unfolding admit_def Let_def t_def base_def k_def
    by (cases "session s fd = None"; cases "send_buffer_bytes s > 0") (simp_all add: add session_at_def)
  moreover obtain c where "log_connection_count (''[+] connection accepted: fd '' @ to_string fd @ '' from '' @ peer ss)
      (length (sessions t)) t = t\<lparr>console := c\<rparr>"
    using log_connection_count_form by blast
  ultimately have "admit fd p s = t\<lparr>sessions := (if added then base else AList.delete fd base),
      kern := (if added then k else sys_close fd k), console := (if added then c else console s)\<rparr>"
    by (simp add: t_def)
  also have "\<dots> = s\<lparr>kern := (if added then k else sys_close fd k), sessions := (if added then base else AList.delete fd base),
      event_loop := l, console := (if added then c else console s)\<rparr>"
    by (simp add: t_def)
  finally show thesis
    by (intro that [of "if added then c else console s"]) (simp only: Let_def add base_def k_def fst_conv snd_conv)
qed

definition admit_kern :: "int \<Rightarrow> Server \<Rightarrow> Kernel" where
  "admit_kern fd s =
     (if send_buffer_bytes s > 0 then snd (set_send_buffer fd (send_buffer_bytes s) (send_buffer_bytes s) (kern s))
      else kern s)"

lemma admit_new_form:
  assumes "session s fd = None"
  shows "\<exists>c. admit fd p s = (if fst (loop_add fd True False (event_loop s))
    then s\<lparr>kern := admit_kern fd s, sessions := AList.update fd ((new_session fd)\<lparr>peer := p\<rparr>) (sessions s),
           event_loop := snd (loop_add fd True False (event_loop s)), console := c\<rparr>
    else s\<lparr>kern := sys_close fd (admit_kern fd s), event_loop := snd (loop_add fd True False (event_loop s)), console := c\<rparr>)"
proof (rule admit_form [of fd p s])
  fix c
  have del: "AList.delete fd (sessions s) = sessions s"
    using assms by (simp add: delete_idem map_of_eq_None_iff)
  assume "admit fd p s =
    (let base = (if session s fd = None then AList.update fd ((new_session fd)\<lparr>peer := p\<rparr>) (sessions s) else sessions s);
         k = (if send_buffer_bytes s > 0 then snd (set_send_buffer fd (send_buffer_bytes s) (send_buffer_bytes s) (kern s)) else kern s);
         added = fst (loop_add fd True False (event_loop s))
     in s\<lparr>kern := (if added then k else sys_close fd k), sessions := (if added then base else AList.delete fd base),
          event_loop := snd (loop_add fd True False (event_loop s)), console := c\<rparr>)"
  then show ?thesis
    unfolding Let_def admit_kern_def [symmetric]
    by (intro exI [of _ c], cases "fst (loop_add fd True False (event_loop s))") (simp_all add: assms del)
qed

lemma sessions_inv_admit:
  assumes "sessions_inv s"
  shows "sessions_inv (admit fd p s)"
proof -
  have new: "session_ok fd ((new_session fd)\<lparr>peer := p\<rparr>)"
    by (simp add: session_ok_def new_session_def settled_output_def has_pending_output_def pending_bytes_def)
  define t where "t = (if session s fd = None then put_session fd ((new_session fd)\<lparr>peer := p\<rparr>) s else s)"
  have "sessions_inv t"
    using assms sessions_inv_put [OF assms, of t fd, OF _ new] by (auto simp: t_def)
  moreover have "sessions (admit fd p s) = sessions t \<or> sessions (admit fd p s) = AList.delete fd (sessions t)"
    by (rule admit_form [of fd p s]) (simp add: Let_def t_def)
  ultimately show ?thesis using sessions_inv_cong sessions_inv_delete by blast
qed

interpretation si: server_invariant sessions_inv
proof
  fix s fd ss i side oid user line m reason rest n bs a srv k pr kr
    and qty price :: int
  assume inv: "sessions_inv s"
  show "sessions_inv (send_to fd m s)" "sessions_inv (on_writable fd s)"
    using inv by (simp_all add: on_writable_send sessions_inv_send)
  show "sessions_inv (begin_orderly_close fd reason s)" using inv by (rule sessions_inv_close)
  show "sessions_inv (drop_fd fd reason s)" using inv by (rule sessions_inv_drop)
  show "sessions_inv (say line s)" "sessions_inv (s\<lparr>book := snd (snd (add_order fd i side qty price [] (book s)))\<rparr>)"
    "sessions_inv (s\<lparr>book := snd (cancel_order oid fd (book s))\<rparr>)" "sessions_inv (s\<lparr>kern := snd (sys_recv fd n (kern s))\<rparr>)"
    "sessions_inv (s\<lparr>listener := srv, kern := k\<rparr>)" "sessions_inv (pause_accepting s)"
    "sessions_inv (resume_accepting_if_due s)" "sessions_inv (reap_closed s)"
    "sessions_inv (s\<lparr>event_loop := snd (snd (loop_wait pr kr (event_loop s))), kern := (kern s)\<lparr>now := n\<rparr>\<rparr>)"
    using inv
    by (auto intro: sessions_inv_cong simp: say_def pause_accepting_def resume_accepting_if_due_def reap_closed_def Let_def)
  show "sessions_inv (admit (acc_fd a) (acc_peer a) (s\<lparr>listener := srv, kern := k\<rparr>))"
    using inv by (intro sessions_inv_admit sessions_inv_cong [OF inv]) simp
  assume ss: "session s fd = Some ss"
  note ok = sessions_invD [OF inv ss]
  have put: "sessions_inv t"
    if t: "sessions t = AList.update fd ss' (sessions s)" and same: "s_fd ss' = s_fd ss" "out_start ss' = out_start ss"
      "outbuf ss' = outbuf ss" "backlogged ss' = backlogged ss" "write_interest ss' = write_interest ss"
      "read_interest ss' = read_interest ss" "closing ss' = closing ss" "closing ss \<Longrightarrow> inbuf ss' = []" for t ss'
    using ok same settled_output_cong [of ss ss'] by (intro sessions_inv_put [OF inv t]) (simp add: session_ok_def)
  have closed: "closing ss \<Longrightarrow> inbuf ss = []" using ok by (simp add: session_ok_def)
  show "sessions_inv (register_login fd ss user s)"
    by (rule put, simp add: register_login_def, simp_all add: closed)
  show "sessions_inv (put_session fd (ss\<lparr>role := ROLE_MARKET_DATA\<rparr>) s)"
    by (rule put, simp, simp_all add: closed)
  show "sessions_inv (add_subscription fd ss i s)"
    by (rule put, simp add: add_subscription_def, simp_all add: closed)
  show "sessions_inv (remove_subscription fd ss i s)"
    by (rule put, simp add: remove_subscription_def, simp_all add: closed)
  show "sessions_inv (put_session fd (ss\<lparr>inbuf := rest\<rparr>) s)" if "suffix rest (inbuf ss)"
    by (rule put, simp, use that closed in auto)
  show "sessions_inv (put_session fd (ss\<lparr>inbuf := inbuf ss @ bs\<rparr>) s)" if "\<not> closing ss"
    by (rule put, simp, use that in auto)
qed

end
