(* ===== verification/Server_Descriptors.thy ===== *)
theory Server_Descriptors
  imports Server_Invariants
begin

text \<open>
  Descriptors of the server: the second invariant of the main loop. The open descriptors are exactly
  those open when serving began (the standard streams, the listening socket, the kqueue), one per
  session, and those of dropped clients that wait for the end of the batch; the three groups
  are disjoint and no descriptor is closed twice.
\<close>

unbundle bit_operations_syntax

definition fd_ok :: "int set \<Rightarrow> int set \<Rightarrow> int list \<Rightarrow> int \<Rightarrow> Kernel \<Rightarrow> bool" where
  "fd_ok base clients closed lfd k \<longleftrightarrow>
     \<not> bad_close k \<and> distinct closed \<and> set closed \<inter> clients = {} \<and> base \<inter> (set closed \<union> clients) = {} \<and>
     lfd \<in> base \<and> set (open_fds k) = base \<union> set closed \<union> clients \<and>
     (\<forall>fd \<in> clients. fd_flags k fd AND O_NONBLOCK \<noteq> 0)"

definition clients_of :: "Server \<Rightarrow> int set" where
  "clients_of s = dom (map_of (sessions s))"

definition descriptors_inv :: "int set \<Rightarrow> Server \<Rightarrow> bool" where
  "descriptors_inv base s \<longleftrightarrow>
     sessions_inv s \<and> fd_ok base (clients_of s) (closed_fds s) (ts_fd (listener s)) (kern s)"

lemma descriptors_invD: "descriptors_inv base s \<Longrightarrow> sessions_inv s"
  by (simp add: descriptors_inv_def)

lemma fd_ok_kern:
  "fd_ok base cl closed lfd k \<Longrightarrow> open_fds k' = open_fds k \<Longrightarrow> bad_close k' = bad_close k \<Longrightarrow>
     (\<And>fd. fd \<in> cl \<Longrightarrow> fd_flags k' fd = fd_flags k fd) \<Longrightarrow> fd_ok base cl closed lfd k'"
  by (simp add: fd_ok_def)

lemma fd_ok_drop:
  "fd_ok base cl closed lfd k \<Longrightarrow> fd \<in> cl \<Longrightarrow> fd_ok base (cl - {fd}) (closed @ [fd]) lfd k"
  by (auto simp: fd_ok_def)

lemma fd_ok_new:
  "fd_ok base cl closed lfd k \<Longrightarrow> fd \<notin> set (open_fds k) \<Longrightarrow> open_fds k' = fd # open_fds k \<Longrightarrow>
     bad_close k' = bad_close k \<Longrightarrow> fd_flags k' fd AND O_NONBLOCK \<noteq> 0 \<Longrightarrow>
     (\<And>fd'. fd' \<noteq> fd \<Longrightarrow> fd_flags k' fd' = fd_flags k fd') \<Longrightarrow> fd_ok base (insert fd cl) closed lfd k'"
  by (auto simp: fd_ok_def) metis+

lemma fd_ok_reap:
  assumes "fd_ok base cl closed lfd k"
  shows "fd_ok base cl [] lfd (fold sys_close closed k)"
proof -
  have "distinct closed" "set closed \<subseteq> set (open_fds k)" using assms by (auto simp: fd_ok_def)
  from fold_sys_close [OF this] assms show ?thesis by (auto simp: fd_ok_def)
qed

lemma clients_of_put: "session s fd = Some ss \<Longrightarrow> sessions t = AList.update fd ss' (sessions s) \<Longrightarrow> clients_of t = clients_of s"
  by (auto simp: clients_of_def)

lemma drop_fd_descriptors:
  assumes "session s fd = Some ss"
  shows "clients_of (drop_fd fd reason s) = clients_of s - {fd}" "closed_fds (drop_fd fd reason s) = closed_fds s @ [fd]"
    "kern (drop_fd fd reason s) = kern s" "listener (drop_fd fd reason s) = listener s"
  by (rule drop_fd_form [OF assms, of reason], simp add: clients_of_def)+

lemma descriptors_inv_cong:
  assumes "descriptors_inv base s" and "sessions_inv t" and "clients_of t = clients_of s"
    and "closed_fds t = closed_fds s" and "ts_fd (listener t) = ts_fd (listener s)"
    and "open_fds (kern t) = open_fds (kern s)" and "bad_close (kern t) = bad_close (kern s)"
    and "fd_flags (kern t) = fd_flags (kern s)"
  shows "descriptors_inv base t"
  using assms fd_ok_kern [of base "clients_of s" "closed_fds s" "ts_fd (listener s)" "kern s" "kern t"]
  by (simp add: descriptors_inv_def)

lemma descriptors_inv_same:
  assumes "descriptors_inv base s" and "sessions t = sessions s" and "closed_fds t = closed_fds s"
    and "listener t = listener s" and "open_fds (kern t) = open_fds (kern s)"
    and "bad_close (kern t) = bad_close (kern s)" and "fd_flags (kern t) = fd_flags (kern s)"
  shows "descriptors_inv base t"
  using assms sessions_inv_cong [OF descriptors_invD [OF assms(1)]]
  by (intro descriptors_inv_cong [OF assms(1)]) (simp_all add: clients_of_def)

lemma descriptors_inv_drop:
  assumes "descriptors_inv base s"
  shows "descriptors_inv base (drop_fd fd reason s)"
proof (cases "session s fd")
  case None
  with assms show ?thesis by (simp add: drop_fd_None)
next
  case (Some ss)
  then have "fd \<in> clients_of s" by (auto simp: clients_of_def)
  then show ?thesis
    using assms fd_ok_drop drop_fd_descriptors [OF Some, of reason] sessions_inv_drop
    by (simp add: descriptors_inv_def)
qed

lemma descriptors_inv_send:
  assumes "descriptors_inv base s"
  shows "descriptors_inv base (send_to fd m s)"
proof (cases rule: send_to_cases [of s fd m])
  case absent
  with assms show ?thesis by simp
next
  case (kept ss ss' k c l w)
  show ?thesis
    using sessions_inv_send [OF descriptors_invD [OF assms], of fd m] kept(2) only_output_frame [OF kept(5)]
    by (intro descriptors_inv_cong [OF assms]) (simp_all add: clients_of_put [OF kept(1)])
next
  case (gone ss reason ss' k c w)
  let ?s1 = "put_session fd ss' (s\<lparr>kern := k, console := c\<rparr>)"
  have fd: "s_fd ss = fd" using sessions_invD [OF descriptors_invD [OF assms] gone(1)] by (simp add: session_ok_def)
  have s1: "session ?s1 fd = Some ss'" by simp
  have "clients_of ?s1 = clients_of s" by (rule clients_of_put [OF gone(1)]) simp
  then have "fd_ok base (clients_of ?s1) (closed_fds ?s1) (ts_fd (listener ?s1)) (kern ?s1)"
    using assms fd_ok_kern [of base "clients_of s" "closed_fds s" "ts_fd (listener s)" "kern s" k] only_output_frame [OF gone(4)]
    by (simp add: descriptors_inv_def)
  moreover have "fd \<in> clients_of ?s1" by (simp add: clients_of_def)
  ultimately show ?thesis
    using fd_ok_drop drop_fd_descriptors [OF s1, of reason] sessions_inv_send [OF descriptors_invD [OF assms], of fd m]
    by (simp add: descriptors_inv_def gone(2) fd)
qed

lemma descriptors_inv_close:
  assumes "descriptors_inv base s"
  shows "descriptors_inv base (begin_orderly_close fd reason s)"
proof (cases rule: begin_orderly_close_cases [of s fd reason])
  case absent
  with assms show ?thesis by simp
next
  case (drained ss)
  let ?s1 = "put_session fd (ss\<lparr>closing := True, inbuf := []\<rparr>) s"
  have s1: "session ?s1 fd = Some (ss\<lparr>closing := True, inbuf := []\<rparr>)" by simp
  have "clients_of ?s1 = clients_of s" by (rule clients_of_put [OF drained(1)]) simp
  moreover have "fd \<in> clients_of ?s1" by (simp add: clients_of_def)
  ultimately show ?thesis
    using assms fd_ok_drop drop_fd_descriptors [OF s1, of reason] sessions_inv_close [OF descriptors_invD [OF assms], of fd reason]
    by (simp add: descriptors_inv_def drained(3))
next
  case (queued ss)
  show ?thesis
    using sessions_inv_close [OF descriptors_invD [OF assms], of fd reason]
    by (intro descriptors_inv_cong [OF assms]) (simp_all add: queued(3) clients_of_put [OF queued(1)] frame_simps)
qed

lemma descriptors_inv_admit:
  assumes inv: "descriptors_inv base s" and acc: "accept_connection (listener s) (kern s) = (a, srv, k)"
    and fd: "0 \<le> acc_fd a"
  shows "descriptors_inv base (admit (acc_fd a) (acc_peer a) (s\<lparr>listener := srv, kern := k\<rparr>))"
    and "session s (acc_fd a) = None"
proof -
  let ?fd = "acc_fd a" and ?s = "s\<lparr>listener := srv, kern := k\<rparr>"
  note some = accept_connection_some [OF acc fd]
  have ok: "fd_ok base (clients_of s) (closed_fds s) (ts_fd (listener s)) (kern s)"
    using inv by (simp add: descriptors_inv_def)
  then have "?fd \<notin> clients_of s" "?fd \<notin> base" "?fd \<notin> set (closed_fds s)"
    using some(2) by (auto simp: fd_ok_def)
  then show none: "session s ?fd = None" by (auto simp: clients_of_def)
  have sess: "sessions_inv (admit ?fd (acc_peer a) ?s)"
    by (rule sessions_inv_admit, rule sessions_inv_cong [OF descriptors_invD [OF inv]]) simp
  define k1 where "k1 = admit_kern ?fd ?s"
  have k1: "open_fds k1 = ?fd # open_fds (kern s)" "bad_close k1 = bad_close (kern s)" "fd_flags k1 = fd_flags k"
    using some(1,3) by (simp_all add: k1_def admit_kern_def frame_simps)
  have new: "fd_ok base (insert ?fd (clients_of s)) (closed_fds s) (ts_fd (listener s)) k1"
    using fd_ok_new [OF ok some(2), of k1] some(7,8) by (simp add: k1)
  have none': "session ?s ?fd = None" using none by simp
  obtain c where form: "admit ?fd (acc_peer a) ?s = (if fst (loop_add ?fd True False (event_loop ?s))
      then ?s\<lparr>kern := k1, sessions := AList.update ?fd ((new_session ?fd)\<lparr>peer := acc_peer a\<rparr>) (sessions ?s),
           event_loop := snd (loop_add ?fd True False (event_loop ?s)), console := c\<rparr>
      else ?s\<lparr>kern := sys_close ?fd k1, event_loop := snd (loop_add ?fd True False (event_loop ?s)), console := c\<rparr>)"
    using admit_new_form [OF none', of "acc_peer a"] unfolding k1_def by blast
  show "descriptors_inv base (admit ?fd (acc_peer a) ?s)"
  proof (cases "fst (loop_add ?fd True False (event_loop ?s))")
    case True
    with form have "admit ?fd (acc_peer a) ?s = ?s\<lparr>kern := k1,
        sessions := AList.update ?fd ((new_session ?fd)\<lparr>peer := acc_peer a\<rparr>) (sessions ?s),
        event_loop := snd (loop_add ?fd True False (event_loop ?s)), console := c\<rparr>" by simp
    with sess new show ?thesis
      unfolding descriptors_inv_def by (simp add: some(10) clients_of_def)
  next
    case False
    with form have adm: "admit ?fd (acc_peer a) ?s = ?s\<lparr>kern := sys_close ?fd k1,
        event_loop := snd (loop_add ?fd True False (event_loop ?s)), console := c\<rparr>" by simp
    have "open_fds (sys_close ?fd k1) = open_fds (kern s) \<and> bad_close (sys_close ?fd k1) = bad_close (kern s)"
      using close_fresh [of k1 ?fd] k1 some(2) by simp
    moreover have "fd_flags k1 fd' = fd_flags (kern s) fd'" if "fd' \<in> clients_of s" for fd'
      using that some(7) \<open>?fd \<notin> clients_of s\<close> by (metis k1(3))
    ultimately have "fd_ok base (clients_of s) (closed_fds s) (ts_fd (listener s)) (sys_close ?fd k1)"
      using fd_ok_kern [OF ok, of "sys_close ?fd k1"] by (simp add: frame_simps)
    with adm sess show ?thesis unfolding descriptors_inv_def by (simp add: some(10) clients_of_def)
  qed
qed

lemma descriptors_inv_reap: "descriptors_inv base s \<Longrightarrow> descriptors_inv base (reap_closed s)"
  using fd_ok_reap si.P_reap by (auto simp: descriptors_inv_def reap_closed_def clients_of_def)

interpretation fi: server_invariant "descriptors_inv base" for base
proof
  fix s fd ss i side oid user line m reason rest n bs a srv k pr kr
    and qty price :: int
  assume inv: "descriptors_inv base s"
  note si = descriptors_invD [OF inv]
  show "descriptors_inv base (send_to fd m s)" "descriptors_inv base (on_writable fd s)"
    using inv by (simp_all add: on_writable_send descriptors_inv_send)
  show "descriptors_inv base (begin_orderly_close fd reason s)" using inv by (rule descriptors_inv_close)
  show "descriptors_inv base (drop_fd fd reason s)" using inv by (rule descriptors_inv_drop)
  show "descriptors_inv base (reap_closed s)" using inv by (rule descriptors_inv_reap)
  show "descriptors_inv base (say line s)" "descriptors_inv base (s\<lparr>book := snd (snd (add_order fd i side qty price [] (book s)))\<rparr>)"
    "descriptors_inv base (s\<lparr>book := snd (cancel_order oid fd (book s))\<rparr>)"
    "descriptors_inv base (s\<lparr>kern := snd (sys_recv fd n (kern s))\<rparr>)"
    "descriptors_inv base (pause_accepting s)" "descriptors_inv base (resume_accepting_if_due s)"
    "descriptors_inv base (s\<lparr>event_loop := snd (snd (loop_wait pr kr (event_loop s))), kern := (kern s)\<lparr>now := n\<rparr>\<rparr>)"
    by (simp_all add: descriptors_inv_same [OF inv] say_def frame_simps)
  show "descriptors_inv base (s\<lparr>listener := srv, kern := k\<rparr>)"
    if acc: "accept_connection (listener s) (kern s) = (a, srv, k)" "acc_fd a < 0"
  proof -
    note none = accept_connection_none [OF acc]
    have "fd_flags k fd = fd_flags (kern s) fd" if "fd \<in> clients_of s" for fd
      using none(6) [of fd] inv that by (auto simp: descriptors_inv_def fd_ok_def)
    then show ?thesis
      using inv none(1,2,8) fd_ok_kern [of base "clients_of s" "closed_fds s" "ts_fd (listener s)" "kern s" k] sessions_inv_cong [OF si]
      by (simp add: descriptors_inv_def clients_of_def)
  qed
  show "descriptors_inv base (admit (acc_fd a) (acc_peer a) (s\<lparr>listener := srv, kern := k\<rparr>))"
    if "accept_connection (listener s) (kern s) = (a, srv, k)" "0 \<le> acc_fd a"
    using inv that by (rule descriptors_inv_admit)
  assume ss: "session s fd = Some ss"
  have put: "descriptors_inv base t"
    if "sessions t = AList.update fd ss' (sessions s)" "sessions_inv t" "closed_fds t = closed_fds s"
      "listener t = listener s" "kern t = kern s" for t ss'
    using that by (intro descriptors_inv_cong [OF inv]) (simp_all add: clients_of_put [OF ss])
  show "descriptors_inv base (register_login fd ss user s)"
    if "role ss \<noteq> ROLE_MARKET_DATA" "\<not> logged_in ss" "user \<notin> set (usernames s)" "user_name user"
    by (rule put, simp add: register_login_def, rule si.P_login [OF si ss that], simp_all add: register_login_def)
  show "descriptors_inv base (put_session fd (ss\<lparr>role := ROLE_MARKET_DATA\<rparr>) s)" if "role ss = ROLE_UNKNOWN"
    by (rule put, simp, rule si.P_role [OF si ss that], simp_all)
  show "descriptors_inv base (add_subscription fd ss i s)" if "role ss = ROLE_MARKET_DATA" "is_valid_instrument i"
    by (rule put, simp add: add_subscription_def, rule si.P_subscribe [OF si ss that], simp_all add: add_subscription_def)
  show "descriptors_inv base (remove_subscription fd ss i s)" if "role ss = ROLE_MARKET_DATA"
    by (rule put, simp add: remove_subscription_def, rule si.P_unsubscribe [OF si ss that], simp_all add: remove_subscription_def)
  show "descriptors_inv base (put_session fd (ss\<lparr>inbuf := rest\<rparr>) s)" if "suffix rest (inbuf ss)"
    by (rule put, simp, rule si.P_cut [OF si ss that], simp_all)
  show "descriptors_inv base (put_session fd (ss\<lparr>inbuf := inbuf ss @ bs\<rparr>) s)" if "\<not> closing ss"
    by (rule put, simp, rule si.P_append [OF si ss that], simp_all)
qed

end
