(* ===== verification/Server_Registry.thy ===== *)
theory Server_Registry
  imports Server_Descriptors
begin

text \<open>
  The registries of the server agree with its sessions: the third invariant of the main loop. A descriptor
  is in the subscriber set of an instrument exactly when its session lists the instrument, the set of
  user names is the set of names of the logged-in sessions and no two share one, roles exclude each
  other, and every resting order belongs to a logged-in session.
  The consistency of the registries is stated on a view of the sessions (\<open>ident\<close>), so that whatever
  does not concern roles, names and subscriptions keeps it at once.
\<close>

record ident =
  id_role :: ClientRole
  id_user :: string
  id_in :: bool
  id_subs :: "string list"

definition ident_of :: "ClientSession \<Rightarrow> ident" where
  "ident_of ss = \<lparr>id_role = role ss, id_user = username ss, id_in = logged_in ss, id_subs = subscriptions ss\<rparr>"

lemma ident_of_simps [simp]:
  "id_role (ident_of ss) = role ss" "id_user (ident_of ss) = username ss" "id_in (ident_of ss) = logged_in ss"
  "id_subs (ident_of ss) = subscriptions ss"
  by (simp_all add: ident_of_def)

definition idents :: "Server \<Rightarrow> int \<Rightarrow> ident option" where
  "idents s fd = map_option ident_of (session s fd)"

definition ident_ok :: "ident \<Rightarrow> bool" where
  "ident_ok c \<longleftrightarrow> id_in c = (id_role c = ROLE_TRADER) \<and> (id_subs c \<noteq> [] \<longrightarrow> id_role c = ROLE_MARKET_DATA) \<and>
     (if id_in c then user_name (id_user c) else id_user c = []) \<and> list_all is_valid_instrument (id_subs c)"

definition subs_ok :: "(int \<Rightarrow> ident option) \<Rightarrow> (string \<rightharpoonup> int list) \<Rightarrow> bool" where
  "subs_ok v subs \<longleftrightarrow> (\<forall>i. distinct (subscribed i subs)) \<and>
     (\<forall>fd i. fd \<in> set (subscribed i subs) \<longleftrightarrow> (\<exists>c. v fd = Some c \<and> i \<in> set (id_subs c)))"

text \<open>The names of the logged-in clients.\<close>

definition names :: "(int \<Rightarrow> ident option) \<Rightarrow> int \<rightharpoonup> string" where
  "names v fd = (case v fd of Some c \<Rightarrow> if id_in c then Some (id_user c) else None | None \<Rightarrow> None)"

definition users_ok :: "(int \<rightharpoonup> string) \<Rightarrow> string list \<Rightarrow> bool" where
  "users_ok m users \<longleftrightarrow> set users = ran m \<and> inj_on m (dom m)"

text \<open>What a resting order is made of.\<close>

definition order_ok :: "Order \<Rightarrow> bool" where
  "order_ok r \<longleftrightarrow> is_valid_instrument (o_instrument r) \<and> order_terms (o_quantity r) (o_price r)"

lemma order_ok_reduces: "order_ok r \<Longrightarrow> reduces r r' \<Longrightarrow> 0 < o_quantity r' \<Longrightarrow> order_ok r'"
  by (auto simp: order_ok_def order_terms_def dest!: reducesD)

definition orders_ok :: "(int \<Rightarrow> ident option) \<Rightarrow> OrderBook \<Rightarrow> bool" where
  "orders_ok v b \<longleftrightarrow> book_inv b \<and> (\<forall>r \<in> resting b. order_ok r \<and> (\<exists>c. v (o_owner_fd r) = Some c \<and> id_in c))"

definition reg_ok :: "(int \<Rightarrow> ident option) \<Rightarrow> (string \<rightharpoonup> int list) \<Rightarrow> string list \<Rightarrow> OrderBook \<Rightarrow> bool" where
  "reg_ok v subs users b \<longleftrightarrow>
     subs_ok v subs \<and> users_ok (names v) users \<and> orders_ok v b \<and> (\<forall>fd c. v fd = Some c \<longrightarrow> ident_ok c)"

definition registry_inv :: "int set \<Rightarrow> Server \<Rightarrow> bool" where
  "registry_inv base s \<longleftrightarrow>
     descriptors_inv base s \<and> reg_ok (idents s) (subscribers s) (usernames s) (book s)"

lemma registry_invD: "registry_inv base s \<Longrightarrow> descriptors_inv base s"
  by (simp add: registry_inv_def)

section \<open>The registries\<close>

lemma names_upd [simp]:
  "names (v(fd := None)) = (names v)(fd := None)"
  "names (v(fd \<mapsto> c)) = (names v)(fd := (if id_in c then Some (id_user c) else None))"
  by (auto simp: names_def fun_eq_iff)

lemma names_None: "v fd = None \<Longrightarrow> names v fd = None" "v fd = Some c \<Longrightarrow> \<not> id_in c \<Longrightarrow> names v fd = None"
  by (simp_all add: names_def)

lemma users_ok_remove:
  assumes "users_ok m users" and "m fd = Some u"
  shows "users_ok (m(fd := None)) (removeAll u users)"
proof -
  have inj: "x = fd" if "m x = Some u" for x
    using assms that unfolding users_ok_def inj_on_def by (metis domI)
  have "ran (m(fd := None)) = ran m - {u}"
  proof (intro set_eqI iffI)
    fix x assume "x \<in> ran (m(fd := None))"
    then obtain fd' where "fd' \<noteq> fd" "m fd' = Some x" by (auto simp: ran_def split: if_splits)
    moreover from this inj have "x \<noteq> u" by blast
    ultimately show "x \<in> ran m - {u}" by (auto simp: ran_def)
  next
    fix x assume "x \<in> ran m - {u}"
    then obtain fd' where "m fd' = Some x" "x \<noteq> u" by (auto simp: ran_def)
    moreover from this assms(2) have "fd' \<noteq> fd" by auto
    ultimately show "x \<in> ran (m(fd := None))" by (auto simp: ran_def)
  qed
  moreover have "inj_on (m(fd := None)) (dom (m(fd := None)))"
    using assms(1) unfolding users_ok_def inj_on_def by auto
  ultimately show ?thesis using assms(1) by (simp add: users_ok_def)
qed

lemma users_ok_add:
  assumes "users_ok m users" and "m fd = None" and "u \<notin> set users"
  shows "users_ok (m(fd \<mapsto> u)) (List.insert u users)"
proof -
  have fresh: "m x \<noteq> Some u" for x using assms(1,3) by (auto simp: users_ok_def ran_def)
  have "inj_on (m(fd \<mapsto> u)) (dom (m(fd \<mapsto> u)))"
  proof (rule inj_onI)
    fix x y assume *: "x \<in> dom (m(fd \<mapsto> u))" "y \<in> dom (m(fd \<mapsto> u))" "(m(fd \<mapsto> u)) x = (m(fd \<mapsto> u)) y"
    show "x = y"
    proof (cases "x = fd \<or> y = fd")
      case True
      with * fresh show ?thesis by (auto split: if_splits)
    next
      case False
      with * assms(1) show ?thesis by (simp add: users_ok_def inj_on_def)
    qed
  qed
  then show ?thesis using assms by (simp add: users_ok_def ran_map_upd)
qed

lemma reg_ok_drop:
  assumes "reg_ok v subs users b" and "v fd = Some c"
  shows "reg_ok (v(fd := None)) (fold (erase_subscriber fd) (id_subs c) subs)
           (if id_in c then removeAll (id_user c) users else users) (remove_orders_of fd b)"
proof -
  have "subs_ok (v(fd := None)) (fold (erase_subscriber fd) (id_subs c) subs)"
    using assms by (auto simp: reg_ok_def subs_ok_def subscribed_fold_erase distinct_removeAll)
  moreover have "users_ok (names (v(fd := None))) (if id_in c then removeAll (id_user c) users else users)"
    using assms users_ok_remove [of "names v" users fd "id_user c"]
    by (auto simp: reg_ok_def names_None fun_upd_idem) (simp add: names_def)
  moreover have "orders_ok (v(fd := None)) (remove_orders_of fd b)"
    using assms by (auto simp: reg_ok_def orders_ok_def ob.rest_purge ob.wf_purge)
  moreover have "\<forall>fd' c'. (v(fd := None)) fd' = Some c' \<longrightarrow> ident_ok c'"
    using assms by (auto simp: reg_ok_def)
  ultimately show ?thesis by (simp add: reg_ok_def)
qed

lemma orders_ok_mono:
  assumes "orders_ok v b" and "\<And>fd c. v fd = Some c \<Longrightarrow> id_in c \<Longrightarrow> \<exists>c'. v' fd = Some c' \<and> id_in c'"
  shows "orders_ok v' b"
  using assms unfolding orders_ok_def by blast

lemma reg_ok_login:
  assumes "reg_ok v subs users b" and "v fd = Some c" and "id_role c \<noteq> ROLE_MARKET_DATA" and "\<not> id_in c"
    and "user \<notin> set users" and "user_name user"
  shows "reg_ok (v(fd \<mapsto> c\<lparr>id_role := ROLE_TRADER, id_user := user, id_in := True\<rparr>)) subs (List.insert user users) b"
proof -
  have c: "id_subs c = []" using assms(1-3) by (auto simp: reg_ok_def ident_ok_def)
  have "subs_ok (v(fd \<mapsto> c\<lparr>id_role := ROLE_TRADER, id_user := user, id_in := True\<rparr>)) subs"
    using assms(1,2) c by (auto simp: reg_ok_def subs_ok_def)
  moreover have "users_ok (names (v(fd \<mapsto> c\<lparr>id_role := ROLE_TRADER, id_user := user, id_in := True\<rparr>))) (List.insert user users)"
    using assms users_ok_add [of "names v" users fd user] by (simp add: reg_ok_def names_None)
  moreover have "orders_ok (v(fd \<mapsto> c\<lparr>id_role := ROLE_TRADER, id_user := user, id_in := True\<rparr>)) b"
    using assms(1) by (auto simp: reg_ok_def intro!: orders_ok_mono [of v])
  ultimately show ?thesis using assms(1,6) c by (auto simp: reg_ok_def ident_ok_def)
qed

text \<open>A change of the subscriptions of one client, with its subscriber sets adjusted.\<close>

lemma reg_ok_subs:
  assumes "reg_ok v subs users b" and "v fd = Some c" and "id_role c' = ROLE_MARKET_DATA" and "\<not> id_in c"
    and "id_user c' = id_user c" and "id_in c' = id_in c" and "list_all is_valid_instrument (id_subs c')"
    and "\<And>i. set (subscribed i subs') = (if i \<in> set (id_subs c') then insert fd (set (subscribed i subs)) else set (subscribed i subs) - {fd})"
    and "\<And>i. distinct (subscribed i subs')"
  shows "reg_ok (v(fd \<mapsto> c')) subs' users b"
proof -
  have "subs_ok (v(fd \<mapsto> c')) subs'" using assms(1,8,9) by (auto simp: reg_ok_def subs_ok_def)
  moreover have "users_ok (names (v(fd \<mapsto> c'))) users"
    using assms(1,2,4,6) by (simp add: reg_ok_def names_None fun_upd_idem)
  moreover have "orders_ok (v(fd \<mapsto> c')) b"
    using assms(1,2,4) by (auto simp: reg_ok_def intro!: orders_ok_mono [of v])
  ultimately show ?thesis using assms(1-7) by (auto simp: reg_ok_def ident_ok_def)
qed

lemma reg_ok_new:
  assumes "reg_ok v subs users b" and "v fd = None"
  shows "reg_ok (v(fd \<mapsto> \<lparr>id_role = ROLE_UNKNOWN, id_user = [], id_in = False, id_subs = []\<rparr>)) subs users b"
proof -
  let ?v = "v(fd \<mapsto> \<lparr>id_role = ROLE_UNKNOWN, id_user = [], id_in = False, id_subs = []\<rparr>)"
  have "subs_ok ?v subs" using assms by (auto simp: reg_ok_def subs_ok_def)
  moreover have "users_ok (names ?v) users"
    using assms by (simp add: reg_ok_def names_None fun_upd_idem)
  moreover have "orders_ok ?v b" using assms by (auto simp: reg_ok_def intro!: orders_ok_mono [of v])
  ultimately show ?thesis using assms by (auto simp: reg_ok_def ident_ok_def)
qed

lemma reg_ok_order:
  assumes "reg_ok v subs users b" and "v fd = Some c" and "id_in c" and "is_valid_instrument i" and "order_terms qty price"
  shows "reg_ok v subs users (snd (snd (add_order fd i side qty price [] b)))"
proof -
  obtain oid ex b' where add: "add_order fd i side qty price [] b = (oid, ex, b')" by (metis surj_pair)
  have "orders_ok v b'"
    unfolding orders_ok_def
  proof (intro conjI ballI)
    have inv: "book_inv b" using assms(1) by (simp add: reg_ok_def orders_ok_def)
    note pos = order_terms_pos [OF assms(5)]
    show inv': "book_inv b'" by (rule ob.wf_submit [OF inv pos add])
    fix r assume r: "r \<in> resting b'"
    have own: "order_ok r0 \<and> (\<exists>c. v (o_owner_fd r0) = Some c \<and> id_in c)" if "r0 \<in> resting b" for r0
      using assms(1) that by (auto simp: reg_ok_def orders_ok_def)
    have pos': "0 < o_quantity r" by (rule resting_positive [OF inv' r])
    from ob.rest_submit [OF inv pos add r]
    consider (new) "o_owner_fd r = fd" "o_instrument r = i" "o_price r = price" "o_quantity r \<le> qty"
      | (old) r0 where "r0 \<in> resting b" "reduces r0 r" by blast
    then have "order_ok r \<and> (\<exists>c. v (o_owner_fd r) = Some c \<and> id_in c)"
    proof cases
      case new
      with pos' assms(2-5) show ?thesis by (simp add: order_ok_def order_terms_def)
    next
      case old
      with own [OF old(1)] order_ok_reduces [OF _ old(2) pos'] reducesD [OF old(2)] show ?thesis by simp
    qed
    then show "order_ok r" "\<exists>c. v (o_owner_fd r) = Some c \<and> id_in c" by blast+
  qed
  with assms(1) show ?thesis by (simp add: reg_ok_def add)
qed

lemma reg_ok_cancel: "reg_ok v subs users b \<Longrightarrow> reg_ok v subs users (snd (cancel_order oid fd b))"
  using ob.wf_withdraw [of b] ob.rest_withdraw [of b] unfolding reg_ok_def orders_ok_def by blast

section \<open>Every operation keeps them\<close>

definition registries_ok :: "Server \<Rightarrow> bool" where
  "registries_ok s \<longleftrightarrow> reg_ok (idents s) (subscribers s) (usernames s) (book s)"

lemma registry_inv_iff: "registry_inv base s \<longleftrightarrow> descriptors_inv base s \<and> registries_ok s"
  by (simp add: registry_inv_def registries_ok_def)

lemma idents_book [simp]: "idents (s\<lparr>book := b\<rparr>) = idents s"
  by (simp add: idents_def fun_eq_iff)

lemma idents_put: "sessions t = AList.update fd ss (sessions s) \<Longrightarrow> idents t = (idents s)(fd \<mapsto> ident_of ss)"
  by (simp add: idents_def fun_eq_iff)

lemma idents_same:
  "session s fd = Some ss \<Longrightarrow> sessions t = AList.update fd ss' (sessions s) \<Longrightarrow> ident_of ss' = ident_of ss \<Longrightarrow>
     idents t = idents s"
  by (auto simp: idents_def fun_eq_iff)

lemma same_client_ident: "same_client ss ss' \<Longrightarrow> ident_of ss' = ident_of ss"
  by (simp add: same_client_def ident_of_def)

lemma registries_ok_cong:
  "registries_ok s \<Longrightarrow> idents t = idents s \<Longrightarrow> subscribers t = subscribers s \<Longrightarrow> usernames t = usernames s \<Longrightarrow>
     book t = book s \<Longrightarrow> registries_ok t"
  by (simp add: registries_ok_def)

lemma registries_ok_put:
  assumes "registries_ok s" and "session s fd = Some ss" and "ident_of ss' = ident_of ss"
    and "sessions t = AList.update fd ss' (sessions s)" and "subscribers t = subscribers s"
    and "usernames t = usernames s" and "book t = book s"
  shows "registries_ok t"
  using registries_ok_cong [OF assms(1) idents_same [OF assms(2,4,3)]] assms(5-7) .

lemma registries_ok_same:
  "registries_ok s \<Longrightarrow> sessions t = sessions s \<Longrightarrow> subscribers t = subscribers s \<Longrightarrow> usernames t = usernames s \<Longrightarrow>
     book t = book s \<Longrightarrow> registries_ok t"
  by (erule registries_ok_cong) (simp_all add: idents_def fun_eq_iff)

lemma registries_ok_drop:
  assumes "registries_ok s"
  shows "registries_ok (drop_fd fd reason s)"
proof (cases "session s fd")
  case None
  with assms show ?thesis by (simp add: drop_fd_None)
next
  case (Some ss)
  have "idents s fd = Some (ident_of ss)" by (simp add: idents_def Some)
  moreover have "idents (drop_fd fd reason s) = (idents s)(fd := None)"
    by (simp add: idents_def fun_eq_iff drop_fd_fields [OF Some])
  ultimately show ?thesis
    using reg_ok_drop [OF assms [unfolded registries_ok_def], of fd "ident_of ss"]
    by (simp only: registries_ok_def drop_fd_fields [OF Some] ident_of_simps)
qed

lemma registries_ok_send:
  assumes "registries_ok s"
  shows "registries_ok (send_to fd m s)"
proof (cases rule: send_to_cases [of s fd m])
  case absent
  with assms show ?thesis by simp
next
  case (kept ss ss' k c l w)
  show ?thesis
    using kept(2) by (intro registries_ok_put [OF assms kept(1) same_client_ident [OF kept(3)]]) simp_all
next
  case (gone ss reason ss' k c w)
  have "registries_ok (put_session fd ss' (s\<lparr>kern := k, console := c\<rparr>))"
    by (rule registries_ok_put [OF assms gone(1) same_client_ident [OF gone(3)]]) simp_all
  then show ?thesis unfolding gone(2) by (rule registries_ok_drop)
qed

lemma registries_ok_close:
  assumes "registries_ok s"
  shows "registries_ok (begin_orderly_close fd reason s)"
proof (cases rule: begin_orderly_close_cases [of s fd reason])
  case absent
  with assms show ?thesis by simp
next
  case (drained ss)
  have "registries_ok (put_session fd (ss\<lparr>closing := True, inbuf := []\<rparr>) s)"
    by (rule registries_ok_put [OF assms drained(1), of "ss\<lparr>closing := True, inbuf := []\<rparr>"]) (simp_all add: ident_of_def)
  then show ?thesis unfolding drained(3) by (rule registries_ok_drop)
next
  case (queued ss)
  show ?thesis
    unfolding queued(3)
    by (rule registries_ok_put [OF assms queued(1),
        of "ss\<lparr>closing := True, inbuf := [], read_interest := False, write_interest := True\<rparr>"]) (simp_all add: ident_of_def)
qed

lemma registries_ok_admit:
  assumes "registries_ok s" and "session s fd = None"
  shows "registries_ok (admit fd p s)"
proof -
  obtain c where form: "admit fd p s = (if fst (loop_add fd True False (event_loop s))
    then s\<lparr>kern := admit_kern fd s, sessions := AList.update fd ((new_session fd)\<lparr>peer := p\<rparr>) (sessions s),
           event_loop := snd (loop_add fd True False (event_loop s)), console := c\<rparr>
    else s\<lparr>kern := sys_close fd (admit_kern fd s), event_loop := snd (loop_add fd True False (event_loop s)), console := c\<rparr>)"
    using admit_new_form [OF assms(2)] by blast
  have none: "idents s fd = None" using assms(2) by (simp add: idents_def)
  show ?thesis
  proof (cases "fst (loop_add fd True False (event_loop s))")
    case True
    with form have t: "sessions (admit fd p s) = AList.update fd ((new_session fd)\<lparr>peer := p\<rparr>) (sessions s)"
        "subscribers (admit fd p s) = subscribers s" "usernames (admit fd p s) = usernames s" "book (admit fd p s) = book s"
      by simp_all
    from idents_put [OF t(1)] reg_ok_new [OF assms(1) [unfolded registries_ok_def] none] show ?thesis
      by (simp add: registries_ok_def t(2-4)) (simp add: ident_of_def new_session_def)
  next
    case False
    with form show ?thesis by (intro registries_ok_same [OF assms(1)]) simp_all
  qed
qed

interpretation rg: server_invariant "registry_inv base" for base
proof
  fix s fd ss i side oid user line m reason rest n bs a srv k pr kr
    and qty price :: int
  assume inv: "registry_inv base s"
  then have fi: "descriptors_inv base s" and reg: "registries_ok s" by (simp_all add: registry_inv_iff)
  show "registry_inv base (send_to fd m s)" "registry_inv base (on_writable fd s)"
    using fi reg by (simp_all add: on_writable_send descriptors_inv_send registries_ok_send registry_inv_iff)
  show "registry_inv base (begin_orderly_close fd reason s)" "registry_inv base (drop_fd fd reason s)"
    using fi reg by (simp_all add: descriptors_inv_close registries_ok_close descriptors_inv_drop registries_ok_drop registry_inv_iff)
  show "registry_inv base (say line s)" "registry_inv base (s\<lparr>kern := snd (sys_recv fd n (kern s))\<rparr>)"
    "registry_inv base (pause_accepting s)" "registry_inv base (resume_accepting_if_due s)" "registry_inv base (reap_closed s)"
    "registry_inv base (s\<lparr>event_loop := snd (snd (loop_wait pr kr (event_loop s))), kern := (kern s)\<lparr>now := n\<rparr>\<rparr>)"
    using fi.P_say [OF fi] fi.P_recv [OF fi] fi.P_pause [OF fi] fi.P_resume [OF fi] fi.P_reap [OF fi] fi.P_wait [OF fi]
      registries_ok_same [OF reg]
    by (simp_all add: registry_inv_iff say_def frame_simps reap_closed_def)
  show "registry_inv base (s\<lparr>listener := srv, kern := k\<rparr>)"
    if acc: "accept_connection (listener s) (kern s) = (a, srv, k)" "acc_fd a < 0"
    using fi.P_accept_none [OF fi that] registries_ok_same [OF reg] by (simp add: registry_inv_iff)
  show "registry_inv base (admit (acc_fd a) (acc_peer a) (s\<lparr>listener := srv, kern := k\<rparr>))"
    if "accept_connection (listener s) (kern s) = (a, srv, k)" "0 \<le> acc_fd a"
    using descriptors_inv_admit [OF fi that] registries_ok_same [OF reg]
    by (simp add: registry_inv_iff registries_ok_admit)
  assume ss: "session s fd = Some ss"
  have view: "idents s fd = Some (ident_of ss)" by (simp add: idents_def ss)
  have dist: "distinct (subscribed j (subscribers s))" for j
    using reg by (simp add: registries_ok_def reg_ok_def subs_ok_def)
  have ok: "ident_ok (ident_of ss)" using reg view by (auto simp: registries_ok_def reg_ok_def)
  note reg_s = reg [unfolded registries_ok_def]
  have member: "fd \<in> set (subscribed j (subscribers s)) \<longleftrightarrow> j \<in> set (subscriptions ss)" for j
    using reg_s view by (auto simp: reg_ok_def subs_ok_def ident_of_def)
  show "registry_inv base (s\<lparr>book := snd (snd (add_order fd i side qty price [] (book s)))\<rparr>)"
    if "logged_in ss" "is_valid_instrument i" "order_terms qty price"
    using fi.P_order [OF fi ss that] reg_ok_order [OF reg_s view _ that(2,3)] that(1)
    by (simp add: registry_inv_iff registries_ok_def)
  show "registry_inv base (s\<lparr>book := snd (cancel_order oid fd (book s))\<rparr>)" if "logged_in ss"
    using fi.P_cancel [OF fi ss that] reg_ok_cancel [OF reg_s]
    by (simp add: registry_inv_iff registries_ok_def)
  show "registry_inv base (put_session fd (ss\<lparr>inbuf := rest\<rparr>) s)" if "suffix rest (inbuf ss)"
    using fi.P_cut [OF fi ss that] registries_ok_put [OF reg ss, of "ss\<lparr>inbuf := rest\<rparr>"]
    by (simp add: registry_inv_iff ident_of_def)
  show "registry_inv base (put_session fd (ss\<lparr>inbuf := inbuf ss @ bs\<rparr>) s)" if "\<not> closing ss"
    using fi.P_append [OF fi ss that] registries_ok_put [OF reg ss, of "ss\<lparr>inbuf := inbuf ss @ bs\<rparr>"]
    by (simp add: registry_inv_iff ident_of_def)
  show "registry_inv base (register_login fd ss user s)"
    if g: "role ss \<noteq> ROLE_MARKET_DATA" "\<not> logged_in ss" "user \<notin> set (usernames s)" "user_name user"
  proof -
    have "idents (register_login fd ss user s) =
        (idents s)(fd \<mapsto> (ident_of ss)\<lparr>id_role := ROLE_TRADER, id_user := user, id_in := True\<rparr>)"
      by (subst idents_put [of _ fd "ss\<lparr>role := ROLE_TRADER, username := user, logged_in := True\<rparr>" s])
        (simp_all add: register_login_def ident_of_def)
    then show ?thesis
      using fi.P_login [OF fi ss g] reg_ok_login [OF reg_s view] g
      by (simp add: registry_inv_iff registries_ok_def) (simp add: register_login_def ident_of_def)
  qed
  show "registry_inv base (put_session fd (ss\<lparr>role := ROLE_MARKET_DATA\<rparr>) s)" if g: "role ss = ROLE_UNKNOWN"
  proof -
    have "idents (put_session fd (ss\<lparr>role := ROLE_MARKET_DATA\<rparr>) s) =
        (idents s)(fd \<mapsto> (ident_of ss)\<lparr>id_role := ROLE_MARKET_DATA\<rparr>)"
      by (subst idents_put [of _ fd "ss\<lparr>role := ROLE_MARKET_DATA\<rparr>" s]) (simp_all add: ident_of_def)
    moreover have "id_subs (ident_of ss) = []" using ok g by (auto simp: ident_ok_def ident_of_def)
    moreover have "fd \<notin> set (subscribed i (subscribers s))" for i
      using member calculation(2) by (simp add: ident_of_def)
    ultimately show ?thesis
      using fi.P_role [OF fi ss g] ok g dist
        reg_ok_subs [OF reg_s view, of "(ident_of ss)\<lparr>id_role := ROLE_MARKET_DATA\<rparr>" "subscribers s"]
      by (simp add: registry_inv_iff registries_ok_def ident_ok_def)
  qed
  show "registry_inv base (add_subscription fd ss i s)"
    if g: "role ss = ROLE_MARKET_DATA" "is_valid_instrument i"
  proof -
    have id: "idents (add_subscription fd ss i s) = (idents s)(fd \<mapsto> (ident_of ss)\<lparr>id_subs := List.insert i (id_subs (ident_of ss))\<rparr>)"
      by (subst idents_put [of _ fd "ss\<lparr>subscriptions := List.insert i (subscriptions ss)\<rparr>" s])
        (simp_all add: add_subscription_def ident_of_def)
    have "reg_ok (idents (add_subscription fd ss i s))
        ((subscribers s)(i \<mapsto> List.insert fd (subscribed i (subscribers s)))) (usernames s) (book s)"
      unfolding id
      by (rule reg_ok_subs [OF reg_s view])
        (use ok g member dist in \<open>auto simp: ident_ok_def ident_of_def list_all_iff subscribed_def\<close>)
    with fi.P_subscribe [OF fi ss g] show ?thesis
      by (simp add: registry_inv_iff registries_ok_def) (simp add: add_subscription_def)
  qed
  show "registry_inv base (remove_subscription fd ss i s)" if g: "role ss = ROLE_MARKET_DATA"
  proof -
    have id: "idents (remove_subscription fd ss i s) = (idents s)(fd \<mapsto> (ident_of ss)\<lparr>id_subs := removeAll i (id_subs (ident_of ss))\<rparr>)"
      by (subst idents_put [of _ fd "ss\<lparr>subscriptions := removeAll i (subscriptions ss)\<rparr>" s])
        (simp_all add: remove_subscription_def ident_of_def)
    have "reg_ok (idents (remove_subscription fd ss i s)) (erase_subscriber fd i (subscribers s)) (usernames s) (book s)"
      unfolding id
      by (rule reg_ok_subs [OF reg_s view])
        (use ok g member dist in \<open>auto simp: ident_ok_def ident_of_def list_all_iff distinct_removeAll\<close>)
    with fi.P_unsubscribe [OF fi ss g] show ?thesis
      by (simp add: registry_inv_iff registries_ok_def) (simp add: remove_subscription_def)
  qed
qed

end
