(* ===== verification/Server_Interest.thy ===== *)
theory Server_Interest
  imports Server_Descriptors
begin

text \<open>
  The event loop watches what the server believes it watches: the fourth invariant of the main loop. As
  long as the kernel accepts the registrations, the interest registered for a client is the one its session
  records (with \<open>sessions_inv\<close>: reading unless it is being closed, writing exactly while output is
  queued), the listening socket is watched exactly while accepting is not suspended, and nothing
  else is registered.
\<close>

definition wanted :: "Server \<Rightarrow> int \<Rightarrow> (bool \<times> bool) option" where
  "wanted s fd =
     (if fd = ts_fd (listener s) then Some (accept_resume_at s = 0, False)
      else map_option (\<lambda>ss. (read_interest ss, write_interest ss)) (session s fd))"

definition loop_ok :: "Server \<Rightarrow> bool" where
  "loop_ok s \<longleftrightarrow> loop_inv (event_loop s) \<and> loop_interest (event_loop s) = wanted s"

definition interest_inv :: "int set \<Rightarrow> Server \<Rightarrow> bool" where
  "interest_inv base s \<longleftrightarrow> descriptors_inv base s \<and> loop_ok s"

lemma poll_wait_keeps:
  assumes "poll_inv l"
  shows "poll_inv (snd (snd (poll_wait r l)))" and "poll_interest (snd (snd (poll_wait r l))) = poll_interest l"
proof -
  have inv: "poll_inv (l\<lparr>pollfds := map (\<lambda>e. e\<lparr>pfd_revents := f (pfd_fd e)\<rparr>) (pollfds l)\<rparr>)" for f
    using assms by (auto simp: poll_inv_def)
  have int: "poll_interest (l\<lparr>pollfds := map (\<lambda>e. e\<lparr>pfd_revents := f (pfd_fd e)\<rparr>) (pollfds l)\<rparr>) fd = poll_interest l fd"
    for f fd
    using poll_invD(1) [OF assms] by (cases "poll_index l fd") (auto simp: poll_interest_def)
  show "poll_inv (snd (snd (poll_wait r l)))"
    using assms inv by (simp add: poll_wait_def Let_def split: poll_result.split)
  show "poll_interest (snd (snd (poll_wait r l))) = poll_interest l"
    using int by (simp add: poll_wait_def Let_def fun_eq_iff split: poll_result.split)
qed

lemma loop_wait_keeps:
  assumes "loop_inv l"
  shows "loop_inv (snd (snd (loop_wait pr kr l)))" "loop_interest (snd (snd (loop_wait pr kr l))) = loop_interest l"
proof -
  have "backend (snd (snd (poll_wait pr l))) = backend l"
    by (simp add: poll_wait_def Let_def split: poll_result.split)
  then show "loop_inv (snd (snd (loop_wait pr kr l)))" "loop_interest (snd (snd (loop_wait pr kr l))) = loop_interest l"
    using assms poll_wait_keeps [of l pr]
    by (auto simp: loop_wait_def loop_inv_def loop_interest_def case_prod_unfold Let_def split: if_splits)
qed

lemma descriptors_not_listener:
  "descriptors_inv base s \<Longrightarrow> session s fd = Some ss \<Longrightarrow> fd \<noteq> ts_fd (listener s)"
  by (auto simp: descriptors_inv_def fd_ok_def clients_of_def)

lemma loop_ok_same:
  "loop_ok s \<Longrightarrow> event_loop t = event_loop s \<Longrightarrow> sessions t = sessions s \<Longrightarrow>
     ts_fd (listener t) = ts_fd (listener s) \<Longrightarrow> accept_resume_at t = accept_resume_at s \<Longrightarrow> loop_ok t"
  by (simp add: loop_ok_def wanted_def fun_eq_iff)

text \<open>The session of a client changes, and its registration with it.\<close>

lemma loop_ok_put:
  assumes "loop_ok s" and "session s fd = Some ss" and "fd \<noteq> ts_fd (listener s)"
    and "sessions t = AList.update fd ss' (sessions s)" and "listener t = listener s"
    and "accept_resume_at t = accept_resume_at s"
    and "event_loop t = (if read_interest ss' = read_interest ss \<and> write_interest ss' = write_interest ss then event_loop s
            else snd (loop_update fd (read_interest ss') (write_interest ss') (event_loop s)))"
  shows "loop_ok t"
  using assms el.laws by (auto simp: loop_ok_def wanted_def fun_eq_iff)

lemma loop_ok_drop:
  assumes "loop_ok s" and "session s fd = Some ss" and "fd \<noteq> ts_fd (listener s)"
    and "sessions t = AList.delete fd (sessions s)" and "listener t = listener s"
    and "accept_resume_at t = accept_resume_at s" and "event_loop t = loop_remove fd (event_loop s)"
  shows "loop_ok t"
  using assms el.laws by (auto simp: loop_ok_def wanted_def fun_eq_iff)

lemma interest_inv_send:
  assumes "interest_inv base s"
  shows "loop_ok (send_to fd m s)"
proof -
  have ok: "loop_ok s" and di: "descriptors_inv base s" using assms by (simp_all add: interest_inv_def)
  show ?thesis
  proof (cases rule: send_to_cases [of s fd m])
    case absent
    with ok show ?thesis by simp
  next
    case (kept ss ss' k c l w)
    have fd: "s_fd ss = fd" using sessions_invD [OF descriptors_invD [OF di] kept(1)] by (simp add: session_ok_def)
    show ?thesis
      using kept(2,6) by (intro loop_ok_put [OF ok kept(1) descriptors_not_listener [OF di kept(1)], of _ ss']) (simp_all add: fd)
  next
    case (gone ss reason ss' k c w)
    let ?s1 = "put_session fd ss' (s\<lparr>kern := k, console := c\<rparr>)"
    have fd: "s_fd ss = fd" using sessions_invD [OF descriptors_invD [OF di] gone(1)] by (simp add: session_ok_def)
    have s1: "session ?s1 fd = Some ss'" by simp
    show ?thesis
      unfolding gone(2) fd
      by (rule loop_ok_drop [OF ok gone(1) descriptors_not_listener [OF di gone(1)]])
        (simp_all only: drop_fd_fields [OF s1], simp_all)
  qed
qed

lemma interest_inv_drop:
  assumes "interest_inv base s"
  shows "loop_ok (drop_fd fd reason s)"
proof (cases "session s fd")
  case None
  with assms show ?thesis by (simp add: drop_fd_None interest_inv_def)
next
  case (Some ss)
  have ok: "loop_ok s" and di: "descriptors_inv base s" using assms by (simp_all add: interest_inv_def)
  show ?thesis
    by (rule loop_ok_drop [OF ok Some descriptors_not_listener [OF di Some]]) (simp_all only: drop_fd_fields [OF Some])
qed

lemma interest_inv_close:
  assumes "interest_inv base s"
  shows "loop_ok (begin_orderly_close fd reason s)"
proof -
  have ok: "loop_ok s" and di: "descriptors_inv base s" using assms by (simp_all add: interest_inv_def)
  show ?thesis
  proof (cases rule: begin_orderly_close_cases [of s fd reason])
    case absent
    with ok show ?thesis by simp
  next
    case (drained ss)
    have s1: "session (put_session fd (ss\<lparr>closing := True, inbuf := []\<rparr>) s) fd = Some (ss\<lparr>closing := True, inbuf := []\<rparr>)" by simp
    show ?thesis
      unfolding drained(3)
      by (rule loop_ok_drop [OF ok drained(1) descriptors_not_listener [OF di drained(1)]])
        (simp_all only: drop_fd_fields [OF s1], simp_all)
  next
    case (queued ss)
    have ne: "fd \<noteq> ts_fd (listener s)" using descriptors_not_listener [OF di queued(1)] .
    show ?thesis
      using ok ne queued(1) el.laws unfolding queued(3) by (auto simp: loop_ok_def wanted_def fun_eq_iff)
  qed
qed

lemma interest_inv_admit:
  assumes "loop_ok s" and "session s fd = None" and "fd \<noteq> ts_fd (listener s)"
  shows "loop_ok (admit fd p s)"
proof -
  have "fst (loop_add fd True False (event_loop s))" using assms(1) el.add_succeeds by (simp add: loop_ok_def)
  with admit_new_form [OF assms(2), of p] obtain c where
    "admit fd p s = s\<lparr>kern := admit_kern fd s, sessions := AList.update fd ((new_session fd)\<lparr>peer := p\<rparr>) (sessions s),
       event_loop := snd (loop_add fd True False (event_loop s)), console := c\<rparr>" by auto
  with assms(1,3) el.laws show ?thesis by (auto simp: loop_ok_def wanted_def fun_eq_iff new_session_def)
qed

lemma interest_inv_pause:
  assumes "loop_ok s"
  shows "loop_ok (pause_accepting s)" and "loop_ok (resume_accepting_if_due s)"
  using assms el.laws
  by (auto simp: pause_accepting_def resume_accepting_if_due_def loop_ok_def wanted_def fun_eq_iff say_def Let_def kAcceptBackoff_def)

interpretation li: server_invariant "interest_inv base" for base
proof
  fix s fd ss i side oid user line m reason rest n bs a srv k pr kr
    and qty price :: int
  assume inv: "interest_inv base s"
  then have fi: "descriptors_inv base s" and ok: "loop_ok s" by (simp_all add: interest_inv_def)
  note same = loop_ok_same [OF ok]
  show "interest_inv base (send_to fd m s)" "interest_inv base (on_writable fd s)"
    using fi interest_inv_send [OF inv] by (simp_all add: on_writable_send descriptors_inv_send interest_inv_def)
  show "interest_inv base (begin_orderly_close fd reason s)" "interest_inv base (drop_fd fd reason s)"
    using fi interest_inv_close [OF inv] interest_inv_drop [OF inv]
    by (simp_all add: descriptors_inv_close descriptors_inv_drop interest_inv_def)
  show "interest_inv base (pause_accepting s)" "interest_inv base (resume_accepting_if_due s)"
    using fi.P_pause [OF fi] fi.P_resume [OF fi] interest_inv_pause [OF ok] by (simp_all add: interest_inv_def)
  show "interest_inv base (say line s)" "interest_inv base (s\<lparr>kern := snd (sys_recv fd n (kern s))\<rparr>)"
    "interest_inv base (reap_closed s)"
    using fi.P_say [OF fi] fi.P_recv [OF fi] fi.P_reap [OF fi] same
    by (simp_all add: interest_inv_def say_def reap_closed_def)
  show "interest_inv base (s\<lparr>event_loop := snd (snd (loop_wait pr kr (event_loop s))), kern := (kern s)\<lparr>now := n\<rparr>\<rparr>)"
    using fi.P_wait [OF fi] ok loop_wait_keeps by (simp add: interest_inv_def loop_ok_def wanted_def fun_eq_iff)
  show "interest_inv base (s\<lparr>listener := srv, kern := k\<rparr>)"
    if acc: "accept_connection (listener s) (kern s) = (a, srv, k)" "acc_fd a < 0"
    using fi.P_accept_none [OF fi that] accept_connection_none(8) [OF that] same by (simp add: interest_inv_def)
  show "interest_inv base (admit (acc_fd a) (acc_peer a) (s\<lparr>listener := srv, kern := k\<rparr>))"
    if acc: "accept_connection (listener s) (kern s) = (a, srv, k)" "0 \<le> acc_fd a"
  proof -
    note new = descriptors_inv_admit [OF fi acc]
    have srv: "srv = listener s" "acc_fd a \<notin> set (open_fds (kern s))"
      using accept_connection_some(2,10) [OF acc] by auto
    then have "acc_fd a \<noteq> ts_fd (listener s)" using fi by (auto simp: descriptors_inv_def fd_ok_def)
    with new srv same show ?thesis by (simp add: interest_inv_def interest_inv_admit)
  qed
  assume ss: "session s fd = Some ss"
  have put: "loop_ok t"
    if "sessions t = AList.update fd ss' (sessions s)" "listener t = listener s" "accept_resume_at t = accept_resume_at s"
      "event_loop t = event_loop s" "read_interest ss' = read_interest ss" "write_interest ss' = write_interest ss" for t ss'
    using that by (intro loop_ok_put [OF ok ss descriptors_not_listener [OF fi ss], of t ss']) auto
  show "interest_inv base (s\<lparr>book := snd (snd (add_order fd i side qty price [] (book s)))\<rparr>)"
    if "logged_in ss" "is_valid_instrument i" "order_terms qty price"
    using fi.P_order [OF fi ss that] same by (simp add: interest_inv_def)
  show "interest_inv base (s\<lparr>book := snd (cancel_order oid fd (book s))\<rparr>)" if "logged_in ss"
    using fi.P_cancel [OF fi ss that] same by (simp add: interest_inv_def)
  show "interest_inv base (put_session fd (ss\<lparr>inbuf := rest\<rparr>) s)" if "suffix rest (inbuf ss)"
    using fi.P_cut [OF fi ss that] put [of _ "ss\<lparr>inbuf := rest\<rparr>"] by (simp add: interest_inv_def)
  show "interest_inv base (put_session fd (ss\<lparr>inbuf := inbuf ss @ bs\<rparr>) s)" if "\<not> closing ss"
    using fi.P_append [OF fi ss that] put [of _ "ss\<lparr>inbuf := inbuf ss @ bs\<rparr>"] by (simp add: interest_inv_def)
  show "interest_inv base (put_session fd (ss\<lparr>role := ROLE_MARKET_DATA\<rparr>) s)" if "role ss = ROLE_UNKNOWN"
    using fi.P_role [OF fi ss that] put [of _ "ss\<lparr>role := ROLE_MARKET_DATA\<rparr>"] by (simp add: interest_inv_def)
  show "interest_inv base (register_login fd ss user s)"
    if "role ss \<noteq> ROLE_MARKET_DATA" "\<not> logged_in ss" "user \<notin> set (usernames s)" "user_name user"
    using fi.P_login [OF fi ss that] put [of _ "ss\<lparr>role := ROLE_TRADER, username := user, logged_in := True\<rparr>"]
    by (simp add: interest_inv_def register_login_def)
  show "interest_inv base (add_subscription fd ss i s)" if "role ss = ROLE_MARKET_DATA" "is_valid_instrument i"
    using fi.P_subscribe [OF fi ss that] put [of _ "ss\<lparr>subscriptions := List.insert i (subscriptions ss)\<rparr>"]
    by (simp add: interest_inv_def add_subscription_def)
  show "interest_inv base (remove_subscription fd ss i s)" if "role ss = ROLE_MARKET_DATA"
    using fi.P_unsubscribe [OF fi ss that] put [of _ "ss\<lparr>subscriptions := removeAll i (subscriptions ss)\<rparr>"]
    by (simp add: interest_inv_def remove_subscription_def)
qed

end
