(* ===== verification/Server_Streams.thy ===== *)
theory Server_Streams
  imports Server_Descriptors
begin

text \<open>
  What a client is sent: the fifth invariant of the main loop. At every moment the bytes the kernel has taken
  for a connected client, followed by the bytes still queued for it, are a sequence of whole lines; no
  message is ever cut short or interleaved with another one.
\<close>

definition whole_lines :: "string \<Rightarrow> bool" where
  "whole_lines x \<longleftrightarrow> x = [] \<or> last x = LF"

lemma whole_lines_append: "one_line m \<Longrightarrow> whole_lines (x @ m)"
  by (auto simp: whole_lines_def one_line_def)

definition streams_ok :: "Server \<Rightarrow> bool" where
  "streams_ok s \<longleftrightarrow>
     names_ok s \<and> (\<forall>fd ss. session s fd = Some ss \<longrightarrow> whole_lines (wire (kern s) fd @ pending ss))"

definition streams_inv :: "int set \<Rightarrow> Server \<Rightarrow> bool" where
  "streams_inv base s \<longleftrightarrow> descriptors_inv base s \<and> streams_ok s"

lemma streams_ok_same:
  "streams_ok s \<Longrightarrow> sessions t = sessions s \<Longrightarrow> (\<And>fd ss. session s fd = Some ss \<Longrightarrow> wire (kern t) fd = wire (kern s) fd) \<Longrightarrow>
     streams_ok t"
  by (simp add: streams_ok_def names_ok_def)

lemma streams_ok_put:
  assumes "streams_ok s" and "sessions t = AList.update fd ss (sessions s)" and "LF \<notin> set (username ss)"
    and "whole_lines (wire (kern t) fd @ pending ss)" and "\<And>fd'. fd' \<noteq> fd \<Longrightarrow> wire (kern t) fd' = wire (kern s) fd'"
  shows "streams_ok t"
  using assms unfolding streams_ok_def names_ok_def by auto

lemma streams_ok_delete:
  assumes "streams_ok s" and "sessions t = AList.delete fd (sessions s)"
    and "\<And>fd'. fd' \<noteq> fd \<Longrightarrow> wire (kern t) fd' = wire (kern s) fd'"
  shows "streams_ok t"
  using assms unfolding streams_ok_def names_ok_def by auto

lemma streams_inv_facts:
  assumes "streams_inv base s" and "session s fd = Some ss"
  shows "s_fd ss = fd" "out_start ss \<le> length (outbuf ss)" "LF \<notin> set (username ss)"
    "whole_lines (wire (kern s) fd @ pending ss)" "fd \<in> set (open_fds (kern s))"
proof -
  show "s_fd ss = fd" "out_start ss \<le> length (outbuf ss)"
    using assms sessions_invD [OF _ assms(2)]
    by (auto simp: streams_inv_def descriptors_inv_def session_ok_def settled_output_def)
  show "LF \<notin> set (username ss)" "whole_lines (wire (kern s) fd @ pending ss)"
    using assms by (auto simp: streams_inv_def streams_ok_def names_ok_def)
  show "fd \<in> set (open_fds (kern s))"
    using assms by (auto simp: streams_inv_def descriptors_inv_def fd_ok_def clients_of_def)
qed

lemma streams_ok_send:
  assumes "streams_inv base s" and "one_line m \<or> m = []"
  shows "streams_ok (send_to fd m s)"
proof -
  have ok: "streams_ok s" using assms(1) by (simp add: streams_inv_def)
  show ?thesis
  proof (cases rule: send_to_cases [of s fd m])
    case absent
    with ok show ?thesis by simp
  next
    case (kept ss ss' k c l w)
    note facts = streams_inv_facts [OF assms(1) kept(1)]
    have "w @ pending ss' = (wire (kern s) fd @ pending ss) @ m" using kept(7) facts(1,2) by simp
    then have "whole_lines (w @ pending ss')"
      using assms(2) facts(4) whole_lines_append [of m "wire (kern s) fd @ pending ss"] by auto
    then show ?thesis
      using kept(2,3) facts(1,3) only_output_frame(8) [OF kept(5)]
      by (intro streams_ok_put [OF ok, of _ fd ss']) (simp_all add: same_client_def)
  next
    case (gone ss reason ss' k c w)
    let ?s1 = "put_session fd ss' (s\<lparr>kern := k, console := c\<rparr>)"
    note facts = streams_inv_facts [OF assms(1) gone(1)]
    have s1: "session ?s1 fd = Some ss'" by simp
    have "sessions (send_to fd m s) = AList.delete fd (sessions s)" "kern (send_to fd m s) = k"
      using drop_fd_fields(4,7) [OF s1, of reason] by (simp_all add: gone(2) facts(1))
    then show ?thesis
      using only_output_frame(8) [OF gone(4)] facts(1) by (intro streams_ok_delete [OF ok, of _ fd]) simp_all
  qed
qed

lemma streams_ok_drop: "streams_ok s \<Longrightarrow> streams_ok (drop_fd fd reason s)"
  by (cases "session s fd") (auto simp: drop_fd_None intro!: streams_ok_delete [of s _ fd] simp: drop_fd_fields(4,7))

lemma streams_ok_close:
  assumes "streams_ok s"
  shows "streams_ok (begin_orderly_close fd reason s)"
proof (cases rule: begin_orderly_close_cases [of s fd reason])
  case absent
  with assms show ?thesis by simp
next
  case (drained ss)
  have s1: "session (put_session fd (ss\<lparr>closing := True, inbuf := []\<rparr>) s) fd = Some (ss\<lparr>closing := True, inbuf := []\<rparr>)" by simp
  show ?thesis
    unfolding drained(3)
    by (rule streams_ok_delete [OF assms, of _ fd]) (simp_all only: drop_fd_fields [OF s1], simp_all)
next
  case (queued ss)
  have "LF \<notin> set (username ss)" "whole_lines (wire (kern s) fd @ pending ss)"
    using assms queued(1) by (auto simp: streams_ok_def names_ok_def)
  then show ?thesis
    unfolding queued(3)
    by (intro streams_ok_put [OF assms,
          of _ fd "ss\<lparr>closing := True, inbuf := [], read_interest := False, write_interest := True\<rparr>"])
      (simp_all add: frame_simps pending_def)
qed

lemma streams_ok_admit:
  assumes "streams_ok s" and "session s fd = None" and "wire (kern s) fd = []"
  shows "streams_ok (admit fd p s)"
proof -
  obtain c where form: "admit fd p s = (if fst (loop_add fd True False (event_loop s))
    then s\<lparr>kern := admit_kern fd s, sessions := AList.update fd ((new_session fd)\<lparr>peer := p\<rparr>) (sessions s),
           event_loop := snd (loop_add fd True False (event_loop s)), console := c\<rparr>
    else s\<lparr>kern := sys_close fd (admit_kern fd s), event_loop := snd (loop_add fd True False (event_loop s)), console := c\<rparr>)"
    using admit_new_form [OF assms(2)] by blast
  have wire: "wire (admit_kern fd s) = wire (kern s)" by (simp add: admit_kern_def frame_simps)
  show ?thesis
  proof (cases "fst (loop_add fd True False (event_loop s))")
    case True
    with form assms(3) show ?thesis
      by (intro streams_ok_put [OF assms(1), of _ fd "(new_session fd)\<lparr>peer := p\<rparr>"])
        (simp_all add: wire new_session_def pending_def whole_lines_def)
  next
    case False
    with form show ?thesis by (intro streams_ok_same [OF assms(1)]) (simp_all add: wire frame_simps)
  qed
qed

lemma fold_sys_close_wire: "wire (fold sys_close fds k) = wire k"
  by (induction fds arbitrary: k) (simp_all add: frame_simps)

interpretation st: server_invariant "streams_inv base" for base
proof
  fix s fd ss i side oid user line m reason rest n bs a srv k pr kr
    and qty price :: int
  assume inv: "streams_inv base s"
  then have fi: "descriptors_inv base s" and ok: "streams_ok s" by (simp_all add: streams_inv_def)
  note same = streams_ok_same [OF ok]
  show "streams_inv base (send_to fd m s)" if "names_ok s \<Longrightarrow> one_line m"
    using fi ok streams_ok_send [OF inv] that by (simp add: streams_inv_def streams_ok_def descriptors_inv_send)
  show "streams_inv base (on_writable fd s)"
    using fi streams_ok_send [OF inv, of "[]"] by (simp add: on_writable_send descriptors_inv_send streams_inv_def)
  show "streams_inv base (begin_orderly_close fd reason s)" "streams_inv base (drop_fd fd reason s)"
    using fi ok by (simp_all add: descriptors_inv_close descriptors_inv_drop streams_ok_close streams_ok_drop streams_inv_def)
  show "streams_inv base (say line s)" "streams_inv base (s\<lparr>kern := snd (sys_recv fd n (kern s))\<rparr>)"
    "streams_inv base (reap_closed s)" "streams_inv base (pause_accepting s)" "streams_inv base (resume_accepting_if_due s)"
    "streams_inv base (s\<lparr>event_loop := snd (snd (loop_wait pr kr (event_loop s))), kern := (kern s)\<lparr>now := n\<rparr>\<rparr>)"
    using fi.P_say [OF fi] fi.P_recv [OF fi] fi.P_reap [OF fi] fi.P_pause [OF fi] fi.P_resume [OF fi] fi.P_wait [OF fi] same
    by (simp_all add: streams_inv_def say_def reap_closed_def frame_simps fold_sys_close_wire)
  show "streams_inv base (s\<lparr>listener := srv, kern := k\<rparr>)"
    if acc: "accept_connection (listener s) (kern s) = (a, srv, k)" "acc_fd a < 0"
    using fi.P_accept_none [OF fi that] accept_connection_none(7) [OF that] streams_inv_facts(5) [OF inv] same
    by (simp add: streams_inv_def)
  show "streams_inv base (admit (acc_fd a) (acc_peer a) (s\<lparr>listener := srv, kern := k\<rparr>))"
    if acc: "accept_connection (listener s) (kern s) = (a, srv, k)" "0 \<le> acc_fd a"
  proof -
    note new = descriptors_inv_admit [OF fi acc] and some = accept_connection_some(9) [OF acc]
    have "streams_ok (s\<lparr>listener := srv, kern := k\<rparr>)"
      using new(2) by (intro same) (auto simp: some)
    with new some show ?thesis by (simp add: streams_inv_def streams_ok_admit)
  qed
  assume ss: "session s fd = Some ss"
  note facts = streams_inv_facts [OF inv ss]
  have put: "streams_ok t"
    if "sessions t = AList.update fd ss' (sessions s)" "kern t = kern s" "outbuf ss' = outbuf ss" "out_start ss' = out_start ss"
      "LF \<notin> set (username ss')" for t ss'
    using that facts(4) by (intro streams_ok_put [OF ok, of _ fd ss']) (simp_all add: pending_def)
  show "streams_inv base (s\<lparr>book := snd (snd (add_order fd i side qty price [] (book s)))\<rparr>)"
    if "logged_in ss" "is_valid_instrument i" "order_terms qty price"
    using fi.P_order [OF fi ss that] same by (simp add: streams_inv_def)
  show "streams_inv base (s\<lparr>book := snd (cancel_order oid fd (book s))\<rparr>)" if "logged_in ss"
    using fi.P_cancel [OF fi ss that] same by (simp add: streams_inv_def)
  show "streams_inv base (put_session fd (ss\<lparr>inbuf := rest\<rparr>) s)" if "suffix rest (inbuf ss)"
    using fi.P_cut [OF fi ss that] put [of _ "ss\<lparr>inbuf := rest\<rparr>"] facts(3) by (simp add: streams_inv_def)
  show "streams_inv base (put_session fd (ss\<lparr>inbuf := inbuf ss @ bs\<rparr>) s)" if "\<not> closing ss"
    using fi.P_append [OF fi ss that] put [of _ "ss\<lparr>inbuf := inbuf ss @ bs\<rparr>"] facts(3) by (simp add: streams_inv_def)
  show "streams_inv base (put_session fd (ss\<lparr>role := ROLE_MARKET_DATA\<rparr>) s)" if "role ss = ROLE_UNKNOWN"
    using fi.P_role [OF fi ss that] put [of _ "ss\<lparr>role := ROLE_MARKET_DATA\<rparr>"] facts(3) by (simp add: streams_inv_def)
  show "streams_inv base (register_login fd ss user s)"
    if "role ss \<noteq> ROLE_MARKET_DATA" "\<not> logged_in ss" "user \<notin> set (usernames s)" "user_name user"
    using fi.P_login [OF fi ss that] put [of _ "ss\<lparr>role := ROLE_TRADER, username := user, logged_in := True\<rparr>"] is_word_LF [OF user_name_word [OF that(4)]]
    by (simp add: streams_inv_def register_login_def)
  show "streams_inv base (add_subscription fd ss i s)" if "role ss = ROLE_MARKET_DATA" "is_valid_instrument i"
    using fi.P_subscribe [OF fi ss that] put [of _ "ss\<lparr>subscriptions := List.insert i (subscriptions ss)\<rparr>"] facts(3)
    by (simp add: streams_inv_def add_subscription_def)
  show "streams_inv base (remove_subscription fd ss i s)" if "role ss = ROLE_MARKET_DATA"
    using fi.P_unsubscribe [OF fi ss that] put [of _ "ss\<lparr>subscriptions := removeAll i (subscriptions ss)\<rparr>"] facts(3)
    by (simp add: streams_inv_def remove_subscription_def)
qed

end
