(* ===== verification/Server_Properties.thy ===== *)
theory Server_Properties
  imports Server_Registry Server_Interest Server_Streams
begin

text \<open>
  What the invariants say of a running exchange: from a successful \<^verbatim>\<open>start()\<close> on, in every state the
  main loop passes through, whatever the clients send and whatever the system calls answer.
\<close>

unbundle bit_operations_syntax

text \<open>A server that has just been started, with the event loop \<open>l\<close> its constructor made.\<close>

definition booted :: "EventLoop \<Rightarrow> Server \<Rightarrow> bool" where
  "booted l s0 \<longleftrightarrow>
     (\<exists>host port v n k. server_start (new_exchange host port l v n k) = (True, s0) \<and> \<not> bad_close k)"

lemma bootedE:
  assumes "booted l s0"
  shows "sessions s0 = []" "closed_fds s0 = []" "subscribers s0 = Map.empty" "usernames s0 = []" "book s0 = empty_book"
    "accept_resume_at s0 = 0" "event_loop s0 = snd (loop_add (ts_fd (listener s0)) True False l)"
    "ts_fd (listener s0) \<in> set (open_fds (kern s0))" "\<not> bad_close (kern s0)"
proof -
  obtain host port v n k where st: "server_start (new_exchange host port l v n k) = (True, s0)" and "\<not> bad_close k"
    using assms by (auto simp: booted_def)
  obtain r k' where c: "create_listening_socket host port SOMAXCONN k = (r, k')" by fastforce
  have "no_leak (r, k') k" using no_leak_create [of host port SOMAXCONN k] by (simp add: c)
  moreover obtain fd where r: "r = Inr fd"
    using st by (cases r) (auto simp: server_start_def start_def new_exchange_def new_server_def c Let_def)
  ultimately have fd: "fd \<in> set (open_fds k')" "\<not> bad_close k'"
    using \<open>\<not> bad_close k\<close> by (simp_all add: no_leak_def)
  obtain added l' where add: "loop_add fd True False l = (added, l')" by fastforce
  have s0: "sessions s0 = [] \<and> closed_fds s0 = [] \<and> subscribers s0 = Map.empty \<and> usernames s0 = [] \<and>
      book s0 = empty_book \<and> accept_resume_at s0 = 0 \<and> event_loop s0 = l' \<and> ts_fd (listener s0) = fd \<and> kern s0 = k'"
    using st by (auto simp: server_start_def start_def new_exchange_def new_server_def c r add say_def Let_def split: if_splits)
  then show "sessions s0 = []" "closed_fds s0 = []" "subscribers s0 = Map.empty" "usernames s0 = []" "book s0 = empty_book"
    "accept_resume_at s0 = 0" "event_loop s0 = snd (loop_add (ts_fd (listener s0)) True False l)"
    "ts_fd (listener s0) \<in> set (open_fds (kern s0))" "\<not> bad_close (kern s0)"
    using fd by (simp_all add: add)
qed

lemma booted_descriptors: "booted l s0 \<Longrightarrow> descriptors_inv (set (open_fds (kern s0))) s0"
  using bootedE [of l s0] by (simp add: descriptors_inv_def sessions_inv_def fd_ok_def clients_of_def)

lemma booted_registry: "booted l s0 \<Longrightarrow> registry_inv (set (open_fds (kern s0))) s0"
proof -
  assume boot: "booted l s0"
  have "queue_of key empty_book = []" for key
    by (cases key; cases "q_side key") (auto simp: empty_book_def)
  then have "resting empty_book = {}" by (auto simp: resting_def)
  then show ?thesis
    using booted_descriptors [OF boot] bootedE [OF boot] empty_book_inv
    by (simp add: registry_inv_def reg_ok_def subs_ok_def users_ok_def orders_ok_def idents_def subscribed_def names_def
        ran_def dom_def)
qed

lemma booted_streams: "booted l s0 \<Longrightarrow> streams_inv (set (open_fds (kern s0))) s0"
  using bootedE [of l s0] booted_descriptors by (simp add: streams_inv_def streams_ok_def names_ok_def)

lemma booted_interest:
  assumes "booted (new_loop have_kq kqr b script) s0" and "set script \<subseteq> {None}"
  shows "interest_inv (set (open_fds (kern s0))) s0"
  using bootedE [OF assms(1)] booted_descriptors [OF assms(1)] new_loop_inv [OF assms(2)] el.laws
  by (simp add: interest_inv_def loop_ok_def wanted_def fun_eq_iff)

section \<open>Accepting\<close>

text \<open>The answers of \<^verbatim>\<open>fcntl\<close> used up on the way from one state of the world to another, and whether one of them was a failure.\<close>

definition fcntl_fails :: "Kernel \<Rightarrow> Kernel \<Rightarrow> bool" where
  "fcntl_fails k k' \<longleftrightarrow> (\<exists>used e. outcomes k Sys_fcntl = used @ outcomes k' Sys_fcntl \<and> Some e \<in> set used)"

lemma fcntl_fails_later:
  assumes "suffix (outcomes k' Sys_fcntl) (outcomes k Sys_fcntl)" and "fcntl_fails k' k''"
  shows "fcntl_fails k k''"
proof -
  obtain a b e where "outcomes k Sys_fcntl = a @ b @ outcomes k'' Sys_fcntl" "Some e \<in> set b"
    using assms by (auto simp: suffix_def fcntl_fails_def)
  then show ?thesis unfolding fcntl_fails_def by (intro exI [of _ "a @ b"]) auto
qed

lemma outcome_used:
  "outcome c k = (err, k') \<Longrightarrow> outcomes k c = outcomes k' c \<and> err = None \<or> outcomes k c = err # outcomes k' c"
  by (auto simp: outcome_def split: list.splits)

lemma set_nonblocking_used:
  assumes "set_nonblocking fd k = (err, k')"
  shows "suffix (outcomes k' Sys_fcntl) (outcomes k Sys_fcntl)" and "err \<noteq> None \<Longrightarrow> fcntl_fails k k'"
    and "accept_script k' = accept_script k"
proof -
  obtain e1 k1 where o1: "outcome Sys_fcntl k = (e1, k1)" by fastforce
  obtain e2 k2 where o2: "outcome Sys_fcntl k1 = (e2, k2)" by fastforce
  have k': "outcomes k' = outcomes k1 \<and> e1 \<noteq> None \<and> err = e1 \<or> outcomes k' = outcomes k2 \<and> e1 = None \<and> err = e2"
    using assms by (auto simp: set_nonblocking_def o1 o2 Let_def split: if_splits)
  have "suffix (outcomes k1 Sys_fcntl) (outcomes k Sys_fcntl)" "suffix (outcomes k2 Sys_fcntl) (outcomes k1 Sys_fcntl)"
    using outcome_used [OF o1] outcome_used [OF o2] by (auto simp: suffix_ConsI)
  with k' show "suffix (outcomes k' Sys_fcntl) (outcomes k Sys_fcntl)" using suffix_order.trans by fastforce
  have fails: "fcntl_fails k1 k2" if "e2 \<noteq> None" using outcome_used [OF o2] that by (force simp: fcntl_fails_def)
  moreover have "fcntl_fails k k1" if "e1 \<noteq> None" using outcome_used [OF o1] that by (force simp: fcntl_fails_def)
  ultimately show "fcntl_fails k k'" if "err \<noteq> None"
    using k' that fcntl_fails_later [OF \<open>suffix (outcomes k1 Sys_fcntl) (outcomes k Sys_fcntl)\<close>] by (fastforce simp: fcntl_fails_def)
  show "accept_script k' = accept_script k"
    using assms outcome_frame(7) [of Sys_fcntl k] outcome_frame(7) [of Sys_fcntl k1] by (auto simp: set_nonblocking_def o1 o2 Let_def split: if_splits)
qed

text \<open>A waiting connection: it is accepted, or \<^verbatim>\<open>fcntl\<close> failed and it is given up.\<close>

lemma accept_connection_waiting:
  assumes "accept_script k = Connection addr port # rest" and "accept_connection srv k = (a, srv', k')"
  shows "accept_script k' = rest" and "suffix (outcomes k' Sys_fcntl) (outcomes k Sys_fcntl)"
    and "0 \<le> acc_fd a \<Longrightarrow> acc_peer a = peer_text addr port \<and> srv' = srv"
    and "acc_fd a < 0 \<Longrightarrow> fcntl_fails k k' \<and> \<not> acc_again a \<and> \<not> acc_exhausted a"
proof -
  define fd where "fd = lowest_free (open_fds k)"
  define k1 where "k1 = open_fd fd (k\<lparr>accept_script := rest\<rparr>)"
  have acc: "sys_accept k = (Inr (fd, addr, port), k1)"
    using assms(1) by (simp add: sys_accept_def fd_def k1_def Let_def)
  have k1: "outcomes k1 = outcomes k" "accept_script k1 = rest" by (simp_all add: k1_def open_fd_def)
  obtain err k2 where nb: "set_nonblocking fd k1 = (err, k2)" by fastforce
  note used = set_nonblocking_used [OF nb]
  have close: "outcomes (sys_close fd k2) = outcomes k2" "accept_script (sys_close fd k2) = accept_script k2" by (simp_all add: sys_close_def)
  have delay: "outcomes (snd (set_tcp_nodelay fd k2)) Sys_fcntl = outcomes k2 Sys_fcntl" "accept_script (snd (set_tcp_nodelay fd k2)) = accept_script k2"
    by (simp_all add: set_tcp_nodelay_def sys_setsockopt_def outcome_def Let_def split: list.split)
  have fails: "fcntl_fails k k2" if "err \<noteq> None" using used(2) that k1(1) by (simp add: fcntl_fails_def)
  have res: "(a, srv', k') = (case err of
      Some e \<Rightarrow> (\<lparr>acc_fd = -1, acc_again = False, acc_exhausted = False, acc_peer = []\<rparr>, srv\<lparr>ts_error := ''fcntl(O_NONBLOCK) failed: '' @ strerror k2 e\<rparr>, sys_close fd k2)
    | None \<Rightarrow> (\<lparr>acc_fd = fd, acc_again = False, acc_exhausted = False, acc_peer = peer_text addr port\<rparr>, srv, snd (set_tcp_nodelay fd k2)))"
    using assms(2) by (auto simp: accept_connection_def acc nb Let_def split: option.splits prod.splits)
  have fd: "0 \<le> fd" by (simp add: fd_def lowest_free_fresh)
  show "accept_script k' = rest" "suffix (outcomes k' Sys_fcntl) (outcomes k Sys_fcntl)"
    using res used k1 close delay by (auto split: option.splits)
  show "acc_peer a = peer_text addr port \<and> srv' = srv" if "0 \<le> acc_fd a" using res that by (auto split: option.splits)
  show "fcntl_fails k k' \<and> \<not> acc_again a \<and> \<not> acc_exhausted a" if "acc_fd a < 0"
    using res that fails fd close by (auto simp: fcntl_fails_def split: option.splits)
qed

lemma admit_facts:
  assumes "session s fd = None" and "loop_inv (event_loop s)"
  shows "sessions (admit fd p s) = AList.update fd ((new_session fd)\<lparr>peer := p\<rparr>) (sessions s)"
    and "outcomes (kern (admit fd p s)) Sys_fcntl = outcomes (kern s) Sys_fcntl"
proof -
  have "fst (loop_add fd True False (event_loop s))" using assms(2) el.add_succeeds by simp
  with admit_new_form [OF assms(1), of p] obtain c where
    adm: "admit fd p s = s\<lparr>kern := admit_kern fd s, sessions := AList.update fd ((new_session fd)\<lparr>peer := p\<rparr>) (sessions s),
       event_loop := snd (loop_add fd True False (event_loop s)), console := c\<rparr>" by auto
  then show "sessions (admit fd p s) = AList.update fd ((new_session fd)\<lparr>peer := p\<rparr>) (sessions s)" by simp
  show "outcomes (kern (admit fd p s)) Sys_fcntl = outcomes (kern s) Sys_fcntl"
    using adm
    by (simp add: admit_kern_def set_send_buffer_def sys_setsockopt_def outcome_def Let_def case_prod_unfold split: list.split)
qed

text \<open>The ways the loop ends without another connection.\<close>

lemma accept_pending_ends:
  assumes "accept_connection (listener s) (kern s) = (a, srv, k)" and "acc_fd a < 0"
  shows "sessions (accept_pending s) = sessions s" and "kern (accept_pending s) = k"
  using assms by (subst accept_pending.simps; simp add: Let_def say_def pause_accepting_def)+

text \<open>\<open>admitted script s t fds\<close>: from \<open>s\<close> to \<open>t\<close> the connections at the front of \<open>script\<close> were accepted on \<open>fds\<close>, as many as there
  are in front of the first call that failed.\<close>

definition admitted :: "accept_result list \<Rightarrow> Server \<Rightarrow> Server \<Rightarrow> int list \<Rightarrow> bool" where
  "admitted script s t fds \<longleftrightarrow>
     length fds \<le> length script \<and> distinct fds \<and> (\<forall>fd \<in> set fds. session s fd = None) \<and>
     (\<forall>fd. fd \<notin> set fds \<longrightarrow> session t fd = session s fd) \<and>
     (\<forall>j < length fds. \<exists>addr port. script ! j = Connection addr port \<and>
        session t (fds ! j) = Some ((new_session (fds ! j))\<lparr>peer := peer_text addr port\<rparr>)) \<and>
     accept_script (kern t) = drop (Suc (length fds)) script \<and>
     (length fds < length script \<longrightarrow> (\<exists>e. script ! length fds = AcceptError e) \<or> fcntl_fails (kern s) (kern t))"

lemma admitted_Cons:
  assumes "admitted script u t fds" and "sessions u = AList.update fd ((new_session fd)\<lparr>peer := peer_text addr port\<rparr>) (sessions s)"
    and "session s fd = None" and "suffix (outcomes (kern u) Sys_fcntl) (outcomes (kern s) Sys_fcntl)"
  shows "admitted (Connection addr port # script) s t (fd # fds)"
proof -
  have fresh: "fd \<notin> set fds" using assms(1,2) by (auto simp: admitted_def)
  have "\<forall>fd' \<in> set (fd # fds). session s fd' = None" using assms(1-3) fresh by (auto simp: admitted_def split: if_splits)
  moreover have "\<forall>fd'. fd' \<notin> set (fd # fds) \<longrightarrow> session t fd' = session s fd'" using assms(1,2) by (auto simp: admitted_def)
  moreover have "session t fd = Some ((new_session fd)\<lparr>peer := peer_text addr port\<rparr>)" using assms(1,2) fresh by (auto simp: admitted_def)
  ultimately show ?thesis
    using assms(1) fresh fcntl_fails_later [OF assms(4)] unfolding admitted_def by (auto simp: All_less_Suc2)
qed

lemma accept_pending_all:
  assumes "interest_inv base s" and "accept_script (kern s) = script"
  shows "\<exists>fds. admitted script s (accept_pending s) fds"
  using assms
proof (induction script arbitrary: s)
  case Nil
  then have "accept_connection (listener s) (kern s) =
      (\<lparr>acc_fd = -1, acc_again = True, acc_exhausted = False, acc_peer = []\<rparr>, listener s, kern s)"
    by (simp add: accept_connection_def sys_accept_def Let_def)
  then have "accept_pending s = s" by (subst accept_pending.simps) simp
  with Nil show ?case by (intro exI [of _ "[]"]) (simp add: admitted_def)
next
  case (Cons r script)
  obtain a srv k' where acc: "accept_connection (listener s) (kern s) = (a, srv, k')" by (metis surj_pair)
  show ?case
  proof (cases r)
    case (AcceptError e)
    then have "acc_fd a < 0" "accept_script k' = script"
      using acc Cons.prems(2) by (auto simp: accept_connection_def sys_accept_def Let_def split: if_splits)
    with accept_pending_ends [OF acc] AcceptError show ?thesis by (intro exI [of _ "[]"]) (simp add: admitted_def)
  next
    case (Connection addr port)
    note waiting = accept_connection_waiting [OF Cons.prems(2) [unfolded Connection] acc]
    show ?thesis
    proof (cases "acc_fd a < 0")
      case True
      with accept_pending_ends [OF acc] waiting show ?thesis by (intro exI [of _ "[]"]) (simp add: admitted_def)
    next
      case False
      then have pos: "0 \<le> acc_fd a" by simp
      let ?s' = "s\<lparr>listener := srv, kern := k'\<rparr>"
      define u where "u = admit (acc_fd a) (acc_peer a) ?s'"
      have di: "descriptors_inv base s" "loop_ok s" using Cons.prems(1) by (simp_all add: interest_inv_def)
      have none: "session s (acc_fd a) = None" using descriptors_inv_admit(2) [OF di(1) acc pos] by simp
      have s': "session ?s' (acc_fd a) = None" "loop_inv (event_loop ?s')" using none di(2) by (simp_all add: loop_ok_def)
      have u: "sessions u = AList.update (acc_fd a) ((new_session (acc_fd a))\<lparr>peer := peer_text addr port\<rparr>) (sessions s)"
          "outcomes (kern u) Sys_fcntl = outcomes k' Sys_fcntl" "accept_script (kern u) = script"
        using admit_facts [OF s', of "acc_peer a"] waiting(1) waiting(3) [OF pos] by (simp_all add: u_def)
      have "interest_inv base u" using li.P_admit [OF Cons.prems(1) acc pos] by (simp add: u_def)
      from Cons.IH [OF this u(3)] obtain fds where "admitted script u (accept_pending u) fds" ..
      moreover have "accept_pending s = accept_pending u"
        using acc False by (subst accept_pending.simps) (simp add: Let_def u_def)
      ultimately have "admitted (Connection addr port # script) s (accept_pending s) (acc_fd a # fds)"
        using u waiting(2) none by (intro admitted_Cons [where u = u]) simp_all
      then show ?thesis unfolding Connection by blast
    qed
  qed
qed

section \<open>Shutting down\<close>

text \<open>Nothing the server does changes the order in which the library iterates over its sets.\<close>

definition iterates :: "(int list \<Rightarrow> int list) \<Rightarrow> Server \<Rightarrow> bool" where
  "iterates h s \<longleftrightarrow> hash_order (kern s) = h"

lemma untouched_iterates: "untouched s t \<Longrightarrow> iterates h s \<Longrightarrow> iterates h t"
  by (simp add: untouched_def fixed_part_def iterates_def)

lemma admit_iterates: "iterates h s \<Longrightarrow> iterates h (admit fd p s)"
  by (simp add: iterates_def admit_def Let_def case_prod_unfold session_at_def log_connection_count_def say_def frame_simps
      split: option.split)

lemma fold_sys_close_hash: "hash_order (fold sys_close fds k) = hash_order k"
  by (induction fds arbitrary: k) (simp_all add: frame_simps)

interpretation ih: server_invariant "iterates h" for h
proof
  fix s fd ss i side oid user line m reason rest n bs a srv k pr kr
    and qty price :: int
  assume inv: "iterates h s"
  show "iterates h (send_to fd m s)" "iterates h (on_writable fd s)" "iterates h (begin_orderly_close fd reason s)"
    "iterates h (drop_fd fd reason s)"
    using untouched_iterates [OF untouched_send inv] untouched_iterates [OF untouched_close inv]
      untouched_iterates [OF untouched_drop inv] by (simp_all add: on_writable_send)
  show "iterates h (say line s)" "iterates h (register_login fd ss user s)" "iterates h (put_session fd (ss\<lparr>role := ROLE_MARKET_DATA\<rparr>) s)"
    "iterates h (add_subscription fd ss i s)" "iterates h (remove_subscription fd ss i s)"
    "iterates h (s\<lparr>book := snd (snd (add_order fd i side qty price [] (book s)))\<rparr>)"
    "iterates h (s\<lparr>book := snd (cancel_order oid fd (book s))\<rparr>)" "iterates h (put_session fd (ss\<lparr>inbuf := rest\<rparr>) s)"
    "iterates h (s\<lparr>kern := snd (sys_recv fd n (kern s))\<rparr>)" "iterates h (put_session fd (ss\<lparr>inbuf := inbuf ss @ bs\<rparr>) s)"
    "iterates h (pause_accepting s)" "iterates h (resume_accepting_if_due s)" "iterates h (reap_closed s)"
    "iterates h (s\<lparr>event_loop := snd (snd (loop_wait pr kr (event_loop s))), kern := (kern s)\<lparr>now := n\<rparr>\<rparr>)"
    using inv
    by (simp_all add: iterates_def say_def register_login_def add_subscription_def remove_subscription_def reap_closed_def
        frame_simps fold_sys_close_hash)
  assume acc: "accept_connection (listener s) (kern s) = (a, srv, k)"
  show "iterates h (s\<lparr>listener := srv, kern := k\<rparr>)" if "acc_fd a < 0"
    using inv accept_connection_none(5) [OF acc that] by (simp add: iterates_def)
  show "iterates h (admit (acc_fd a) (acc_peer a) (s\<lparr>listener := srv, kern := k\<rparr>))" if "0 \<le> acc_fd a"
    using inv accept_connection_some(6) [OF acc that] by (intro admit_iterates) (simp add: iterates_def)
qed

lemma shutdown_fold:
  assumes "distinct fds" and "set fds \<subseteq> set (open_fds k)"
  shows "set (open_fds (fold (\<lambda>fd k. sys_close fd (sys_shutdown fd SHUT_RDWR k)) fds k)) = set (open_fds k) - set fds \<and>
    bad_close (fold (\<lambda>fd k. sys_close fd (sys_shutdown fd SHUT_RDWR k)) fds k) = bad_close k"
  using assms
proof (induction fds arbitrary: k)
  case (Cons fd fds)
  let ?k = "sys_close fd (sys_shutdown fd SHUT_RDWR k)"
  have k: "open_fds ?k = removeAll fd (open_fds k)" "bad_close ?k = bad_close k"
    using Cons.prems by (simp_all add: sys_close_def sys_shutdown_def)
  have "set fds \<subseteq> set (open_fds ?k)" using Cons.prems by (auto simp: k)
  with Cons.IH [of ?k] Cons.prems k show ?case by auto
qed simp

lemma shutdown_releases:
  assumes "descriptors_inv base s" and "\<And>xs. mset (hash_order (kern s) xs) = mset xs"
  shows "set (open_fds (kern (shutdown_all s))) = base \<and> \<not> bad_close (kern (shutdown_all s)) \<and>
    sessions (shutdown_all s) = [] \<and> closed_fds (shutdown_all s) = []"
proof -
  let ?order = "hash_order (kern s) (map fst (sessions s))"
  have order: "set ?order = clients_of s" "distinct ?order"
    using assms mset_eq_setD [OF assms(2) [of "map fst (sessions s)"]]
      mset_eq_imp_distinct_iff [OF assms(2) [of "map fst (sessions s)"]]
    by (auto simp: clients_of_def dom_map_of_conv_image_fst descriptors_inv_def sessions_inv_def)
  define k1 where "k1 = fold (\<lambda>fd k. sys_close fd (sys_shutdown fd SHUT_RDWR k)) ?order (kern s)"
  have ok: "fd_ok base (clients_of s) (closed_fds s) (ts_fd (listener s)) (kern s)"
    using assms(1) by (simp add: descriptors_inv_def)
  have k1: "set (open_fds k1) = base \<union> set (closed_fds s)" "bad_close k1 = bad_close (kern s)"
    using shutdown_fold [OF order(2), of "kern s"] ok unfolding k1_def by (auto simp: fd_ok_def order(1))
  have "distinct (closed_fds s)" "set (closed_fds s) \<subseteq> set (open_fds k1)" using ok k1 by (auto simp: fd_ok_def)
  from fold_sys_close [OF this] ok k1 have
    "set (open_fds (fold sys_close (closed_fds s) k1)) = base" "\<not> bad_close (fold sys_close (closed_fds s) k1)"
    by (auto simp: fd_ok_def)
  then show ?thesis by (simp add: shutdown_all_def reap_closed_def say_def Let_def k1_def)
qed

lemma run_releases:
  assumes "descriptors_inv base s" and "iterates h s" and "\<And>xs. mset (h xs) = mset xs"
  shows "set (open_fds (kern (run ts s))) = base \<and> \<not> bad_close (kern (run ts s)) \<and>
    sessions (run ts s) = [] \<and> closed_fds (run ts s) = []"
proof (rule message_invariant.run_invariant [OF message_invariant_conj [OF fi.message_invariant_axioms ih.message_invariant_axioms]])
  show "descriptors_inv base s \<and> iterates h s" using assms by blast
  show "set (open_fds (kern (shutdown_all u))) = base \<and> \<not> bad_close (kern (shutdown_all u)) \<and>
      sessions (shutdown_all u) = [] \<and> closed_fds (shutdown_all u) = []" if "descriptors_inv base u \<and> iterates h u" for u
    using shutdown_releases [of base u] that assms(3) by (simp add: iterates_def)
qed

section \<open>A sample\<close>

text \<open>A server on descriptor 3 in a world where every call succeeds and three connections wait.\<close>

definition demo_kernel :: Kernel where
  "demo_kernel = quiet_kernel\<lparr>accept_script := replicate 3 (Connection (Some ''127.0.0.1'') 40000)\<rparr>"

definition demo_boot :: Server where
  "demo_boot = snd (server_start (new_exchange ''localhost'' 5000 (new_loop False (-1) Poll []) False 0 demo_kernel))"

definition demo_accepted :: Server where
  "demo_accepted = handle_event \<lparr>ev_fd = 3, ev_readable = True, ev_writable = False, ev_hangup = False\<rparr> demo_boot"

lemmas demo_defs = demo_boot_def server_start_def new_exchange_def new_server_def start_def create_listening_socket_def
  resolve_ipv4_def demo_kernel_def quiet_kernel_def sys_socket_def outcome_def lowest_free_def open_fd_def
  sys_setsockopt_def sys_bind_def sys_listen_def set_nonblocking_def new_loop_def loop_add_def poll_add_def poll_push_def
  say_def Let_def

lemma demo_booted: "booted (new_loop False (-1) Poll []) demo_boot"
proof -
  have "fst (server_start (new_exchange ''localhost'' 5000 (new_loop False (-1) Poll []) False 0 demo_kernel))"
    by (simp add: demo_defs)
  then have "server_start (new_exchange ''localhost'' 5000 (new_loop False (-1) Poll []) False 0 demo_kernel) = (True, demo_boot)"
    unfolding demo_boot_def by (metis prod.collapse)
  moreover have "\<not> bad_close demo_kernel" by (simp add: demo_kernel_def quiet_kernel_def)
  ultimately show ?thesis unfolding booted_def by blast
qed

lemma demo_serving: "serving demo_boot demo_accepted"
  unfolding demo_accepted_def by (intro serving.intros)

lemma demo_boot_facts: "ts_fd (listener demo_boot) = 3" "sessions demo_boot = []"
    "accept_script (kern demo_boot) = replicate 3 (Connection (Some ''127.0.0.1'') 40000)"
    "outcomes (kern demo_boot) Sys_fcntl = []"
  by (simp_all add: demo_defs numeral_3_eq_3)

lemma demo_accepts: "demo_accepted = accept_pending demo_boot"
  by (simp add: demo_accepted_def handle_event_def demo_boot_facts)

lemma demo_admitted: "admitted (replicate 3 (Connection (Some ''127.0.0.1'') 40000)) demo_boot demo_accepted fds \<Longrightarrow> length fds = 3"
  by (auto simp: admitted_def demo_boot_facts fcntl_fails_def le_less)

lemma demo_client: "\<exists>fd ss. session demo_accepted fd = Some ss"
proof -
  have "interest_inv (set (open_fds (kern demo_boot))) demo_boot" using booted_interest [OF demo_booted] by simp
  from accept_pending_all [OF this demo_boot_facts(3)] obtain fds
    where "admitted (replicate 3 (Connection (Some ''127.0.0.1'') 40000)) demo_boot demo_accepted fds" unfolding demo_accepts ..
  with demo_admitted [OF this] show ?thesis unfolding admitted_def by (metis zero_less_numeral)
qed

section \<open>Properties\<close>

text \<open>C15: the registries of the server agree with its sessions at all times. A descriptor is in the
  subscriber set of an instrument exactly when a session with that descriptor lists the instrument; the
  user names in use are exactly those of the logged-in sessions, and no two sessions share one; a
  session is logged in exactly when its role is trader, and only market-data clients subscribe.\<close>

theorem server_registries:
  assumes "booted l s0" and "serving s0 s"
  shows "(\<forall>fd i. fd \<in> set (subscribed i (subscribers s)) \<longleftrightarrow>
            (\<exists>ss. session s fd = Some ss \<and> i \<in> set (subscriptions ss))) \<and>
    (\<forall>u. u \<in> set (usernames s) \<longleftrightarrow> (\<exists>fd ss. session s fd = Some ss \<and> logged_in ss \<and> username ss = u)) \<and>
    (\<forall>fd ss fd' ss'. session s fd = Some ss \<and> logged_in ss \<and> session s fd' = Some ss' \<and> logged_in ss' \<and>
       username ss = username ss' \<longrightarrow> fd = fd') \<and>
    (\<forall>fd ss. session s fd = Some ss \<longrightarrow>
       logged_in ss = (role ss = ROLE_TRADER) \<and> (subscriptions ss \<noteq> [] \<longrightarrow> role ss = ROLE_MARKET_DATA))"
proof -
  have "registry_inv (set (open_fds (kern s0))) s"
    using rg.serving_invariant [OF assms(2) booted_registry [OF assms(1)]] .
  then have reg: "subs_ok (idents s) (subscribers s)" "users_ok (names (idents s)) (usernames s)"
      "\<And>fd ss. session s fd = Some ss \<Longrightarrow> ident_ok (ident_of ss)"
    by (auto simp: registry_inv_def reg_ok_def idents_def)
  have name: "names (idents s) fd = Some u \<longleftrightarrow> (\<exists>ss. session s fd = Some ss \<and> logged_in ss \<and> username ss = u)" for fd u
    by (auto simp: names_def idents_def split: option.split)
  have "fd = fd'" if "session s fd = Some ss" "logged_in ss" "session s fd' = Some ss'" "logged_in ss'" "username ss = username ss'"
    for fd fd' ss ss'
    using reg(2) name [of fd "username ss"] name [of fd' "username ss"] that unfolding users_ok_def inj_on_def by (metis domI)
  then show ?thesis
    using reg(1,3) reg(2) name
    by (auto simp: subs_ok_def idents_def users_ok_def ran_def ident_ok_def)
qed

theorem server_registries_witness:
  "\<forall>fd i. fd \<in> set (subscribed i (subscribers demo_accepted)) \<longleftrightarrow>
     (\<exists>ss. session demo_accepted fd = Some ss \<and> i \<in> set (subscriptions ss))"
  using server_registries [OF demo_booted demo_serving] by simp

text \<open>C14: the order book never outlives its owners. At all times the book is well formed, no iterator into
  one of its queues has dangled, and every resting order belongs to a connected client that is
  logged in as a trader; in particular a reused descriptor never inherits orders.\<close>

theorem server_orders_owned:
  assumes "booted l s0" and "serving s0 s"
  shows "book_inv (book s) \<and> \<not> dangling (book s) \<and>
    (\<forall>r \<in> resting (book s). \<exists>ss. session s (o_owner_fd r) = Some ss \<and> logged_in ss \<and> role ss = ROLE_TRADER)"
proof -
  have "registry_inv (set (open_fds (kern s0))) s"
    using rg.serving_invariant [OF assms(2) booted_registry [OF assms(1)]] .
  then show ?thesis
    by (fastforce simp: registry_inv_def reg_ok_def orders_ok_def idents_def ident_ok_def book_inv_def)
qed

theorem server_orders_owned_witness: "book_inv (book demo_accepted) \<and> \<not> dangling (book demo_accepted)"
  using server_orders_owned [OF demo_booted demo_serving] by simp

text \<open>C16: no descriptor leaks and none is closed twice. At all times the open descriptors are those open
  when serving began, one per session, and those of dropped clients that await the end of the batch; the
  three groups are disjoint, the listening socket is in the first, client sockets are
  non-blocking, and no descriptor that was not open has been closed.\<close>

theorem server_descriptors:
  assumes "booted l s0" and "serving s0 s"
  shows "set (open_fds (kern s)) = set (open_fds (kern s0)) \<union> fst ` set (sessions s) \<union> set (closed_fds s) \<and>
    distinct (map fst (sessions s) @ closed_fds s) \<and>
    set (open_fds (kern s0)) \<inter> (fst ` set (sessions s) \<union> set (closed_fds s)) = {} \<and>
    ts_fd (listener s) \<in> set (open_fds (kern s0)) \<and> \<not> bad_close (kern s) \<and>
    (\<forall>fd \<in> fst ` set (sessions s). fd_flags (kern s) fd AND O_NONBLOCK \<noteq> 0)"
proof -
  have "descriptors_inv (set (open_fds (kern s0))) s"
    using fi.serving_invariant [OF assms(2) booted_descriptors [OF assms(1)]] .
  then show ?thesis
    by (auto simp: descriptors_inv_def fd_ok_def clients_of_def sessions_inv_def dom_map_of_conv_image_fst)
qed

theorem server_descriptors_witness:
  "set (open_fds (kern demo_accepted)) =
     set (open_fds (kern demo_boot)) \<union> fst ` set (sessions demo_accepted) \<union> set (closed_fds demo_accepted) \<and>
   sessions demo_accepted \<noteq> []"
  using server_descriptors [OF demo_booted demo_serving] demo_client by auto

text \<open>C17: buffers stay within their limits and the flags tell the truth. At all times every session has at most
  16 MiB of unsent output, in a buffer of at most 16 MiB plus 64 KiB; it is marked as backlogged and as
  waiting for writability exactly while output is queued; it is read from exactly while it is not
  being closed; and a session being closed has output left and no unread input.\<close>

theorem server_output_bounds:
  assumes "booted l s0" and "serving s0 s" and "session s fd = Some ss"
  shows "pending_bytes ss \<le> kMaxOutputBytes \<and> length (outbuf ss) \<le> kMaxOutputBytes + kReadChunk \<and>
    out_start ss \<le> length (outbuf ss) \<and> s_fd ss = fd \<and>
    backlogged ss = has_pending_output ss \<and> write_interest ss = has_pending_output ss \<and>
    read_interest ss = (\<not> closing ss) \<and> (closing ss \<longrightarrow> has_pending_output ss \<and> inbuf ss = [])"
proof -
  have "session_ok fd ss"
    using fi.serving_invariant [OF assms(2) booted_descriptors [OF assms(1)]] assms(3)
    by (simp add: descriptors_inv_def sessions_inv_def)
  then show ?thesis by (auto simp: session_ok_def settled_output_def pending_bytes_def)
qed

theorem server_output_bounds_witness:
  "\<exists>fd ss. session demo_accepted fd = Some ss \<and> pending_bytes ss \<le> kMaxOutputBytes \<and> read_interest ss = (\<not> closing ss)"
proof -
  obtain fd ss where "session demo_accepted fd = Some ss" using demo_client by blast
  from server_output_bounds [OF demo_booted demo_serving this] this show ?thesis by auto
qed

text \<open>C20: the event loop watches exactly what it should. While the kernel accepts the registrations, at all
  times a client is registered for reading exactly when it is not being closed and for writing exactly
  while output is queued for it, the listening socket is watched exactly while accepting is not
  suspended, and nothing else is registered.\<close>

theorem server_interest:
  assumes "booted (new_loop have_kq kqr b script) s0" and "set script \<subseteq> {None}" and "serving s0 s"
  shows "loop_interest (event_loop s) fd =
    (if fd = ts_fd (listener s) then Some (accept_resume_at s = 0, False)
     else map_option (\<lambda>ss. (\<not> closing ss, has_pending_output ss)) (session s fd))"
proof -
  have "interest_inv (set (open_fds (kern s0))) s"
    using li.serving_invariant [OF assms(3) booted_interest [OF assms(1,2)]] .
  then show ?thesis
    by (cases "session s fd")
      (auto simp: interest_inv_def loop_ok_def wanted_def descriptors_inv_def sessions_inv_def session_ok_def settled_output_def)
qed

theorem server_interest_witness:
  "loop_interest (event_loop demo_boot) 3 = Some (accept_resume_at demo_boot = 0, False)"
  using server_interest [OF demo_booted _ serving.start, of 3] by (simp add: demo_boot_facts)

text \<open>Every client is sent whole lines. At all times the bytes the kernel has taken for a connected client
  followed by those still queued are empty or end with a line feed.\<close>

theorem server_whole_lines:
  assumes "booted l s0" and "serving s0 s" and "session s fd = Some ss"
  shows "wire (kern s) fd @ pending ss = [] \<or> last (wire (kern s) fd @ pending ss) = LF"
  using st.serving_invariant [OF assms(2) booted_streams [OF assms(1)]] assms(3)
  by (auto simp: streams_inv_def streams_ok_def whole_lines_def)

theorem server_whole_lines_witness:
  "\<exists>fd ss. session demo_accepted fd = Some ss \<and>
     (wire (kern demo_accepted) fd @ pending ss = [] \<or> last (wire (kern demo_accepted) fd @ pending ss) = LF)"
proof -
  obtain fd ss where "session demo_accepted fd = Some ss" using demo_client by blast
  with server_whole_lines [OF demo_booted demo_serving this] show ?thesis by blast
qed

text \<open>C23: one wakeup accepts the connections that wait, up to the first call that fails. Let \<open>script\<close> be what \<^verbatim>\<open>accept\<close> would answer,
  connections and errors in any order, and let the kernel refuse no registration. \<open>accept_pending\<close> accepts the connections at the
  front of \<open>script\<close>, each on a new descriptor with a session of its own that is labelled with its peer, and changes no other session. It
  stops early only at an error of \<^verbatim>\<open>accept\<close> or after a failing \<^verbatim>\<open>fcntl\<close>, and gives up nothing but the one answer it stops at: what is
  behind it is left for the next wakeup. In particular the queue is empty afterwards when no call fails.\<close>

theorem accept_pending_drains:
  assumes "booted (new_loop have_kq kqr b refusals) s0" and "set refusals \<subseteq> {None}" and "serving s0 s"
    and "t = accept_pending s" and "script = accept_script (kern s)"
  shows "\<exists>fds. length fds \<le> length script \<and> distinct fds \<and> (\<forall>fd \<in> set fds. session s fd = None) \<and>
    (\<forall>fd. fd \<notin> set fds \<longrightarrow> session t fd = session s fd) \<and>
    (\<forall>j < length fds. \<exists>addr port. script ! j = Connection addr port \<and>
       session t (fds ! j) = Some ((new_session (fds ! j))\<lparr>peer := peer_text addr port\<rparr>)) \<and>
    accept_script (kern t) = drop (Suc (length fds)) script \<and>
    (length fds < length script \<longrightarrow> (\<exists>e. script ! length fds = AcceptError e) \<or>
       (\<exists>used e. outcomes (kern s) Sys_fcntl = used @ outcomes (kern t) Sys_fcntl \<and> Some e \<in> set used))"
  using accept_pending_all [OF li.serving_invariant [OF assms(3) booted_interest [OF assms(1,2)]] assms(5) [symmetric]]
  unfolding admitted_def fcntl_fails_def assms(4) .

theorem accept_pending_drains_witness:
  "accept_script (kern (accept_pending demo_boot)) = []"
proof -
  from accept_pending_drains [OF demo_booted _ serving.start refl refl] obtain fds
    where "admitted (replicate 3 (Connection (Some ''127.0.0.1'') 40000)) demo_boot demo_accepted fds"
    by (auto simp: admitted_def fcntl_fails_def demo_boot_facts demo_accepts)
  with demo_admitted [OF this] show ?thesis by (simp add: admitted_def flip: demo_accepts)
qed

text \<open>Every run ends with all clients released. However long the server runs, whatever it is sent and
  however the loop ends (a signal, also in the middle of a batch, or a failing wait), afterwards no
  session and no pending close is left, exactly the descriptors open at the start are open, and
  none was closed twice; the library may iterate over the sessions in any order.\<close>

theorem run_releases_descriptors:
  assumes "booted l s0" and "\<And>xs. mset (hash_order (kern s0) xs) = mset xs"
  shows "set (open_fds (kern (run ts s0))) = set (open_fds (kern s0)) \<and> \<not> bad_close (kern (run ts s0)) \<and>
    sessions (run ts s0) = [] \<and> closed_fds (run ts s0) = []"
  using run_releases [OF booted_descriptors [OF assms(1)], of "hash_order (kern s0)"] assms(2)
  by (simp add: iterates_def)

theorem run_releases_descriptors_witness:
  "sessions (run [\<lparr>t_poll = PollEvents (\<lambda>fd. POLLIN), t_kq = KEvents [], t_now = 7, t_stop = None\<rparr>] demo_boot) = []"
proof -
  have "hash_order (kern demo_boot) = (\<lambda>fds. fds)" by (simp add: demo_defs)
  then have "mset (hash_order (kern demo_boot) xs) = mset xs" for xs by simp
  from run_releases_descriptors [OF demo_booted this] show ?thesis by blast
qed

end
