(* ===== verification/Server_Delivery.thy ===== *)
theory Server_Delivery
  imports Server_Registry "HOL-Library.Code_Target_Numeral"
begin

text \<open>
  What the clients are told and what they may do. \<open>delivered\<close> relates two states of the server by the
  bytes added to a client's stream in between, or by the reason the client was lost; it composes along the sends of \<open>publish\<close> and
  \<open>handle_order\<close>. The theory shows that an order is acknowledged before anything else, that every party and
  every subscriber gets exactly its notifications, and that a client that is not logged in
  cannot touch the book.
\<close>

section \<open>What reaches a client\<close>

text \<open>\<open>delivered fd m s t\<close>: between the two states \<open>fd\<close> was told \<open>m\<close>, which may depend on its subscriptions. It is the
  same client in \<open>t\<close> and its stream has grown by \<open>m\<close>, or it is gone for a reason; who was not there is not there now.\<close>

definition delivered :: "int \<Rightarrow> (string list \<Rightarrow> string) \<Rightarrow> Server \<Rightarrow> Server \<Rightarrow> bool" where
  "delivered fd m s t \<longleftrightarrow>
     suffix (send_script (kern t) fd) (send_script (kern s) fd) \<and>
     (case session s fd of
        None \<Rightarrow> session t fd = None \<and> wire (kern t) fd = wire (kern s) fd
      | Some ss \<Rightarrow>
          (case session t fd of
             None \<Rightarrow> lost fd (closing ss) ss (m (subscriptions ss)) (kern s) (kern t)
           | Some ss' \<Rightarrow> ident_of ss' = ident_of ss \<and> closing ss' = closing ss \<and>
               wire (kern t) fd @ pending ss' = wire (kern s) fd @ pending ss @ m (subscriptions ss)))"

lemma deliveredD:
  assumes "delivered fd m s t"
  shows "session t fd = Some ss' \<Longrightarrow> \<exists>ss. session s fd = Some ss \<and>
      wire (kern t) fd @ pending ss' = wire (kern s) fd @ pending ss @ m (subscriptions ss)"
    and "session s fd = Some ss \<Longrightarrow> session t fd = None \<Longrightarrow> lost fd (closing ss) ss (m (subscriptions ss)) (kern s) (kern t)"
  using assms by (auto simp: delivered_def split: option.splits)

lemma delivered_refl: "delivered fd (\<lambda>_. []) s s"
  by (simp add: delivered_def split: option.split)

text \<open>A reason stays one when more is said, and a reason found later is one from the start.\<close>

lemma lost_mono:
  assumes "lost fd l ss m k k'" and "suffix (send_script k'' fd) (send_script k' fd)" and "wire k'' fd = wire k' fd"
  shows "lost fd l ss (m @ m') k k''"
proof -
  obtain more where more: "send_script k' fd = more @ send_script k'' fd" using assms(2) by (auto simp: suffix_def)
  have "send_script k fd = (used @ more) @ send_script k'' fd" if "send_script k fd = used @ send_script k' fd" for used
    using that more by simp
  moreover have "\<not> list_all benign (used @ more)" if "\<not> list_all benign used" for used using that by simp
  ultimately show ?thesis using assms(1,3) unfolding lost_def by (auto simp: trans_less_add1)
qed

lemma lost_trans:
  assumes "suffix (send_script k' fd) (send_script k fd)" and "wire k' fd @ pending ss' = wire k fd @ pending ss @ m"
    and "lost fd l ss' m' k' k''"
  shows "lost fd l ss (m @ m') k k''"
proof -
  obtain before where "send_script k fd = before @ send_script k' fd" using assms(1) by (auto simp: suffix_def)
  then have "send_script k fd = (before @ used) @ send_script k'' fd" if "send_script k' fd = used @ send_script k'' fd" for used
    using that by simp
  moreover have "\<not> list_all benign (before @ used)" if "\<not> list_all benign used" for used using that by simp
  moreover have "length (wire k fd @ pending ss @ m @ m') = length (wire k' fd @ pending ss' @ m')"
    using arg_cong [OF assms(2), of length] by simp
  moreover have "prefix (wire k fd @ pending ss) w" if "prefix (wire k' fd @ pending ss') w" for w
    using that unfolding assms(2) by (auto simp: prefix_def)
  ultimately show ?thesis using assms(3) unfolding lost_def by metis
qed

lemma delivered_trans:
  assumes "delivered fd m s t" and "delivered fd m' t u"
  shows "delivered fd (\<lambda>subs. m subs @ m' subs) s u"
proof -
  have suf: "suffix (send_script (kern u) fd) (send_script (kern s) fd)"
    using assms suffix_order.trans unfolding delivered_def by blast
  show ?thesis
  proof (cases "session s fd")
    case None
    with assms suf show ?thesis by (simp add: delivered_def)
  next
    case s: (Some ss)
    show ?thesis
    proof (cases "session t fd")
      case None
      with s assms suf show ?thesis by (auto simp: delivered_def intro: lost_mono)
    next
      case t: (Some ss')
      then have same: "subscriptions ss' = subscriptions ss" "closing ss' = closing ss"
        using s assms(1) by (auto simp: delivered_def dest: arg_cong [where f = id_subs])
      show ?thesis
      proof (cases "session u fd")
        case None
        with s t same assms have "lost fd (closing ss) ss (m (subscriptions ss) @ m' (subscriptions ss)) (kern s) (kern u)"
          by (intro lost_trans [where ss' = ss' and k' = "kern t"]) (auto simp: delivered_def)
        with s None suf show ?thesis by (simp add: delivered_def)
      next
        case (Some ss'')
        have "wire (kern u) fd @ pending ss'' = (wire (kern t) fd @ pending ss') @ m' (subscriptions ss)"
          using t Some same assms(2) by (simp add: delivered_def)
        with s t Some same assms suf show ?thesis by (simp add: delivered_def)
      qed
    qed
  qed
qed

lemma delivered_cong: "delivered fd m s t \<Longrightarrow> (\<And>subs. m subs = m' subs) \<Longrightarrow> delivered fd m' s t"
  by (drule ext) simp

lemma delivered_kern:
  "sessions t = sessions s \<Longrightarrow> kern t = kern s \<Longrightarrow> delivered fd (\<lambda>_. []) s t"
  by (simp add: delivered_def split: option.split)

lemma send_to_delivered:
  assumes "sessions_inv s"
  shows "delivered fd (\<lambda>_. if fd = to then m else []) s (send_to to m s)"
proof (cases rule: send_to_cases [of s to m])
  case absent
  then show ?thesis by (auto simp: delivered_def split: option.split)
next
  case (kept ss ss' k c l w)
  have fd: "s_fd ss = to" "out_start ss \<le> length (outbuf ss)"
    using sessions_invD [OF assms kept(1)] by (simp_all add: session_ok_def settled_output_def)
  have "closing ss' = closing ss" using kept(3) by (simp add: same_client_def)
  then show ?thesis
    using kept(1,2) kept(7,8) fd same_client_ident [OF kept(3)] only_output_frame(8,9) [OF kept(5)]
    by (auto simp: delivered_def split: option.split)
next
  case (gone ss reason ss' k c w)
  have fd: "s_fd ss = to" "out_start ss \<le> length (outbuf ss)"
    using sessions_invD [OF assms gone(1)] by (simp_all add: session_ok_def settled_output_def)
  have s1: "session (put_session to ss' (s\<lparr>kern := k, console := c\<rparr>)) to = Some ss'" by simp
  have "sessions (send_to to m s) = AList.delete to (sessions s)" "kern (send_to to m s) = k"
    using drop_fd_fields(4,7) [OF s1, of reason] by (simp_all add: gone(2) fd)
  then show ?thesis
    using gone(1) gone(6,7) only_output_frame(8,9) [OF gone(4)] fd by (auto simp: delivered_def split: option.split)
qed

lemma fold_send_delivered:
  assumes "sessions_inv s" and "distinct fds"
  shows "delivered fd (\<lambda>_. if fd \<in> set fds then m else []) s (fold (\<lambda>to. send_to to m) fds s)"
  using assms
proof (induction fds arbitrary: s)
  case (Cons to fds)
  have "delivered fd (\<lambda>_. if fd \<in> set fds then m else []) (send_to to m s) (fold (\<lambda>to. send_to to m) fds (send_to to m s))"
    using Cons sessions_inv_send by simp
  from delivered_trans [OF send_to_delivered [OF Cons.prems(1), of fd to m] this]
  show ?case using Cons.prems(2) by (auto elim!: delivered_cong)
qed (simp add: delivered_refl)

section \<open>Publishing executions\<close>

text \<open>The notifications of one execution that are meant for \<open>fd\<close>, in the order they are sent.\<close>

definition notices :: "int \<Rightarrow> TradeExecution \<Rightarrow> string list \<Rightarrow> string" where
  "notices fd x subs =
     (if fd = x_buyer_fd x then bought (x_instrument x) (x_quantity x) (x_price x) else []) @
     (if fd = x_seller_fd x then sold (x_instrument x) (x_quantity x) (x_price x) else []) @
     (if x_instrument x \<in> set subs then trade (x_instrument x) (x_quantity x) (x_price x) else [])"

lemma registry_send: "registry_inv base s \<Longrightarrow> registry_inv base (send_to fd m s)"
  by (simp add: registry_inv_iff descriptors_inv_send registries_ok_send)

lemma registry_sessions: "registry_inv base s \<Longrightarrow> sessions_inv s"
  by (simp add: registry_inv_def descriptors_inv_def)

lemma hash_send: "hash_order (kern (send_to fd m s)) = hash_order (kern s)"
  using untouched_send [of s fd m] by (simp add: untouched_def fixed_part_def)

lemma publish_delivered:
  assumes inv: "registry_inv base s" and hash: "\<And>xs. mset (hash_order (kern s) xs) = mset xs"
  shows "delivered fd (notices fd x) s (publish x s)"
proof -
  define s1 where "s1 = send_to (x_buyer_fd x) (bought (x_instrument x) (x_quantity x) (x_price x)) s"
  define s2 where "s2 = send_to (x_seller_fd x) (sold (x_instrument x) (x_quantity x) (x_price x)) s1"
  define u where "u = trade (x_instrument x) (x_quantity x) (x_price x)"
  define targets where "targets = (case subscribers s2 (x_instrument x) of None \<Rightarrow> [] | Some fds \<Rightarrow> hash_order (kern s2) fds)"
  have inv1: "registry_inv base s1" and inv2: "registry_inv base s2"
    using inv by (simp_all add: s1_def s2_def registry_send)
  have pub: "publish x s = fold (\<lambda>to. send_to to u) targets s2"
    by (simp add: publish_def Let_def s1_def s2_def u_def targets_def split: option.split)
  have mset: "mset targets = mset (subscribed (x_instrument x) (subscribers s2))"
    using hash by (simp add: targets_def subscribed_def s2_def s1_def hash_send split: option.split)
  have reg: "subs_ok (idents s2) (subscribers s2)" using inv2 by (simp add: registry_inv_def reg_ok_def)
  have dist: "distinct targets" using mset_eq_imp_distinct_iff [OF mset] reg by (simp add: subs_ok_def)
  have sub: "fd \<in> set targets \<longleftrightarrow> x_instrument x \<in> set (subscriptions ss)" if "session s2 fd = Some ss" for ss
    using mset_eq_setD [OF mset] reg that by (auto simp: subs_ok_def idents_def)
  have "delivered fd (\<lambda>_. if fd \<in> set targets then u else []) s2 (publish x s)"
    unfolding pub using fold_send_delivered [OF registry_sessions [OF inv2] dist] .
  then have last: "delivered fd (\<lambda>subs. if x_instrument x \<in> set subs then u else []) s2 (publish x s)"
    using sub by (cases "session s2 fd") (auto simp: delivered_def)
  have "delivered fd (\<lambda>_. if fd = x_buyer_fd x then bought (x_instrument x) (x_quantity x) (x_price x) else []) s s1"
    unfolding s1_def by (rule send_to_delivered [OF registry_sessions [OF inv]])
  moreover have "delivered fd (\<lambda>_. if fd = x_seller_fd x then sold (x_instrument x) (x_quantity x) (x_price x) else []) s1 s2"
    unfolding s2_def by (rule send_to_delivered [OF registry_sessions [OF inv1]])
  ultimately show ?thesis
    using delivered_trans [OF _ delivered_trans [OF _ last]] unfolding notices_def u_def by blast
qed

lemma publish_inv:
  assumes "registry_inv base s" and "LF \<notin> set (x_instrument x)"
  shows "registry_inv base (publish x s)"
  using rg.eff.R_publish [OF assms(2), of base s] assms(1) by blast

lemma publish_hash: "hash_order (kern (publish x s)) = hash_order (kern s)"
proof -
  have "hash_order (kern (fold (\<lambda>to. send_to to u) fds s)) = hash_order (kern s)" for u fds s
    by (induction fds arbitrary: s) (simp_all add: hash_send)
  then show ?thesis by (simp add: publish_def Let_def hash_send split: option.split)
qed

text \<open>All executions are published to everybody if the submitter stays; otherwise those up to some point.\<close>

lemma publish_all_delivered:
  assumes "registry_inv base s" and "\<And>xs. mset (hash_order (kern s) xs) = mset xs"
    and "\<forall>x \<in> set xs. LF \<notin> set (x_instrument x)"
  shows "\<exists>n \<le> length xs. (session (publish_all fd xs s) fd \<noteq> None \<longrightarrow> n = length xs) \<and>
    (\<forall>to. delivered to (\<lambda>subs. concat (map (\<lambda>x. notices to x subs) (take n xs))) s (publish_all fd xs s))"
  using assms
proof (induction xs arbitrary: s)
  case (Cons x xs)
  define s1 where "s1 = publish x s"
  have 1: "delivered to (notices to x) s s1" for to
    unfolding s1_def by (rule publish_delivered [OF Cons.prems(1,2)])
  have inv: "registry_inv base s1" using Cons.prems publish_inv by (simp add: s1_def)
  have hash: "mset (hash_order (kern s1) ys) = mset ys" for ys using Cons.prems(2) by (simp add: s1_def publish_hash)
  show ?case
  proof (cases "session s1 fd = None")
    case True
    then have "publish_all fd (x # xs) s = s1" by (simp add: s1_def Let_def)
    with 1 True show ?thesis by (intro exI [of _ 1]) auto
  next
    case False
    then have eq: "publish_all fd (x # xs) s = publish_all fd xs s1" by (auto simp: s1_def Let_def)
    obtain n where n: "n \<le> length xs" "session (publish_all fd xs s1) fd \<noteq> None \<longrightarrow> n = length xs"
        "\<forall>to. delivered to (\<lambda>subs. concat (map (\<lambda>x. notices to x subs) (take n xs))) s1 (publish_all fd xs s1)"
      using Cons.IH [OF inv hash] Cons.prems(3) by auto
    have "delivered to (\<lambda>subs. concat (map (\<lambda>x. notices to x subs) (take (Suc n) (x # xs)))) s (publish_all fd xs s1)" for to
      using delivered_trans [OF 1 n(3) [rule_format, of to]] by simp
    with n eq show ?thesis by (intro exI [of _ "Suc n"]) auto
  qed
qed (simp add: delivered_refl)

text \<open>An order: its submitter is told first, then the executions are published, all of them if the submitter stays.\<close>

lemma order_delivered:
  assumes inv: "registry_inv base s" and hash: "\<And>xs. mset (hash_order (kern s) xs) = mset xs"
    and ss: "session s fd = Some ss" "logged_in ss"
    and cmd: "is_valid_instrument (cmd_instrument cmd)" "order_terms (cmd_quantity cmd) (cmd_price cmd)"
    and add: "add_order fd (cmd_instrument cmd) (if cmd_type cmd = BUY then Side_BUY else Side_SELL)
        (cmd_quantity cmd) (cmd_price cmd) [] (book s) = (oid, ex, b)"
  shows "\<exists>n \<le> length ex. (session (handle_order fd cmd s) fd \<noteq> None \<longrightarrow> n = length ex) \<and>
    (\<forall>to. delivered to (\<lambda>subs. (if to = fd then order_accepted oid else []) @
       concat (map (\<lambda>x. notices to x subs) (take n ex))) s (handle_order fd cmd s))"
proof -
  define s1 where "s1 = s\<lparr>book := b\<rparr>"
  define s2 where "s2 = send_to fd (order_accepted oid) s1"
  have "role ss \<noteq> ROLE_MARKET_DATA"
    using inv ss by (fastforce simp: registry_inv_def reg_ok_def idents_def ident_ok_def)
  then have t: "handle_order fd cmd s = publish_all fd ex s2"
    using ss add
    by (cases "role ss")
      (simp_all add: handle_order_def require_logged_in_trader_def reject_wrong_role_def session_at_def Let_def s1_def s2_def)
  have inv1: "registry_inv base s1"
    using rg.P_order [OF inv ss cmd, of "if cmd_type cmd = BUY then Side_BUY else Side_SELL"] add
    by (simp add: s1_def)
  have "x_instrument x = cmd_instrument cmd" if "x \<in> set ex" for x
    by (rule add_order_instrument [of x fd _ "if cmd_type cmd = BUY then Side_BUY else Side_SELL" "cmd_quantity cmd" "cmd_price cmd" "book s"])
      (use that add in simp)
  then have lf: "\<forall>x \<in> set ex. LF \<notin> set (x_instrument x)"
    using is_word_LF [OF is_word_instrument [OF cmd(1)]] by simp
  have "mset (hash_order (kern s2) xs) = mset xs" for xs using hash by (simp add: s2_def hash_send s1_def)
  from publish_all_delivered [OF registry_send [OF inv1, of fd "order_accepted oid", folded s2_def] this lf, of fd]
  obtain n where n: "n \<le> length ex" "session (publish_all fd ex s2) fd \<noteq> None \<longrightarrow> n = length ex"
      "\<And>to. delivered to (\<lambda>subs. concat (map (\<lambda>x. notices to x subs) (take n ex))) s2 (publish_all fd ex s2)"
    by blast
  have "delivered to (\<lambda>_. []) s s1" for to by (rule delivered_kern) (simp_all add: s1_def)
  moreover have "delivered to (\<lambda>_. if to = fd then order_accepted oid else []) s1 s2" for to
    unfolding s2_def by (rule send_to_delivered [OF registry_sessions [OF inv1]])
  ultimately have "delivered to (\<lambda>subs. [] @ (if to = fd then order_accepted oid else []) @
      concat (map (\<lambda>x. notices to x subs) (take n ex))) s (publish_all fd ex s2)" for to
    using n(3) by (intro delivered_trans)
  with n(1,2) show ?thesis unfolding t append_Nil by blast
qed

section \<open>Sending and the book\<close>

lemma send_to_book:
  assumes "sessions_inv s"
  shows "book (send_to fd m s) = book s \<or> book (send_to fd m s) = remove_orders_of fd (book s)"
proof (cases rule: send_to_cases [of s fd m])
  case (gone ss reason ss' k c w)
  have fd: "s_fd ss = fd" using sessions_invD [OF assms gone(1)] by (simp add: session_ok_def)
  have s1: "session (put_session fd ss' (s\<lparr>kern := k, console := c\<rparr>)) fd = Some ss'" by simp
  show ?thesis using drop_fd_fields(3) [OF s1, of reason] by (simp add: gone(2) fd)
qed simp_all

lemma begin_orderly_close_book:
  "book (begin_orderly_close fd r s) = book s \<or> book (begin_orderly_close fd r s) = remove_orders_of fd (book s)"
proof (cases rule: begin_orderly_close_cases [of s fd r])
  case (drained ss)
  have s1: "session (put_session fd (ss\<lparr>closing := True, inbuf := []\<rparr>) s) fd = Some (ss\<lparr>closing := True, inbuf := []\<rparr>)" by simp
  show ?thesis using drop_fd_fields(3) [OF s1, of r] by (simp add: drained(3))
qed simp_all

text \<open>Without a login a message leaves the book alone, or its sender is dropped.\<close>

lemma stranger_book:
  assumes inv: "registry_inv base s" and ss: "session s fd = Some ss" and out: "\<not> logged_in ss"
  shows "book (handle_message fd line s) \<in> {book s, remove_orders_of fd (book s)}"
proof (cases "cmd_valid (parse line)")
  case False
  then show ?thesis using send_to_book [OF registry_sessions [OF inv]] by (simp add: handle_message_def)
next
  case True
  let ?cmd = "parse line"
  have send: "book (send_to fd m t) \<in> {book s, remove_orders_of fd (book s)}" if "sessions_inv t" "book t = book s" for m t
    using send_to_book [OF that(1), of fd m] that(2) by auto
  note si = registry_sessions [OF inv]
  have trade: "book (snd (require_logged_in_trader fd ty s)) \<in> {book s, remove_orders_of fd (book s)} \<and>
      \<not> fst (require_logged_in_trader fd ty s)" for ty
    using out ss send [OF si]
    by (auto simp: require_logged_in_trader_def reject_wrong_role_def session_at_def Let_def)
  have login: "book (handle_login fd ?cmd s) \<in> {book s, remove_orders_of fd (book s)}" if "cmd_type ?cmd = LOGIN"
  proof -
    have "sessions_inv (say line' (register_login fd ss user s))" if "role ss \<noteq> ROLE_MARKET_DATA" "user \<notin> set (usernames s)" "user_name user"
      for line' user
      using si.P_say si.P_login [OF si ss] that out by blast
    moreover have "book (say line' (register_login fd ss user s)) = book s" for line' user by (simp add: say_def register_login_def)
    ultimately show ?thesis
      using valid_login [OF True that] out ss send [OF si] send
      by (cases "role ss") (auto simp: handle_login_def reject_wrong_role_def session_at_def Let_def)
  qed
  have sub: "book (handle_subscription fd ?cmd s) \<in> {book s, remove_orders_of fd (book s)}"
    if "cmd_type ?cmd = SUBSCRIBE \<or> cmd_type ?cmd = UNSUBSCRIBE"
  proof -
    let ?i = "cmd_instrument ?cmd"
    have i: "is_valid_instrument ?i" using valid_subscription [OF True] that by blast
    have member: "sessions_inv (add_subscription fd ss' ?i t) \<and> sessions_inv (remove_subscription fd ss' ?i t) \<and>
        book (add_subscription fd ss' ?i t) = book t \<and> book (remove_subscription fd ss' ?i t) = book t"
      if "sessions_inv t" "session t fd = Some ss'" "role ss' = ROLE_MARKET_DATA" for t ss'
      using si.P_subscribe [OF that i] si.P_unsubscribe [OF that] by (simp add: add_subscription_def remove_subscription_def)
    let ?md = "ss\<lparr>role := ROLE_MARKET_DATA\<rparr>"
    have new: "sessions_inv (say line' (put_session fd ?md s)) \<and> book (say line' (put_session fd ?md s)) = book s \<and>
        session (say line' (put_session fd ?md s)) fd = Some ?md" if "role ss = ROLE_UNKNOWN" for line'
      using si.P_say [OF si.P_role [OF si ss that]] by (simp add: say_def)
    show ?thesis
    proof (cases "role ss")
      case ROLE_UNKNOWN
      then show ?thesis using ss new member send [OF si] send
        by (simp add: handle_subscription_def reject_wrong_role_def session_at_def Let_def)
    next
      case ROLE_TRADER
      then show ?thesis using ss send [OF si]
        by (simp add: handle_subscription_def reject_wrong_role_def session_at_def Let_def)
    next
      case ROLE_MARKET_DATA
      then show ?thesis using ss member [OF si ss] send [OF si] send
        by (simp add: handle_subscription_def reject_wrong_role_def session_at_def Let_def)
    qed
  qed
  show ?thesis
    using True valid_type [OF True] trade [of "cmd_type ?cmd"] login sub begin_orderly_close_book [of fd _ s]
    by (cases "cmd_type ?cmd")
      (auto simp: handle_message_def handle_order_def handle_cancel_def Let_def case_prod_unfold)
qed


section \<open>A sample\<close>

text \<open>Two traders and a market-data client that follows \<^verbatim>\<open>JNST\<close>; one of the traders has offered 10 at 100.\<close>

definition demo_floor :: Server where
  "demo_floor =
     (new_exchange ''localhost'' 5000 (new_loop False (-1) Poll []) False 0
        (quiet_kernel\<lparr>open_fds := [6, 5, 4, 3, 2, 1, 0], fd_flags := (\<lambda>_. O_NONBLOCK),
           send_script := (\<lambda>_. replicate 3 (Written 100))\<rparr>))
     \<lparr>listener := (new_server ''localhost'' 5000)\<lparr>ts_fd := 3\<rparr>,
      sessions := [(4, (new_session 4)\<lparr>role := ROLE_TRADER, username := ''ann'', logged_in := True\<rparr>),
                   (5, (new_session 5)\<lparr>role := ROLE_TRADER, username := ''bob'', logged_in := True\<rparr>),
                   (6, (new_session 6)\<lparr>role := ROLE_MARKET_DATA, subscriptions := [''JNST'']\<rparr>)],
      subscribers := [''JNST'' \<mapsto> [6]], usernames := [''bob'', ''ann'']\<rparr>"

lemma empty_book_rest: "resting empty_book = {}"
proof -
  have "queue_of key empty_book = []" for key
    by (cases key; cases "q_side key") (auto simp: empty_book_def)
  then show ?thesis by (auto simp: resting_def)
qed

lemma demo_floor_inv: "registry_inv {0, 1, 2, 3} demo_floor"
proof -
  have sess: "sessions_inv demo_floor"
    by (simp add: demo_floor_def new_exchange_def sessions_inv_def session_ok_def settled_output_def new_session_def has_pending_output_def pending_bytes_def kMaxOutputBytes_def kReadChunk_def)
  have fds: "descriptors_inv {0, 1, 2, 3} demo_floor"
    using sess by (auto simp: descriptors_inv_def fd_ok_def clients_of_def demo_floor_def new_exchange_def new_server_def quiet_kernel_def O_NONBLOCK_def)
  have reg: "reg_ok (idents demo_floor) (subscribers demo_floor) (usernames demo_floor) (book demo_floor)"
  proof -
    have v: "idents demo_floor = (\<lambda>_. None)
        (4 \<mapsto> \<lparr>id_role = ROLE_TRADER, id_user = ''ann'', id_in = True, id_subs = []\<rparr>,
         5 \<mapsto> \<lparr>id_role = ROLE_TRADER, id_user = ''bob'', id_in = True, id_subs = []\<rparr>,
         6 \<mapsto> \<lparr>id_role = ROLE_MARKET_DATA, id_user = [], id_in = False, id_subs = [''JNST'']\<rparr>)"
      by (simp add: fun_eq_iff idents_def demo_floor_def new_exchange_def ident_of_def new_session_def)
    have "names (idents demo_floor) = [4 \<mapsto> ''ann'', 5 \<mapsto> ''bob'']"
      unfolding v by (simp add: fun_eq_iff names_def)
    then have "users_ok (names (idents demo_floor)) (usernames demo_floor)"
      by (auto simp: users_ok_def demo_floor_def new_exchange_def inj_on_def)
    moreover have "subs_ok (idents demo_floor) (subscribers demo_floor)"
      unfolding v by (auto simp: subs_ok_def demo_floor_def new_exchange_def subscribed_def)
    moreover have "orders_ok (idents demo_floor) (book demo_floor)"
      by (simp add: orders_ok_def demo_floor_def new_exchange_def empty_book_rest)
    moreover have "user_name ''ann''" "user_name ''bob''" "is_valid_instrument ''JNST''" by code_simp+
    then have "\<forall>fd c. idents demo_floor fd = Some c \<longrightarrow> ident_ok c"
      unfolding v by (simp add: ident_ok_def)
    ultimately show ?thesis by (simp add: reg_ok_def)
  qed
  show ?thesis using fds reg by (simp add: registry_inv_def)
qed

definition demo_market :: Server where
  "demo_market = demo_floor\<lparr>book := snd (snd (add_order 4 ''JNST'' Side_SELL 10 100 [] (book demo_floor)))\<rparr>"

lemma demo_market_inv: "registry_inv {0, 1, 2, 3} demo_market"
proof -
  have "session demo_floor 4 = Some ((new_session 4)\<lparr>role := ROLE_TRADER, username := ''ann'', logged_in := True\<rparr>)"
    by (simp add: demo_floor_def new_exchange_def)
  from rg.P_order [OF demo_floor_inv this, of "''JNST''" 10 100 Side_SELL] show ?thesis
    unfolding demo_market_def by (simp add: is_valid_instrument_def kInstruments_def order_terms_def)
qed

text \<open>The same floor with two offers of one, made by one trader, while the other trader's connection is broken.\<close>

definition demo_race :: Server where
  "demo_race = demo_floor
     \<lparr>kern := (kern demo_floor)\<lparr>send_script := (send_script (kern demo_floor))(5 := [SendError EPIPE])\<rparr>,
      book := snd (snd (add_order 4 ''JNST'' Side_SELL 1 100 [] (snd (snd (add_order 4 ''JNST'' Side_SELL 1 100 [] empty_book)))))\<rparr>"

lemma demo_race_inv: "registry_inv {0, 1, 2, 3} demo_race"
proof -
  let ?s = "demo_floor\<lparr>kern := (kern demo_floor)\<lparr>send_script := (send_script (kern demo_floor))(5 := [SendError EPIPE])\<rparr>\<rparr>"
  let ?ann = "(new_session 4)\<lparr>role := ROLE_TRADER, username := ''ann'', logged_in := True\<rparr>"
  have idents: "idents ?s = idents demo_floor" by (simp add: fun_eq_iff idents_def)
  have s: "registry_inv {0, 1, 2, 3} ?s"
    using demo_floor_inv idents by (simp add: registry_inv_def descriptors_inv_def fd_ok_def sessions_inv_def clients_of_def)
  have ann: "session ?s 4 = Some ?ann" by (simp add: demo_floor_def new_exchange_def)
  have i: "is_valid_instrument ''JNST''" by (simp add: is_valid_instrument_def kInstruments_def)
  have "registry_inv {0, 1, 2, 3} (?s\<lparr>book := snd (snd (add_order 4 ''JNST'' Side_SELL 1 100 [] (book ?s)))\<rparr>)"
    by (rule rg.P_order [OF s ann _ i]) (simp_all add: order_terms_def)
  from rg.P_order [OF this _ _ i, of 4 ?ann 1 100 Side_SELL] ann show ?thesis
    by (simp add: demo_race_def demo_floor_def new_exchange_def order_terms_def)
qed

section \<open>Properties\<close>

text \<open>Every party to a trade is told, in order, and nobody else. When a logged-in trader's order is
  accepted and the trader stays connected, the stream of every client \<^verbatim>\<open>to\<close> that is still connected afterwards
  has grown by exactly: the acknowledgement with the order id if \<^verbatim>\<open>to\<close> is the submitter, and then for
  each execution in the order the book made them a \<^verbatim>\<open>BOUGHT\<close> if \<^verbatim>\<open>to\<close> is the buyer, a \<^verbatim>\<open>SOLD\<close> if it is the
  seller, and a \<^verbatim>\<open>TRADE\<close> if it subscribes to the instrument. This holds for every order in
  which the library iterates over the subscribers.\<close>

theorem order_notifications:
  assumes inv: "registry_inv base s" and hash: "\<And>xs. mset (hash_order (kern s) xs) = mset xs"
    and ss: "session s fd = Some ss" "logged_in ss"
    and cmd: "is_valid_instrument (cmd_instrument cmd)" "order_terms (cmd_quantity cmd) (cmd_price cmd)"
    and add: "add_order fd (cmd_instrument cmd) (if cmd_type cmd = BUY then Side_BUY else Side_SELL)
        (cmd_quantity cmd) (cmd_price cmd) [] (book s) = (oid, ex, b)"
    and stays: "session (handle_order fd cmd s) fd \<noteq> None"
    and to: "session (handle_order fd cmd s) to = Some ss'"
  shows "\<exists>ss0. session s to = Some ss0 \<and>
    wire (kern (handle_order fd cmd s)) to @ pending ss' =
      wire (kern s) to @ pending ss0 @ (if to = fd then order_accepted oid else []) @
      concat (map (\<lambda>x. notices to x (subscriptions ss0)) ex)"
proof -
  obtain n where "session (handle_order fd cmd s) fd \<noteq> None \<longrightarrow> n = length ex"
      "delivered to (\<lambda>subs. (if to = fd then order_accepted oid else []) @ concat (map (\<lambda>x. notices to x subs) (take n ex))) s (handle_order fd cmd s)"
    using order_delivered [OF inv hash ss cmd add] by blast
  with deliveredD(1) [OF this(2) to] stays show ?thesis by auto
qed

theorem order_notifications_witness:
  "\<exists>ss. session (handle_order 5 (parse ''BUY JNST 4 100'') demo_market) 6 = Some ss \<and>
     wire (kern (handle_order 5 (parse ''BUY JNST 4 100'') demo_market)) 6 @ pending ss = trade ''JNST'' 4 100"
proof -
  let ?cmd = "parse ''BUY JNST 4 100''" and ?x = "\<lparr>x_buyer_fd = 5, x_seller_fd = 4, x_instrument = ''JNST'', x_quantity = 4, x_price = 100\<rparr>"
  have cmd: "is_valid_instrument (cmd_instrument ?cmd)" "order_terms (cmd_quantity ?cmd) (cmd_price ?cmd)" by code_simp+
  have add: "map_prod id fst (add_order 5 (cmd_instrument ?cmd) (if cmd_type ?cmd = BUY then Side_BUY else Side_SELL)
      (cmd_quantity ?cmd) (cmd_price ?cmd) [] (book demo_market)) = (2, [?x])" by code_simp
  obtain b where b: "add_order 5 (cmd_instrument ?cmd) (if cmd_type ?cmd = BUY then Side_BUY else Side_SELL)
      (cmd_quantity ?cmd) (cmd_price ?cmd) [] (book demo_market) = (2, [?x], b)"
    using add by (auto simp: map_prod_def case_prod_unfold prod_eq_iff)
  have bob: "session demo_market 5 = Some ((new_session 5)\<lparr>role := ROLE_TRADER, username := ''bob'', logged_in := True\<rparr>)"
    by (simp add: demo_market_def demo_floor_def new_exchange_def)
  have "map fst (sessions (handle_order 5 ?cmd demo_market)) = [4, 5, 6]" by code_simp
  then have "set (map fst (sessions (handle_order 5 ?cmd demo_market))) = {4, 5, 6}" by simp
  then have stays: "session (handle_order 5 ?cmd demo_market) 5 \<noteq> None" "session (handle_order 5 ?cmd demo_market) 6 \<noteq> None"
    by (simp_all add: map_of_eq_None_iff)
  then obtain ss where ss: "session (handle_order 5 ?cmd demo_market) 6 = Some ss" by auto
  have "mset (hash_order (kern demo_market) xs) = mset xs" for xs
    by (simp add: demo_market_def demo_floor_def new_exchange_def quiet_kernel_def)
  from order_notifications [OF demo_market_inv this bob _ cmd b stays(1) ss] ss show ?thesis
    by (auto simp: notices_def demo_market_def demo_floor_def new_exchange_def quiet_kernel_def new_session_def pending_def)
qed

text \<open>C21: only logged-in traders touch the book. Whatever line a client that is not logged in sends,
  the resting orders afterwards are those before.\<close>

theorem only_traders_trade:
  assumes "registry_inv base s" and "session s fd = Some ss" and "\<not> logged_in ss"
  shows "resting (book (handle_message fd line s)) = resting (book s)"
proof -
  have ok: "orders_ok (idents s) (book s)" using assms(1) by (simp add: registry_inv_def reg_ok_def)
  then have "o_owner_fd r \<noteq> fd" if "r \<in> resting (book s)" for r
    using assms(2,3) that by (auto simp: orders_ok_def idents_def)
  then have "resting (remove_orders_of fd (book s)) = resting (book s)"
    using ob.rest_purge [of "book s" fd] ok unfolding orders_ok_def by blast
  then show ?thesis using stranger_book [OF assms, of line] by (metis insert_iff singletonD)
qed

theorem only_traders_trade_witness:
  "resting (book (handle_message 6 ''CANCEL 1'' demo_market)) = resting (book demo_market)"
proof -
  have "session demo_market 6 = Some ((new_session 6)\<lparr>role := ROLE_MARKET_DATA, subscriptions := [''JNST'']\<rparr>)"
    by (simp add: demo_market_def demo_floor_def new_exchange_def)
  from only_traders_trade [OF demo_market_inv this] show ?thesis by (simp add: new_session_def)
qed

text \<open>C25: a fill can go unreported. In a consistent state a bid matches two offers of one connected client; the bidder's
  connection turns out to be broken when the order is acknowledged, the loop over the executions stops after the
  first one, and the seller, whose offers are both filled, is told of one sale only.\<close>

theorem dropped_submitter_unreported_fill:
  "\<exists>base s fd line to ex b. registry_inv base s \<and>
     add_order fd (cmd_instrument (parse line)) Side_BUY (cmd_quantity (parse line)) (cmd_price (parse line)) [] (book s) = (3, ex, b) \<and>
     map x_seller_fd ex = [to, to] \<and>
     wire (kern (handle_message fd line s)) to = sold ''JNST'' 1 100 \<and>
     map_option pending (session (handle_message fd line s) to) = Some []"
proof -
  let ?cmd = "parse ''BUY JNST 2 100''" 
  let ?x = "\<lparr>x_buyer_fd = 5, x_seller_fd = 4, x_instrument = ''JNST'', x_quantity = 1, x_price = 100\<rparr>"
  have "map_prod id fst (add_order 5 (cmd_instrument ?cmd) Side_BUY (cmd_quantity ?cmd) (cmd_price ?cmd) [] (book demo_race)) = (3, [?x, ?x])"
    by code_simp
  then obtain b where b: "add_order 5 (cmd_instrument ?cmd) Side_BUY (cmd_quantity ?cmd) (cmd_price ?cmd) [] (book demo_race) = (3, [?x, ?x], b)"
    by (auto simp: map_prod_def case_prod_unfold prod_eq_iff)
  have "(\<lambda>t. (wire (kern t) 4, map_option pending (session t 4))) (handle_message 5 ''BUY JNST 2 100'' demo_race) = (sold ''JNST'' 1 100, Some [])"
    by code_simp
  with b demo_race_inv show ?thesis
    by (intro exI [of _ "{0, 1, 2, 3}"] exI [of _ demo_race] exI [of _ 5] exI [of _ "''BUY JNST 2 100''"] exI [of _ 4]
       exI [of _ "[?x, ?x]"] exI [of _ b]) simp
qed
end
