(* ===== verification/Server_Lifecycle.thy ===== *)
theory Server_Lifecycle
  imports Server_Properties Server_Delivery
begin

text \<open>
  The life of a connection: a client's role and name are settled once and for all, a dropped client leaves
  no trace in any registry while its descriptor stays reserved until the batch ends, a shortage of
  descriptors suspends accepting for a while and no longer, and an aborted handshake makes the others wait.
\<close>

text \<open>A relation that holds across reading, writing and dropping holds across an event of a client.\<close>

context input_effects
begin

lemma R_client_event:
  assumes "ev_fd ev \<noteq> ts_fd (listener s)"
  shows "R s (handle_event ev s)"
proof -
  define w where "w = (if ev_writable ev then on_writable (ev_fd ev) s else s)"
  define r where "r = (if ev_readable ev then on_readable (ev_fd ev) w else w)"
  have w: "R s w" by (simp add: w_def R_writable R_refl)
  have "R w r" by (simp add: r_def R_on_readable R_refl)
  with w have r: "R s r" by (rule R_trans)
  then have "R s (drop_fd (ev_fd ev) m r)" for m by (rule R_trans) (rule R_drop)
  with w r assms show ?thesis
    unfolding handle_event_def Let_def w_def [symmetric] r_def [symmetric] by (simp add: R_refl)
qed

end

section \<open>Roles and names are settled once\<close>

definition steady :: "ClientSession \<Rightarrow> ClientSession \<Rightarrow> bool" where
  "steady ss ss' \<longleftrightarrow> (role ss \<noteq> ROLE_UNKNOWN \<longrightarrow> role ss' = role ss) \<and>
     (logged_in ss \<longrightarrow> logged_in ss' \<and> username ss' = username ss) \<and> peer ss' = peer ss \<and> (closing ss \<longrightarrow> closing ss')"

definition settled :: "Server \<Rightarrow> Server \<Rightarrow> bool" where
  "settled s t \<longleftrightarrow>
     (\<forall>fd ss'. session t fd = Some ss' \<longrightarrow> (\<exists>ss. session s fd = Some ss \<and> steady ss ss'))"

lemma steady_refl [simp]: "steady ss ss"
  by (simp add: steady_def)

lemma steady_trans: "steady a b \<Longrightarrow> steady b c \<Longrightarrow> steady a c"
  by (auto simp: steady_def)

lemma settled_refl: "settled s s"
  by (auto simp: settled_def)

lemma settled_same: "sessions t = sessions s \<Longrightarrow> settled s t"
  by (auto simp: settled_def)

lemma settled_trans: "settled s t \<Longrightarrow> settled t u \<Longrightarrow> settled s u"
  unfolding settled_def by (metis steady_trans)

lemma settled_put:
  "session s fd = Some ss \<Longrightarrow> steady ss ss' \<Longrightarrow> sessions t = AList.update fd ss' (sessions s) \<Longrightarrow> settled s t"
  by (auto simp: settled_def)

lemma settled_drop: "settled s (drop_fd fd reason s)"
  by (auto simp: settled_def drop_fd_sessions map_of_delete)

lemma settled_send: "settled s (send_to fd m s)"
proof (cases rule: send_to_cases [of s fd m])
  case (kept ss ss' k c l w)
  then show ?thesis by (intro settled_put [OF kept(1), of ss']) (simp_all add: steady_def same_client_def)
next
  case (gone ss reason ss' k c w)
  have "settled s (put_session fd ss' (s\<lparr>kern := k, console := c\<rparr>))"
    using gone by (intro settled_put [OF gone(1), of ss']) (simp_all add: steady_def same_client_def)
  with settled_drop show ?thesis unfolding gone(2) by (blast intro: settled_trans)
qed (simp add: settled_refl)

lemma settled_close: "settled s (begin_orderly_close fd reason s)"
proof (cases rule: begin_orderly_close_cases [of s fd reason])
  case (drained ss)
  have "settled s (put_session fd (ss\<lparr>closing := True, inbuf := []\<rparr>) s)"
    by (rule settled_put [OF drained(1)]) (simp_all add: steady_def)
  with settled_drop show ?thesis unfolding drained(3) by (blast intro: settled_trans)
next
  case (queued ss)
  show ?thesis unfolding queued(3) by (rule settled_put [OF queued(1)]) (simp_all add: steady_def)
qed (simp add: settled_refl)

interpretation stl: input_effects settled
proof
  fix s t u fd ss i qty price side oid user line m reason rest bs n
  show "settled s s" by (rule settled_refl)
  show "settled s t \<Longrightarrow> settled t u \<Longrightarrow> settled s u" by (rule settled_trans)
  show "settled s (send_to fd m s)" "settled s (on_writable fd s)" by (simp_all add: on_writable_send settled_send)
  show "settled s (begin_orderly_close fd reason s)" by (rule settled_close)
  show "settled s (drop_fd fd reason s)" by (rule settled_drop)
  show "settled s (say line s)" "settled s (s\<lparr>book := snd (snd (add_order fd i side qty price [] (book s)))\<rparr>)"
    "settled s (s\<lparr>book := snd (cancel_order oid fd (book s))\<rparr>)" "settled s (s\<lparr>kern := snd (sys_recv fd n (kern s))\<rparr>)"
    by (rule settled_same, simp add: say_def)+
  assume ss: "session s fd = Some ss"
  show "settled s (register_login fd ss user s)" if "role ss \<noteq> ROLE_MARKET_DATA" "\<not> logged_in ss"
    using that by (cases "role ss") (auto simp: settled_def ss steady_def register_login_def)
  show "settled s (put_session fd (ss\<lparr>role := ROLE_MARKET_DATA\<rparr>) s)" if "role ss = ROLE_UNKNOWN"
    using that by (intro settled_put [OF ss]) (simp_all add: steady_def)
  show "settled s (add_subscription fd ss i s)" "settled s (remove_subscription fd ss i s)"
    "settled s (put_session fd (ss\<lparr>inbuf := rest\<rparr>) s)" "settled s (put_session fd (ss\<lparr>inbuf := inbuf ss @ bs\<rparr>) s)"
    using settled_put [OF ss] by (simp_all add: settled_def ss steady_def add_subscription_def remove_subscription_def)
qed


definition demo_cheeky :: Server where
  "demo_cheeky = demo_floor\<lparr>kern := (kern demo_floor)\<lparr>recv_script := (\<lambda>_. [])(6 := [Data (''LOGIN eve'' @ [LF])])\<rparr>\<rparr>"

text \<open>C22: a client is what it first was. Whatever happens on a connection, received bytes, writability or an error,
  every client still connected afterwards was connected before, under the same peer address; a role
  once taken is kept, a client that has logged in stays logged in under its name, and one
  that is being closed stays so.\<close>

theorem role_never_changes:
  assumes "ev_fd ev \<noteq> ts_fd (listener s)" and "session (handle_event ev s) fd = Some ss'"
  shows "\<exists>ss. session s fd = Some ss \<and> (role ss \<noteq> ROLE_UNKNOWN \<longrightarrow> role ss' = role ss) \<and>
    (logged_in ss \<longrightarrow> logged_in ss' \<and> username ss' = username ss) \<and> peer ss' = peer ss \<and> (closing ss \<longrightarrow> closing ss')"
  using stl.R_client_event [OF assms(1)] assms(2) by (simp add: settled_def steady_def)

theorem role_never_changes_witness:
  "\<exists>ss. session (handle_event \<lparr>ev_fd = 6, ev_readable = True, ev_writable = True, ev_hangup = False\<rparr> demo_cheeky) 6 = Some ss \<and>
     role ss = ROLE_MARKET_DATA"
proof -
  let ?ev = "\<lparr>ev_fd = 6, ev_readable = True, ev_writable = True, ev_hangup = False\<rparr>"
  have "session (handle_event ?ev demo_cheeky) 6 \<noteq> None" by code_simp
  then obtain ss' where ss': "session (handle_event ?ev demo_cheeky) 6 = Some ss'" by blast
  moreover have "session demo_cheeky 6 = Some ((new_session 6)\<lparr>role := ROLE_MARKET_DATA, subscriptions := [''JNST'']\<rparr>)"
      "ts_fd (listener demo_cheeky) = 3"
    by (simp_all add: demo_cheeky_def demo_floor_def new_exchange_def)
  ultimately show ?thesis using role_never_changes [OF _ ss'] by simp
qed

section \<open>Dropping a client\<close>

text \<open>A dropped client is forgotten at once. Dropping a client removes its session, its place in every
  subscriber set, its user name, its resting orders and its registration with the event loop, and nothing of
  anybody else; its descriptor is put aside to be closed when the batch ends and is still open, so no
  connection accepted meanwhile can be given it.\<close>

theorem dropped_client_forgotten:
  assumes "booted (new_loop have_kq kqr b script) s0" and "set script \<subseteq> {None}" and "serving s0 s"
    and "session s fd = Some ss" and t_def: "t = drop_fd fd reason s"
  shows "session t fd = None \<and> (\<forall>fd'. fd' \<noteq> fd \<longrightarrow> session t fd' = session s fd') \<and>
    (\<forall>i. set (subscribed i (subscribers t)) = set (subscribed i (subscribers s)) - {fd}) \<and>
    set (usernames t) = set (usernames s) - (if logged_in ss then {username ss} else {}) \<and>
    resting (book t) = {r \<in> resting (book s). o_owner_fd r \<noteq> fd} \<and>
    loop_interest (event_loop t) = (loop_interest (event_loop s))(fd := None) \<and>
    closed_fds t = closed_fds s @ [fd] \<and> kern t = kern s \<and> fd \<in> set (open_fds (kern t))"
proof -
  note f = drop_fd_fields [OF assms(4), of reason, folded t_def]
  have inv: "registry_inv (set (open_fds (kern s0))) s" "interest_inv (set (open_fds (kern s0))) s"
    using rg.serving_invariant [OF assms(3) booted_registry [OF assms(1)]]
      li.serving_invariant [OF assms(3) booted_interest [OF assms(1,2)]] .
  have reg: "subs_ok (idents s) (subscribers s)" "book_inv (book s)"
    using inv(1) by (simp_all add: registry_inv_def reg_ok_def orders_ok_def)
  show ?thesis
  proof (intro conjI)
    show "\<forall>i. set (subscribed i (subscribers t)) = set (subscribed i (subscribers s)) - {fd}"
      using reg(1) assms(4) by (auto simp: f subscribed_fold_erase subs_ok_def idents_def)
    show "resting (book t) = {r \<in> resting (book s). o_owner_fd r \<noteq> fd}"
      using ob.rest_purge [OF reg(2)] by (simp add: f)
    show "loop_interest (event_loop t) = (loop_interest (event_loop s))(fd := None)"
      using inv(2) el.laws by (simp add: f interest_inv_def loop_ok_def)
    show "fd \<in> set (open_fds (kern t))"
      using inv(1) assms(4) by (auto simp: f registry_inv_def descriptors_inv_def fd_ok_def clients_of_def)
  qed (simp_all add: f map_of_delete)
qed

theorem dropped_client_forgotten_witness:
  "\<exists>fd ss. session demo_accepted fd = Some ss \<and> session (drop_fd fd ''bye'' demo_accepted) fd = None \<and>
     fd \<in> set (open_fds (kern (drop_fd fd ''bye'' demo_accepted)))"
proof -
  obtain fd ss where ss: "session demo_accepted fd = Some ss" using demo_client by blast
  from dropped_client_forgotten [OF demo_booted _ demo_serving this refl, of "''bye''"] this show ?thesis by auto
qed

section \<open>Running out of descriptors\<close>

text \<open>C24: a shortage of descriptors suspends accepting for one second. Let the kernel refuse no registration. When \<^verbatim>\<open>accept\<close> fails for want of
  descriptors or memory, \<open>accept_pending\<close> returns at once with the listening socket unwatched and no
  session changed; checks before one second has passed leave everything as it is, and the first one
  after that watches the socket again.\<close>

theorem accept_backoff:
  assumes "booted (new_loop have_kq kqr b script) s0" and "set script \<subseteq> {None}" and "serving s0 s"
    and free: "accept_resume_at s = 0"
    and full: "accept_script (kern s) = AcceptError e # rest" "e \<in> {EMFILE, ENFILE, ENOBUFS, ENOMEM}"
    and t_def: "t = accept_pending s" and due_def: "due = now (kern s) + 1000000000"
  shows "accept_resume_at t = due \<and> loop_interest (event_loop t) (ts_fd (listener t)) = Some (False, False) \<and>
    sessions t = sessions s \<and> accept_script (kern t) = rest \<and>
    (\<forall>n < due. resume_accepting_if_due (t\<lparr>kern := (kern t)\<lparr>now := n\<rparr>\<rparr>) = t\<lparr>kern := (kern t)\<lparr>now := n\<rparr>\<rparr>) \<and>
    (\<forall>n \<ge> due. \<exists>u. resume_accepting_if_due (t\<lparr>kern := (kern t)\<lparr>now := n\<rparr>\<rparr>) = u \<and> accept_resume_at u = 0 \<and>
       loop_interest (event_loop u) (ts_fd (listener u)) = Some (True, False))"
proof -
  define base where "base = set (open_fds (kern s0))"
  have inv: "interest_inv base s"
    unfolding base_def using li.serving_invariant [OF assms(3) booted_interest [OF assms(1,2)]] .
  have acc: "accept_connection (listener s) (kern s) =
      (\<lparr>acc_fd = -1, acc_again = False, acc_exhausted = True, acc_peer = []\<rparr>,
       (listener s)\<lparr>ts_error := ''accept() failed: '' @ strerror (kern s) e\<rparr>, (kern s)\<lparr>accept_script := rest\<rparr>)"
    using full by (auto simp: accept_connection_def sys_accept_def)
  define s1 where "s1 = s\<lparr>listener := (listener s)\<lparr>ts_error := ''accept() failed: '' @ strerror (kern s) e\<rparr>,
      kern := (kern s)\<lparr>accept_script := rest\<rparr>\<rparr>"
  have t: "t = pause_accepting s1"
    unfolding t_def by (subst accept_pending.simps) (simp add: acc s1_def Let_def)
  have inv_t: "interest_inv base t" unfolding t_def by (rule li.P_accept_pending [OF inv])
  have resume: "accept_resume_at t = due" "sessions t = sessions s" "kern t = (kern s)\<lparr>accept_script := rest\<rparr>"
    using free by (simp_all add: t pause_accepting_def s1_def say_def Let_def due_def kAcceptBackoff_def)
  have watched: "loop_interest (event_loop u) (ts_fd (listener u)) = Some (accept_resume_at u = 0, False)"
    if "interest_inv base u" for u
    using that by (simp add: interest_inv_def loop_ok_def wanted_def)
  have later: "interest_inv base (resume_accepting_if_due (t\<lparr>kern := (kern t)\<lparr>now := n\<rparr>\<rparr>))" for n
    using inv_t by (intro li.P_resume) (simp add: interest_inv_def descriptors_inv_def fd_ok_def sessions_inv_def clients_of_def loop_ok_def wanted_def fun_eq_iff)
  have due: "due \<noteq> 0" by (simp add: due_def)
  show ?thesis
  proof (intro conjI allI impI)
    fix n assume "due \<le> n"
    then have "accept_resume_at (resume_accepting_if_due (t\<lparr>kern := (kern t)\<lparr>now := n\<rparr>\<rparr>)) = 0"
      using resume(1) due by (simp add: resume_accepting_if_due_def Let_def)
    with watched [OF later [of n]] show "\<exists>u. resume_accepting_if_due (t\<lparr>kern := (kern t)\<lparr>now := n\<rparr>\<rparr>) = u \<and> accept_resume_at u = 0 \<and>
       loop_interest (event_loop u) (ts_fd (listener u)) = Some (True, False)" by simp
  qed (use resume watched [OF inv_t] due in \<open>simp_all add: resume_accepting_if_due_def\<close>)
qed

definition demo_full :: Server where
  "demo_full = snd (server_start (new_exchange ''localhost'' 5000 (new_loop False (-1) Poll []) False 0
     (quiet_kernel\<lparr>accept_script := [AcceptError EMFILE]\<rparr>)))"

lemma demo_full_booted: "booted (new_loop False (-1) Poll []) demo_full"
proof -
  let ?x = "new_exchange ''localhost'' 5000 (new_loop False (-1) Poll []) False 0 (quiet_kernel\<lparr>accept_script := [AcceptError EMFILE]\<rparr>)"
  have "fst (server_start ?x)" by (simp add: demo_defs)
  then have "server_start ?x = (True, demo_full)" unfolding demo_full_def by (metis prod.collapse)
  moreover have "\<not> bad_close (quiet_kernel\<lparr>accept_script := [AcceptError EMFILE]\<rparr>)" by (simp add: quiet_kernel_def)
  ultimately show ?thesis unfolding booted_def by blast
qed

theorem accept_backoff_witness:
  "accept_resume_at (accept_pending demo_full) = 1000000000 \<and>
   accept_resume_at (resume_accepting_if_due ((accept_pending demo_full)\<lparr>kern := (kern (accept_pending demo_full))\<lparr>now := 1000000000\<rparr>\<rparr>)) = 0"
proof -
  have k: "accept_script (kern demo_full) = [AcceptError EMFILE]" "now (kern demo_full) = 0" "accept_resume_at demo_full = 0"
    by (simp_all add: demo_full_def demo_defs)
  from accept_backoff [OF demo_full_booted _ serving.start k(3,1) _ refl refl] show ?thesis by (simp add: k(2))
qed

text \<open>The same server in a world where \<^verbatim>\<open>accept\<close> fails, then reports an aborted handshake, and then has a connection.\<close>

definition demo_flaky_kernel :: Kernel where
  "demo_flaky_kernel = quiet_kernel\<lparr>strerror := (\<lambda>e. if e = EOTHER 71 then ''Protocol error'' else ''Software caused connection abort''),
     accept_script := [AcceptError (EOTHER 71), AcceptError ECONNABORTED, Connection (Some ''127.0.0.1'') 40000]\<rparr>"

definition demo_flaky_boot :: Server where
  "demo_flaky_boot = snd (server_start (new_exchange ''localhost'' 5000 (new_loop False (-1) Poll []) False 0 demo_flaky_kernel))"

lemma demo_flaky_booted: "booted (new_loop False (-1) Poll []) demo_flaky_boot"
proof -
  let ?x = "new_exchange ''localhost'' 5000 (new_loop False (-1) Poll []) False 0 demo_flaky_kernel"
  have "fst (server_start ?x)" by (simp add: demo_flaky_kernel_def demo_defs)
  then have "server_start ?x = (True, demo_flaky_boot)" unfolding demo_flaky_boot_def by (metis prod.collapse)
  moreover have "\<not> bad_close demo_flaky_kernel" by (simp add: demo_flaky_kernel_def quiet_kernel_def)
  ultimately show ?thesis unfolding booted_def by blast
qed

text \<open>C40: an aborted handshake keeps the others waiting, and is blamed on an older failure. The server is started in a world where
  \<^verbatim>\<open>accept\<close> first fails for some other reason, at the next wakeup reports an aborted handshake, and has a connection waiting behind
  it. After the second wakeup nobody is connected, the connection still waits, and what the server has printed about the aborted
  handshake is the message of the first failure.\<close>

theorem aborted_handshake_stops_accepting:
  "\<exists>l s0 s t. booted l s0 \<and> serving s0 s \<and> t = accept_pending s \<and>
     accept_script (kern s) = [AcceptError ECONNABORTED, Connection (Some ''127.0.0.1'') 40000] \<and>
     ts_error (listener s) = ''accept() failed: Protocol error'' \<and>
     strerror (kern s) ECONNABORTED = ''Software caused connection abort'' \<and> sessions t = [] \<and> accept_script (kern t) = [Connection (Some ''127.0.0.1'') 40000] \<and>
     console t = console s @ [''exchange_server: accept() failed: Protocol error'']"
proof -
  define s where "s = handle_event \<lparr>ev_fd = 3, ev_readable = True, ev_writable = False, ev_hangup = False\<rparr> demo_flaky_boot"
  have "serving demo_flaky_boot s" unfolding s_def by (intro serving.intros)
  moreover have "accept_script (kern s) = [AcceptError ECONNABORTED, Connection (Some ''127.0.0.1'') 40000]"
    "ts_error (listener s) = ''accept() failed: Protocol error''" "strerror (kern s) ECONNABORTED = ''Software caused connection abort''"
    unfolding s_def by code_simp+
  moreover have "sessions (accept_pending s) = []" "accept_script (kern (accept_pending s)) = [Connection (Some ''127.0.0.1'') 40000]"
    "console (accept_pending s) = console s @ [''exchange_server: accept() failed: Protocol error'']"
    unfolding s_def by code_simp+
  ultimately show ?thesis using demo_flaky_booted by blast
qed

end
