(* ===== verification/Exchange_Spec.thy ===== *)
theory Exchange_Spec
  imports Order_Book Message_Parser
begin

text \<open>
  What the exchange promises, without connections, buffers or descriptors. An \<open>Exchange\<close> is its members and
  the resting orders; a member has said nothing about itself yet, is a trader with a name, or
  watches the trades of some instruments. \<open>respond\<close> is the effect of a line: the new exchange and what each
  member is told. The history of an exchange is a sequence of arrivals, lines and departures (\<open>exchange_run\<close>); departures
  may happen at any time, because a connection may break at any time.
  The theory shows the promises that follow from the rules alone; \<open>Server_Refinement\<close> shows that the
  server keeps to them.
\<close>

datatype member = Newcomer | Trader string | Watcher "string set"

record Exchange =
  members :: "int \<rightharpoonup> member"
  orders :: abook

definition no_orders :: abook where
  "no_orders = \<lparr>a_next = 1, a_queue = (\<lambda>_. [])\<rparr>"

definition fresh_exchange :: Exchange where
  "fresh_exchange = \<lparr>members = Map.empty, orders = no_orders\<rparr>"

section \<open>Lines\<close>

definition tell :: "int \<Rightarrow> string \<Rightarrow> int \<Rightarrow> string" where
  "tell fd m to = (if to = fd then m else [])"

definition taken :: "string \<Rightarrow> Exchange \<Rightarrow> bool" where
  "taken user x \<longleftrightarrow> Trader user \<in> ran (members x)"

definition enrol :: "int \<Rightarrow> member \<Rightarrow> Exchange \<Rightarrow> Exchange" where
  "enrol fd m x = x\<lparr>members := (members x)(fd \<mapsto> m)\<rparr>"

fun watches :: "string \<Rightarrow> member option \<Rightarrow> bool" where
  "watches i (Some (Watcher W)) \<longleftrightarrow> i \<in> W"
| "watches i _ \<longleftrightarrow> False"

text \<open>What a member is told of an execution.\<close>

definition notice :: "int \<Rightarrow> member option \<Rightarrow> TradeExecution \<Rightarrow> string" where
  "notice to m e =
     (if to = x_buyer_fd e then bought (x_instrument e) (x_quantity e) (x_price e) else []) @
     (if to = x_seller_fd e then sold (x_instrument e) (x_quantity e) (x_price e) else []) @
     (if watches (x_instrument e) m then trade (x_instrument e) (x_quantity e) (x_price e) else [])"

definition not_for :: "string \<Rightarrow> string \<Rightarrow> string" where
  "not_for word kind = error (word @ '' is not permitted for a '' @ kind @ '' client'')"

definition submit :: "string \<Rightarrow> Side \<Rightarrow> int \<Rightarrow> string \<Rightarrow> int \<Rightarrow> int \<Rightarrow> Exchange \<Rightarrow> (int \<Rightarrow> string) \<times> Exchange" where
  "submit word side fd i qty p x =
     (case members x fd of
        Some (Watcher W) \<Rightarrow> (tell fd (not_for word ''market-data''), x)
      | Some (Trader u) \<Rightarrow>
          (let (oid, ex, b) = spec_add fd i side qty p (orders x)
           in (\<lambda>to. tell fd (order_accepted oid) to @ concat (map (notice to (members x to)) ex), x\<lparr>orders := b\<rparr>))
      | _ \<Rightarrow> (tell fd (error ''Not logged in: send LOGIN <username> before trading''), x))"

fun obey :: "int \<Rightarrow> command \<Rightarrow> Exchange \<Rightarrow> (int \<Rightarrow> string) \<times> Exchange" where
  "obey fd (Login u) x =
     (case members x fd of
        Some (Watcher W) \<Rightarrow> (tell fd (not_for ''LOGIN'' ''market-data''), x)
      | Some (Trader v) \<Rightarrow> (tell fd (error (''Already logged in as '' @ v)), x)
      | _ \<Rightarrow> (if taken u x then (tell fd (error (''Username '' @ u @ '' is already in use'')), x)
              else (tell fd ok, enrol fd (Trader u) x)))"
| "obey fd (Subscribe i) x =
     (case members x fd of
        Some (Trader v) \<Rightarrow> (tell fd (not_for ''SUBSCRIBE'' ''trader''), x)
      | Some (Watcher W) \<Rightarrow> (tell fd ok, enrol fd (Watcher (insert i W)) x)
      | _ \<Rightarrow> (tell fd ok, enrol fd (Watcher {i}) x))"
| "obey fd (Unsubscribe i) x =
     (case members x fd of
        Some (Trader v) \<Rightarrow> (tell fd (not_for ''UNSUBSCRIBE'' ''trader''), x)
      | m \<Rightarrow> (case m of
                Some (Watcher W) \<Rightarrow>
                  (if i \<in> W then (tell fd ok, enrol fd (Watcher (W - {i})) x)
                   else (tell fd (error (''Not subscribed to '' @ i)), x))
              | _ \<Rightarrow> (tell fd (error (''Not subscribed to '' @ i)), x)))"
| "obey fd (Buy i q p) x = submit ''BUY'' Side_BUY fd i q p x"
| "obey fd (Sell i q p) x = submit ''SELL'' Side_SELL fd i q p x"
| "obey fd (Cancel oid) x =
     (case members x fd of
        Some (Watcher W) \<Rightarrow> (tell fd (not_for ''CANCEL'' ''market-data''), x)
      | Some (Trader u) \<Rightarrow>
          (case spec_cancel oid fd (orders x) of
             (Inr _, b) \<Rightarrow> (tell fd (order_cancelled oid), x\<lparr>orders := b\<rparr>)
           | (Inl e, b) \<Rightarrow> (tell fd (error e), x\<lparr>orders := b\<rparr>))
      | _ \<Rightarrow> (tell fd (error ''Not logged in: send LOGIN <username> before trading''), x))"
| "obey fd Quit x = (\<lambda>to. [], x)"

definition respond :: "int \<Rightarrow> string \<Rightarrow> Exchange \<Rightarrow> (int \<Rightarrow> string) \<times> Exchange" where
  "respond fd line x =
     (case decode (parse line) of
        None \<Rightarrow> (tell fd (error (cmd_error (parse line))), x)
      | Some c \<Rightarrow> obey fd c x)"

section \<open>Histories\<close>

definition leave :: "int \<Rightarrow> Exchange \<Rightarrow> Exchange" where
  "leave fd x = x\<lparr>members := (members x)(fd := None), orders := spec_remove fd (orders x)\<rparr>"

datatype happening = Joined int | Said int string | Left int

text \<open>\<open>exchange_run x hs out y\<close>: the happenings \<open>hs\<close> lead from \<open>x\<close> to \<open>y\<close>, and \<open>out fd\<close> is what \<open>fd\<close> was told meanwhile.\<close>

inductive exchange_run :: "Exchange \<Rightarrow> happening list \<Rightarrow> (int \<Rightarrow> string) \<Rightarrow> Exchange \<Rightarrow> bool" where
  idle: "exchange_run x [] (\<lambda>_. []) x"
| join: "exchange_run x hs out y \<Longrightarrow> members y fd = None \<Longrightarrow>
    exchange_run x (hs @ [Joined fd]) out (enrol fd Newcomer y)"
| said: "exchange_run x hs out y \<Longrightarrow> members y fd \<noteq> None \<Longrightarrow>
    exchange_run x (hs @ [Said fd line]) (\<lambda>to. out to @ fst (respond fd line y) to) (snd (respond fd line y))"
| left: "exchange_run x hs out y \<Longrightarrow> members y fd \<noteq> None \<Longrightarrow> exchange_run x (hs @ [Left fd]) out (leave fd y)"

lemma exchange_run_append:
  assumes "exchange_run y hs' out' z" and "exchange_run x hs out y"
  shows "exchange_run x (hs @ hs') (\<lambda>to. out to @ out' to) z"
  using assms
proof (induction rule: exchange_run.induct)
  case (said y hs' out' y' fd line)
  from exchange_run.said [OF said.IH [OF said.prems] said.hyps(2), of line] show ?case by simp
qed (simp_all add: exchange_run.intros flip: append_assoc)

lemmas run_join = exchange_run.join [OF exchange_run.idle, simplified]
lemmas run_said = exchange_run.said [OF exchange_run.idle, simplified]
lemmas run_left = exchange_run.left [OF exchange_run.idle, simplified]

text \<open>A history of departures: who left was there before and is not there afterwards, and nobody came.\<close>

lemma run_departures:
  assumes "exchange_run x hs out y" and "list_all (\<lambda>h. \<exists>fd. h = Left fd) hs"
  shows "(\<forall>fd. Left fd \<in> set hs \<longrightarrow> members x fd \<noteq> None \<and> members y fd = None) \<and> (\<forall>fd. members x fd = None \<longrightarrow> members y fd = None)"
  using assms by (induction rule: exchange_run.induct) (auto simp: leave_def)

text \<open>A line makes nobody come or go.\<close>

lemma respond_members:
  assumes "members x fd \<noteq> None"
  shows "members (snd (respond fd line x)) to = None \<longleftrightarrow> members x to = None"
proof -
  have "members (snd (submit word side fd i q p x)) = members x" for word side i q p
    by (simp add: submit_def split: option.split member.split prod.split)
  then have "members (snd (obey fd c x)) to = None \<longleftrightarrow> members x to = None" for c
    using assms by (cases c) (auto simp: enrol_def split: option.split member.split prod.split sum.split)
  then show ?thesis by (simp add: respond_def split: option.split)
qed

text \<open>Who said what, in order.\<close>

definition sayings :: "happening list \<Rightarrow> (int \<times> string) list" where
  "sayings hs = concat (map (\<lambda>h. case h of Said fd line \<Rightarrow> [(fd, line)] | _ \<Rightarrow> []) hs)"

lemma sayings_simps [simp]:
  "sayings [] = []" "sayings (hs @ hs') = sayings hs @ sayings hs'" "sayings (Joined fd # hs) = sayings hs"
  "sayings (Left fd # hs) = sayings hs" "sayings (Said fd line # hs) = (fd, line) # sayings hs" "sayings (map Left ds) = []"
  by (simp_all add: sayings_def comp_def)

section \<open>What the rules guarantee\<close>

definition sound_exchange :: "Exchange \<Rightarrow> bool" where
  "sound_exchange x \<longleftrightarrow>
     (\<forall>a b u. members x a = Some (Trader u) \<and> members x b = Some (Trader u) \<longrightarrow> a = b) \<and>
     (\<forall>r \<in> a_resting (orders x). \<exists>u. members x (o_owner_fd r) = Some (Trader u))"

lemma residual_owner: "r \<in> set (residual_orders q ts) \<Longrightarrow> \<exists>r' \<in> set q. o_owner_fd r' = o_owner_fd r"
  by (auto simp: residual_orders_def reduce_order_def set_zip)

lemma spec_add_owner:
  assumes "spec_add fd i side qty p a = (oid, ex, b)" and "r \<in> a_resting b"
  shows "o_owner_fd r = fd \<or> (\<exists>r' \<in> a_resting a. o_owner_fd r' = o_owner_fd r)"
  using assms by (auto simp: spec_add_def a_resting_def Let_def split: if_splits dest!: residual_owner) blast+

lemma sound_submit:
  assumes "sound_exchange x"
  shows "sound_exchange (snd (submit word side fd i qty p x))"
proof (cases "\<exists>u. members x fd = Some (Trader u)")
  case True
  obtain oid ex b where add: "spec_add fd i side qty p (orders x) = (oid, ex, b)" by (metis surj_pair)
  have "\<exists>u. members x (o_owner_fd r) = Some (Trader u)" if "r \<in> a_resting b" for r
    using spec_add_owner [OF add that] True assms unfolding sound_exchange_def by metis
  with True add assms show ?thesis by (auto simp: submit_def sound_exchange_def)
next
  case False
  then show ?thesis using assms by (auto simp: submit_def split: option.split member.split)
qed

lemma sound_enrol:
  assumes "sound_exchange x" and "\<And>u. members x fd \<noteq> Some (Trader u)" and "\<And>u. m = Trader u \<Longrightarrow> \<not> taken u x"
  shows "sound_exchange (enrol fd m x)"
  unfolding sound_exchange_def
proof (intro conjI allI impI ballI)
  fix a b u assume "members (enrol fd m x) a = Some (Trader u) \<and> members (enrol fd m x) b = Some (Trader u)"
  with assms show "a = b" by (auto simp: enrol_def sound_exchange_def taken_def ran_def split: if_splits)
next
  fix r assume "r \<in> a_resting (orders (enrol fd m x))"
  with assms(1) obtain u where "members x (o_owner_fd r) = Some (Trader u)" by (auto simp: sound_exchange_def enrol_def)
  with assms(2) show "\<exists>u. members (enrol fd m x) (o_owner_fd r) = Some (Trader u)" by (auto simp: enrol_def)
qed

lemma spec_cancel_resting: "spec_cancel oid fd a = (res, b) \<Longrightarrow> a_resting b \<subseteq> a_resting a"
  by (auto simp: spec_cancel_def a_resting_def split: if_splits)

lemma sound_obey:
  assumes "sound_exchange x" and "members x fd \<noteq> None"
  shows "sound_exchange (snd (obey fd c x))"
proof (cases c)
  case (Cancel oid)
  obtain res b where "spec_cancel oid fd (orders x) = (res, b)" by fastforce
  with Cancel assms(1) spec_cancel_resting show ?thesis
    by (fastforce simp: sound_exchange_def split: option.split member.split sum.split)
qed (use assms in \<open>auto simp: sound_submit intro!: sound_enrol split: option.split member.split\<close>)

lemma sound_leave: "sound_exchange x \<Longrightarrow> sound_exchange (leave fd x)"
  by (auto simp: sound_exchange_def leave_def spec_remove_def a_resting_def)

text \<open>In every history user names are unique and every resting order is a present trader's.\<close>

theorem exchange_sound: "exchange_run fresh_exchange hs out x \<Longrightarrow> sound_exchange x"
proof (induction fresh_exchange hs out x rule: exchange_run.induct)
  case idle
  show ?case by (simp add: sound_exchange_def fresh_exchange_def no_orders_def a_resting_def)
next
  case (join hs out y fd)
  then show ?case by (intro sound_enrol) simp_all
next
  case (said hs out y fd line)
  then show ?case using sound_obey by (auto simp: respond_def split: option.split)
next
  case (left hs out y fd)
  then show ?case by (intro sound_leave)
qed

end
