(* ===== verification/Server_Input.thy ===== *)
theory Server_Input
  imports Server_Properties
begin

text \<open>
  The input side of the sessions. Between events no client has a complete line waiting and no buffer holds more
  than the limit on unterminated input: an invariant that reading breaks and \<open>consume_messages\<close>
  restores, so it is shown for the events as a whole. Everything that happens meanwhile only ever
  shortens the input of the other clients (\<open>shrinks\<close>, an interpretation of \<open>consume_effects\<close>).
\<close>

section \<open>Input only gets shorter\<close>

definition shrinks :: "Server \<Rightarrow> Server \<Rightarrow> bool" where
  "shrinks s t \<longleftrightarrow>
     (\<forall>fd ss'. session t fd = Some ss' \<longrightarrow> (\<exists>ss. session s fd = Some ss \<and> suffix (inbuf ss') (inbuf ss)))"

lemma shrinks_untouched: "untouched s t \<Longrightarrow> shrinks s t"
  by (fastforce simp: untouched_def shrinks_def input_kept_def)

lemma shrinks_trans: "shrinks s t \<Longrightarrow> shrinks t u \<Longrightarrow> shrinks s u"
  unfolding shrinks_def by (metis suffix_order.trans)

interpretation sh: consume_effects shrinks
proof
  fix s t u fd ss i qty price side oid user line m reason rest
  show "shrinks s s" by (simp add: shrinks_def)
  show "shrinks s t \<Longrightarrow> shrinks t u \<Longrightarrow> shrinks s u" by (rule shrinks_trans)
  show "shrinks s (say line s)" "shrinks s (send_to fd m s)" "shrinks s (begin_orderly_close fd reason s)"
    using fr.R_say untouched_send untouched_close by (auto intro: shrinks_untouched)
  show "shrinks s (s\<lparr>book := snd (snd (add_order fd i side qty price [] (book s)))\<rparr>)"
    "shrinks s (s\<lparr>book := snd (cancel_order oid fd (book s))\<rparr>)"
    by (simp_all add: shrinks_def)
  assume ss: "session s fd = Some ss"
  show "shrinks s (register_login fd ss user s)" "shrinks s (put_session fd (ss\<lparr>role := ROLE_MARKET_DATA\<rparr>) s)"
    "shrinks s (add_subscription fd ss i s)" "shrinks s (remove_subscription fd ss i s)"
    using ss by (auto simp: shrinks_def register_login_def add_subscription_def remove_subscription_def)
  show "shrinks s (put_session fd (ss\<lparr>inbuf := rest\<rparr>) s)" if "suffix rest (inbuf ss)"
    using ss that by (auto simp: shrinks_def)
qed

section \<open>Idle sessions\<close>

definition idle :: "ClientSession \<Rightarrow> bool" where
  "idle ss \<longleftrightarrow> LF \<notin> set (inbuf ss) \<and> length (inbuf ss) \<le> kMaxLineBytes"

text \<open>All sessions are idle but perhaps those in \<open>F\<close>.\<close>

definition idle_but :: "int set \<Rightarrow> Server \<Rightarrow> bool" where
  "idle_but F s \<longleftrightarrow> (\<forall>fd ss. session s fd = Some ss \<longrightarrow> fd \<notin> F \<longrightarrow> idle ss)"

lemma idle_suffix: "idle ss \<Longrightarrow> suffix (inbuf ss') (inbuf ss) \<Longrightarrow> idle ss'"
  by (auto simp: idle_def suffix_def)

lemma idle_but_shrinks: "idle_but F s \<Longrightarrow> shrinks s t \<Longrightarrow> idle_but F t"
  unfolding idle_but_def shrinks_def by (meson idle_suffix)

lemma idle_but_settled:
  "idle_but {fd} s \<Longrightarrow> (\<And>ss. session s fd = Some ss \<Longrightarrow> idle ss) \<Longrightarrow> idle_but {} s"
  unfolding idle_but_def by blast

lemma idle_but_cong: "idle_but F s \<Longrightarrow> sessions t = sessions s \<Longrightarrow> idle_but F t"
  by (simp add: idle_but_def)

lemma idle_empty: "inbuf ss = [] \<Longrightarrow> idle ss"
  by (simp add: idle_def)

lemma close_empties: "session (begin_orderly_close fd r s) fd = Some ss \<Longrightarrow> inbuf ss = []"
  by (cases rule: begin_orderly_close_cases [of s fd r])
    (auto simp: drop_fd_sessions map_of_delete)

lemma idle_consume:
  assumes "idle_but {fd} s" and "sessions_inv s"
  shows "idle_but {} (snd (consume_messages fd s))"
  using assms
proof (induction fd s rule: consume_messages.induct)
  case (1 fd s)
  show ?case
  proof (cases "session s fd")
    case None
    with idle_but_settled [OF 1(2)] show ?thesis by (subst consume_messages.simps) simp
  next
    case ss: (Some ss)
    show ?thesis
    proof (cases "str_find LF (inbuf ss)")
      case None
      have close: "idle_but {} (begin_orderly_close fd r (send_to fd m s))" for r m
      proof (rule idle_but_settled)
        have "shrinks s (begin_orderly_close fd r (send_to fd m s))"
          using shrinks_trans [OF shrinks_untouched [OF untouched_send] shrinks_untouched [OF untouched_close]] .
        then show "idle_but {fd} (begin_orderly_close fd r (send_to fd m s))" using 1(2) by (rule idle_but_shrinks [rotated])
      qed (blast intro: idle_empty close_empties)
      have "idle_but {} s" if "length (inbuf ss) \<le> kMaxLineBytes"
        using 1(2) ss None that by (intro idle_but_settled) (auto simp: idle_def)
      with ss None close show ?thesis
        by (subst consume_messages.simps) (simp add: Let_def del: str_find_None)
    next
      case (Some n)
      let ?t = "take_message fd ss n s"
      have t: "idle_but {fd} ?t" "sessions_inv ?t"
        using idle_but_shrinks [OF 1(2) sh.R_take_message [OF ss]] si.eff.R_take_message [OF ss] 1(3) by auto
      have "idle_but {} ?t" if "session ?t fd = None \<or> (\<exists>ss'. session ?t fd = Some ss' \<and> closing ss')"
        using t(1) that sessions_invD [OF t(2)] by (intro idle_but_settled) (auto simp: session_ok_def intro: idle_empty)
      then show ?thesis
        using 1(1) [OF ss Some refl _ _ t] ss Some
        by (subst consume_messages.simps) (auto simp: Let_def split: option.split)
    qed
  qed
qed

lemma idle_on_readable: "idle_but {} s \<Longrightarrow> sessions_inv s \<Longrightarrow> idle_but {} (on_readable fd s)"
proof (induction fd s rule: on_readable.induct)
  case (1 fd s)
  show ?case
  proof (cases "session s fd")
    case None
    with 1(3) show ?thesis by (subst on_readable.simps) simp
  next
    case ss: (Some ss)
    define r where "r = sys_recv fd kReadChunk (kern s)"
    define s1 where "s1 = s\<lparr>kern := snd r\<rparr>"
    have s1: "idle_but {} s1" "sessions_inv s1"
      using 1(3,4) by (simp_all add: s1_def idle_but_def sessions_inv_def)
    show ?thesis
    proof (cases "closing ss")
      case True
      with ss 1(3) show ?thesis by (subst on_readable.simps) simp
    next
      case open_ss: False
      note form = on_readable.simps [of fd s, unfolded ss option.case Let_def, folded r_def, folded s1_def]
      note IH = 1(1,2) [OF ss open_ss r_def s1_def]
      have shut: "idle_but {} (begin_orderly_close fd m s1)" "idle_but {} (drop_fd fd m s1)" for m
        using s1(1) shrinks_untouched [OF untouched_close] shrinks_untouched [OF untouched_drop]
        by (blast intro: idle_but_shrinks)+
      show ?thesis
      proof (cases "fst r")
        case (Data bs)
        define t where "t = receive_bytes fd ss bs s1"
        have ss1: "session s1 fd = Some ss" by (simp add: s1_def ss)
        have "idle_but {fd} t" using s1(1) by (simp add: t_def receive_bytes_def idle_but_def say_def Let_def)
        moreover have "sessions_inv t" using si.eff.R_receive_bytes [OF ss1 open_ss] s1(2) by (simp add: t_def)
        ultimately have t: "idle_but {} (snd (consume_messages fd t))" "sessions_inv (snd (consume_messages fd t))"
          using idle_consume si.eff.R_consume_messages by blast+
        show ?thesis
          using IH(1) [OF Data _ refl] t shut by (auto simp: form open_ss Data t_def)
      next
        case (RecvError e)
        show ?thesis using IH(2) [OF RecvError] s1 shut by (auto simp: form open_ss RecvError)
      qed
    qed
  qed
qed

text \<open>A new session has received nothing yet.\<close>

lemma idle_admit: "idle_but {} s \<Longrightarrow> idle_but {} (admit fd p s)"
  by (rule admit_form [of fd p s])
    (auto simp: Let_def idle_but_def map_of_delete new_session_def idle_def split: if_splits)

lemma idle_accept_pending: "idle_but {} s \<Longrightarrow> idle_but {} (accept_pending s)"
proof (induction s rule: accept_pending.induct)
  case (1 s)
  obtain a srv k where acc: "accept_connection (listener s) (kern s) = (a, srv, k)" by (metis surj_pair)
  let ?s = "s\<lparr>listener := srv, kern := k\<rparr>"
  have s: "idle_but {} ?s" "idle_but {} (pause_accepting ?s)" "idle_but {} (say l ?s)" for l
    using 1(2) by (simp_all add: idle_but_def frame_simps say_def)
  show ?case
  proof (cases "acc_fd a < 0")
    case True
    with s show ?thesis by (subst accept_pending.simps) (simp add: acc Let_def)
  next
    case False
    with 1(1) [OF refl refl refl] idle_admit [OF s(1)] show ?thesis
      by (subst accept_pending.simps) (simp add: acc Let_def)
  qed
qed

lemma idle_handle_event:
  assumes "idle_but {} s" and "sessions_inv s"
  shows "idle_but {} (handle_event ev s)"
proof -
  have drop: "idle_but {} (drop_fd fd m t)" "idle_but {} (on_writable fd t)" if "idle_but {} t" for fd m t
    using idle_but_shrinks [OF that] shrinks_untouched untouched_drop untouched_send by (metis on_writable_send)+
  have "sessions_inv (on_writable fd s)" for fd using assms(2) by (rule si.P_writable)
  then show ?thesis
    using assms drop idle_accept_pending idle_on_readable by (simp add: handle_event_def Let_def)
qed

lemma idle_serving: "serving s0 s \<Longrightarrow> sessions_inv s0 \<Longrightarrow> idle_but {} s0 \<Longrightarrow> idle_but {} s"
proof (induction rule: serving.induct)
  case (event s ev)
  then show ?case using si.serving_invariant idle_handle_event by blast
qed (simp_all add: idle_but_def frame_simps reap_closed_def)

section \<open>Properties\<close>

text \<open>C18: input is bounded and never left unread. In every state the main loop passes through, the input buffer of
  every session holds at most 64 KiB and no complete line: whatever chunks the bytes came
  in, every line was handled in the event that completed it.\<close>

theorem server_input_bounds:
  assumes "booted l s0" and "serving s0 s" and "session s fd = Some ss"
  shows "LF \<notin> set (inbuf ss) \<and> length (inbuf ss) \<le> kMaxLineBytes"
proof -
  have "sessions_inv s0" "idle_but {} s0"
    using booted_descriptors [OF assms(1)] bootedE(1) [OF assms(1)] by (simp_all add: descriptors_inv_def idle_but_def)
  from idle_serving [OF assms(2) this] assms(3) show ?thesis by (simp add: idle_but_def idle_def)
qed

theorem server_input_bounds_witness:
  "\<exists>fd ss. session demo_accepted fd = Some ss \<and> LF \<notin> set (inbuf ss) \<and> length (inbuf ss) \<le> kMaxLineBytes"
proof -
  obtain fd ss where "session demo_accepted fd = Some ss" using demo_client by blast
  with server_input_bounds [OF demo_booted demo_serving this] show ?thesis by blast
qed

end
