(* ===== verification/Server_Framing.thy ===== *)
theory Server_Framing
  imports Server_Input Server_Delivery
begin

text \<open>
  Messages do not depend on how the bytes arrive. A transformation of server states that the primitive operations
  commute with commutes with every handler (\<open>server_commutes\<close>); interpreted (\<open>wi\<close>) for bytes added to an input
  buffer and another script of reads, this shows that reading a stream in pieces or at once leads to the same server.
\<close>

section \<open>Transformations that handlers commute with\<close>

locale server_commutes =
  fixes T :: "Server \<Rightarrow> Server"
  assumes T_none: "session (T s) fd = None \<longleftrightarrow> session s fd = None"
    and T_some: "session s fd = Some ss \<Longrightarrow> session (T s) fd = Some ss' \<Longrightarrow>
          role ss' = role ss \<and> username ss' = username ss \<and> logged_in ss' = logged_in ss \<and> subscriptions ss' = subscriptions ss"
    and T_parts: "book (T s) = book s" "usernames (T s) = usernames s" "subscribers (T s) = subscribers s"
          "hash_order (kern (T s)) = hash_order (kern s)"
    and T_say: "T (say line s) = say line (T s)"
    and T_send: "T (send_to fd m s) = send_to fd m (T s)"
    and T_close: "T (begin_orderly_close fd reason s) = begin_orderly_close fd reason (T s)"
    and T_book: "T (s\<lparr>book := b\<rparr>) = (T s)\<lparr>book := b\<rparr>"
    and T_login: "session s fd = Some ss \<Longrightarrow> session (T s) fd = Some ss' \<Longrightarrow>
          T (register_login fd ss user s) = register_login fd ss' user (T s)"
    and T_role: "session s fd = Some ss \<Longrightarrow> session (T s) fd = Some ss' \<Longrightarrow>
          T (put_session fd (ss\<lparr>role := ROLE_MARKET_DATA\<rparr>) s) = put_session fd (ss'\<lparr>role := ROLE_MARKET_DATA\<rparr>) (T s)"
    and T_subscribe: "session s fd = Some ss \<Longrightarrow> session (T s) fd = Some ss' \<Longrightarrow>
          T (add_subscription fd ss i s) = add_subscription fd ss' i (T s)"
    and T_unsubscribe: "session s fd = Some ss \<Longrightarrow> session (T s) fd = Some ss' \<Longrightarrow>
          T (remove_subscription fd ss i s) = remove_subscription fd ss' i (T s)"
begin

lemma T_session:
  assumes "session s fd = Some ss"
  obtains ss' where "session (T s) fd = Some ss'" "role ss' = role ss" "username ss' = username ss"
    "logged_in ss' = logged_in ss" "subscriptions ss' = subscriptions ss"
proof (cases "session (T s) fd")
  case None
  with assms T_none show ?thesis by auto
next
  case (Some ss')
  with T_some [OF assms] that show ?thesis by blast
qed

lemma T_send_each: "T (fold (\<lambda>fd. send_to fd m) fds s) = fold (\<lambda>fd. send_to fd m) fds (T s)"
  by (induction fds arbitrary: s) (simp_all add: T_send)

lemma T_publish: "T (publish x s) = publish x (T s)"
  by (simp add: publish_def Let_def T_send [symmetric] T_parts T_send_each split: option.split)

lemma T_publish_all: "T (publish_all fd xs s) = publish_all fd xs (T s)"
  by (induction xs arbitrary: s) (simp_all add: Let_def T_none T_publish [symmetric])

lemma T_reject:
  assumes "session s fd = Some ss"
  shows "reject_wrong_role fd required type (T s) = map_prod id T (reject_wrong_role fd required type s)"
proof -
  obtain ss' where "session (T s) fd = Some ss'" "role ss' = role ss" using T_session [OF assms] by blast
  with assms show ?thesis by (simp add: reject_wrong_role_def session_at_def Let_def T_send)
qed

lemma T_require:
  assumes "session s fd = Some ss"
  shows "require_logged_in_trader fd type (T s) = map_prod id T (require_logged_in_trader fd type s)"
proof -
  obtain rejected s1 where rj: "reject_wrong_role fd ROLE_TRADER type s = (rejected, s1)" by fastforce
  have rj': "reject_wrong_role fd ROLE_TRADER type (T s) = (rejected, T s1)"
    using T_reject [OF assms, of ROLE_TRADER type] by (simp add: rj)
  show ?thesis
  proof (cases rejected)
    case True
    then show ?thesis by (simp add: require_logged_in_trader_def rj rj')
  next
    case False
    then have "s1 = s" using rj assms by (auto simp: reject_wrong_role_def session_at_def Let_def split: if_splits)
    moreover obtain ss' where "session (T s) fd = Some ss'" "logged_in ss' = logged_in ss" using T_session [OF assms] by blast
    ultimately show ?thesis
      using assms False by (simp add: require_logged_in_trader_def rj rj' session_at_def Let_def T_send)
  qed
qed

lemma T_handle_login:
  assumes "session s fd = Some ss"
  shows "T (handle_login fd cmd s) = handle_login fd cmd (T s)"
proof -
  obtain ss' where ss': "session (T s) fd = Some ss'" "role ss' = role ss" "username ss' = username ss" "logged_in ss' = logged_in ss"
    using T_session [OF assms] by blast
  show ?thesis
    using assms ss' T_login [OF assms ss'(1)]
    by (simp add: handle_login_def reject_wrong_role_def session_at_def Let_def T_send T_say T_parts)
qed

lemma T_handle_subscription:
  assumes "session s fd = Some ss"
  shows "T (handle_subscription fd cmd s) = handle_subscription fd cmd (T s)"
proof -
  obtain ss' where ss': "session (T s) fd = Some ss'" "role ss' = role ss" "subscriptions ss' = subscriptions ss"
    using T_session [OF assms] by blast
  let ?r = "\<lambda>ss s. say (''[=] fd '' @ to_string fd @ '' is a market-data client'') (put_session fd (ss\<lparr>role := ROLE_MARKET_DATA\<rparr>) s)"
  have role: "T (?r ss s) = ?r ss' (T s)" by (simp add: T_say T_role [OF assms ss'(1)])
  have new: "session (?r ss s) fd = Some (ss\<lparr>role := ROLE_MARKET_DATA\<rparr>)"
      "session (T (?r ss s)) fd = Some (ss'\<lparr>role := ROLE_MARKET_DATA\<rparr>)"
    unfolding role by (simp_all add: say_def)
  note sub = T_subscribe [OF assms ss'(1)] T_unsubscribe [OF assms ss'(1)] T_subscribe [OF new] T_unsubscribe [OF new]
  show ?thesis
    using assms ss' sub role
    by (cases "role ss") (simp_all add: handle_subscription_def reject_wrong_role_def session_at_def Let_def T_send)
qed

lemma T_handle_order:
  assumes "session s fd = Some ss"
  shows "T (handle_order fd cmd s) = handle_order fd cmd (T s)"
  using T_require [OF assms, of "cmd_type cmd"] assms
  by (simp add: handle_order_def case_prod_unfold Let_def T_parts T_publish_all T_send T_book)

lemma T_handle_cancel:
  assumes "session s fd = Some ss"
  shows "T (handle_cancel fd cmd s) = handle_cancel fd cmd (T s)"
  using T_require [OF assms, of "cmd_type cmd"] assms
  by (simp add: handle_cancel_def case_prod_unfold Let_def T_parts T_send T_book split: sum.split)

lemma T_handle_message:
  assumes "session s fd = Some ss"
  shows "T (handle_message fd line s) = handle_message fd line (T s)"
  by (simp add: handle_message_def Let_def T_send T_close T_handle_login [OF assms] T_handle_subscription [OF assms]
      T_handle_order [OF assms] T_handle_cancel [OF assms] split: CommandType.split)

end

section \<open>More input and another script\<close>

text \<open>Bytes arrive for a session, which takes no notice when it is being closed.\<close>

definition bump :: "string \<Rightarrow> ClientSession \<Rightarrow> ClientSession" where
  "bump ys ss = (if closing ss then ss else ss\<lparr>inbuf := inbuf ss @ ys\<rparr>)"

lemma bump_fields [simp]:
  "s_fd (bump ys ss) = s_fd ss" "role (bump ys ss) = role ss" "outbuf (bump ys ss) = outbuf ss" "out_start (bump ys ss) = out_start ss"
  "closing (bump ys ss) = closing ss" "backlogged (bump ys ss) = backlogged ss" "write_interest (bump ys ss) = write_interest ss"
  "read_interest (bump ys ss) = read_interest ss" "peer (bump ys ss) = peer ss" "username (bump ys ss) = username ss"
  "logged_in (bump ys ss) = logged_in ss" "subscriptions (bump ys ss) = subscriptions ss"
  by (simp_all add: bump_def)

lemma bump_views [simp]:
  "pending_bytes (bump ys ss) = pending_bytes ss" "has_pending_output (bump ys ss) = has_pending_output ss"
  "pending (bump ys ss) = pending ss" "session_label (bump ys ss) = session_label ss"
  by (simp_all add: pending_bytes_def has_pending_output_def pending_def session_label_def Let_def)

lemma bump_nil [simp]: "bump [] ss = ss"
  by (simp add: bump_def)

text \<open>The sessions seen through \<open>g\<close>, and the script of reads through \<open>f\<close>.\<close>

definition view :: "int \<Rightarrow> string \<Rightarrow> int \<Rightarrow> ClientSession \<Rightarrow> ClientSession" where
  "view fd0 ys fd ss = (if fd = fd0 then bump ys ss else ss)"

definition shift_kern :: "((int \<Rightarrow> recv_result list) \<Rightarrow> int \<Rightarrow> recv_result list) \<Rightarrow> Kernel \<Rightarrow> Kernel" where
  "shift_kern f k = k\<lparr>recv_script := f (recv_script k)\<rparr>"

fun views :: "int \<Rightarrow> string \<Rightarrow> (int \<times> ClientSession) list \<Rightarrow> (int \<times> ClientSession) list" where
  "views fd0 ys [] = []"
| "views fd0 ys ((fd, ss) # al) = (if fd = fd0 then (fd, bump ys ss) # al else (fd, ss) # views fd0 ys al)"

definition shift :: "int \<Rightarrow> string \<Rightarrow> ((int \<Rightarrow> recv_result list) \<Rightarrow> int \<Rightarrow> recv_result list) \<Rightarrow> Server \<Rightarrow> Server" where
  "shift fd0 ys f s = s\<lparr>sessions := views fd0 ys (sessions s), kern := shift_kern f (kern s)\<rparr>"

lemma view_fields [simp]:
  "s_fd (view fd0 ys fd ss) = s_fd ss" "role (view fd0 ys fd ss) = role ss" "outbuf (view fd0 ys fd ss) = outbuf ss"
  "out_start (view fd0 ys fd ss) = out_start ss" "closing (view fd0 ys fd ss) = closing ss"
  "backlogged (view fd0 ys fd ss) = backlogged ss" "write_interest (view fd0 ys fd ss) = write_interest ss"
  "read_interest (view fd0 ys fd ss) = read_interest ss" "peer (view fd0 ys fd ss) = peer ss" "username (view fd0 ys fd ss) = username ss"
  "logged_in (view fd0 ys fd ss) = logged_in ss" "subscriptions (view fd0 ys fd ss) = subscriptions ss"
  "pending_bytes (view fd0 ys fd ss) = pending_bytes ss" "has_pending_output (view fd0 ys fd ss) = has_pending_output ss"
  "pending (view fd0 ys fd ss) = pending ss" "session_label (view fd0 ys fd ss) = session_label ss"
  by (simp_all add: view_def)

lemma view_updates [simp]:
  "view fd0 ys fd (ss\<lparr>out_start := n\<rparr>) = (view fd0 ys fd ss)\<lparr>out_start := n\<rparr>"
  "view fd0 ys fd (ss\<lparr>outbuf := b\<rparr>) = (view fd0 ys fd ss)\<lparr>outbuf := b\<rparr>"
  "view fd0 ys fd (ss\<lparr>backlogged := x\<rparr>) = (view fd0 ys fd ss)\<lparr>backlogged := x\<rparr>"
  "view fd0 ys fd (ss\<lparr>read_interest := x\<rparr>) = (view fd0 ys fd ss)\<lparr>read_interest := x\<rparr>"
  "view fd0 ys fd (ss\<lparr>write_interest := x\<rparr>) = (view fd0 ys fd ss)\<lparr>write_interest := x\<rparr>"
  "view fd0 ys fd (ss\<lparr>role := r\<rparr>) = (view fd0 ys fd ss)\<lparr>role := r\<rparr>"
  "view fd0 ys fd (ss\<lparr>username := u\<rparr>) = (view fd0 ys fd ss)\<lparr>username := u\<rparr>"
  "view fd0 ys fd (ss\<lparr>logged_in := x\<rparr>) = (view fd0 ys fd ss)\<lparr>logged_in := x\<rparr>"
  "view fd0 ys fd (ss\<lparr>subscriptions := l\<rparr>) = (view fd0 ys fd ss)\<lparr>subscriptions := l\<rparr>"
  by (simp_all add: view_def bump_def)

lemma view_close [simp]: "view fd0 ys fd (ss\<lparr>closing := True, inbuf := []\<rparr>) = (view fd0 ys fd ss)\<lparr>closing := True, inbuf := []\<rparr>"
  by (simp add: view_def bump_def)

lemma view_self [simp]: "view fd ys fd ss = bump ys ss"
  by (simp add: view_def)

lemma views_absent: "fd0 \<notin> fst ` set al \<Longrightarrow> views fd0 ys al = al"
  by (induction al) auto

lemma view_other: "fd \<noteq> fd0 \<Longrightarrow> view fd0 ys fd = (\<lambda>ss. ss)"
  by (simp add: view_def fun_eq_iff)

lemma views_delete_own: "AList.delete fd (views fd ys al) = AList.delete fd al"
  by (induction al) (auto simp: AList.delete_eq)

lemma views_delete [simp]: "views fd0 ys (AList.delete fd al) = AList.delete fd (views fd0 ys al)"
proof (cases "fd = fd0")
  case True
  have "views fd ys (AList.delete fd al) = AList.delete fd al" by (rule views_absent) (auto simp: AList.delete_eq)
  with True show ?thesis by (simp add: views_delete_own)
next
  case False
  then show ?thesis by (induction al) (auto simp: AList.delete_eq)
qed

lemma views_simps [simp]:
  "map_of (views fd0 ys al) fd = map_option (view fd0 ys fd) (map_of al fd)"
  "views fd0 ys (AList.update fd ss al) = AList.update fd (view fd0 ys fd ss) (views fd0 ys al)"
  "length (views fd0 ys al) = length al"
  by (induction al) (auto simp: view_other option.map_ident)

lemma views_update: "map_of al fd = Some ss \<Longrightarrow> views fd ys al = AList.update fd (bump ys ss) al"
  by (induction al) auto

lemma views_nil [simp]: "views fd0 [] al = al"
  by (induction al) auto

lemma shift_fields [simp]:
  "listener (shift fd0 ys f s) = listener s" "event_loop (shift fd0 ys f s) = event_loop s" "verbose (shift fd0 ys f s) = verbose s"
  "subscribers (shift fd0 ys f s) = subscribers s" "usernames (shift fd0 ys f s) = usernames s" "closed_fds (shift fd0 ys f s) = closed_fds s"
  "book (shift fd0 ys f s) = book s" "console (shift fd0 ys f s) = console s" "kern (shift fd0 ys f s) = shift_kern f (kern s)"
  "sessions (shift fd0 ys f s) = views fd0 ys (sessions s)"
  by (simp_all add: shift_def)

lemma shift_updates [simp]:
  "shift fd0 ys f (s\<lparr>sessions := al\<rparr>) = (shift fd0 ys f s)\<lparr>sessions := views fd0 ys al\<rparr>"
  "shift fd0 ys f (s\<lparr>kern := k\<rparr>) = (shift fd0 ys f s)\<lparr>kern := shift_kern f k\<rparr>"
  "shift fd0 ys f (s\<lparr>subscribers := x1\<rparr>) = (shift fd0 ys f s)\<lparr>subscribers := x1\<rparr>"
  "shift fd0 ys f (s\<lparr>usernames := x2\<rparr>) = (shift fd0 ys f s)\<lparr>usernames := x2\<rparr>"
  "shift fd0 ys f (s\<lparr>book := x3\<rparr>) = (shift fd0 ys f s)\<lparr>book := x3\<rparr>"
  "shift fd0 ys f (s\<lparr>console := x4\<rparr>) = (shift fd0 ys f s)\<lparr>console := x4\<rparr>"
  "shift fd0 ys f (s\<lparr>event_loop := x5\<rparr>) = (shift fd0 ys f s)\<lparr>event_loop := x5\<rparr>"
  "shift fd0 ys f (s\<lparr>closed_fds := x6\<rparr>) = (shift fd0 ys f s)\<lparr>closed_fds := x6\<rparr>"
  by (simp_all add: shift_def)

lemma shift_kern_fields [simp]:
  "strerror (shift_kern f k) = strerror k" "hash_order (shift_kern f k) = hash_order k" "send_script (shift_kern f k) = send_script k"
  "wire (shift_kern f k) = wire k"
  by (simp_all add: shift_kern_def)

lemma shift_say [simp]: "shift fd0 ys f (say line s) = say line (shift fd0 ys f s)"
  by (simp add: say_def)

lemma shift_log [simp]: "shift fd0 ys f (log_connection_count m n s) = log_connection_count m n (shift fd0 ys f s)"
  by (simp add: log_connection_count_def Let_def)

lemma log_fields [simp]:
  "sessions (log_connection_count m n s) = sessions s" "event_loop (log_connection_count m n s) = event_loop s"
  "closed_fds (log_connection_count m n s) = closed_fds s"
  by (simp_all add: log_connection_count_def say_def Let_def)

lemma shift_drop: "shift fd0 ys f (drop_fd fd reason s) = drop_fd fd reason (shift fd0 ys f s)"
proof (cases "session s fd")
  case None
  then show ?thesis by (simp add: drop_fd_def)
next
  case (Some ss)
  then show ?thesis by (simp add: drop_fd_def Let_def)
qed

lemma shift_sys_send: "sys_send fd bs (shift_kern f k) = map_prod id (shift_kern f) (sys_send fd bs k)"
  by (simp add: sys_send_def shift_kern_def Let_def split: list.split send_result.split)

lemma shift_write_pending:
  "write_pending (view fd0 ys fd ss) (shift_kern f k) =
     (case write_pending ss k of (st, ss', k') \<Rightarrow> (st, view fd0 ys fd ss', shift_kern f k'))"
proof (induction ss k rule: write_pending.induct)
  case (1 ss k)
  define r where "r = sys_send (s_fd ss) (pending ss) k"
  have r': "sys_send (s_fd (view fd0 ys fd ss)) (pending (view fd0 ys fd ss)) (shift_kern f k) = (fst r, shift_kern f (snd r))"
    by (simp add: shift_sys_send r_def map_prod_def case_prod_unfold)
  note form = write_pending.simps [of ss k, unfolded Let_def, folded r_def]
    write_pending.simps [of "view fd0 ys fd ss" "shift_kern f k", unfolded Let_def r' fst_conv snd_conv]
  show ?case
  proof (cases "has_pending_output ss")
    case False
    then show ?thesis by (simp add: form)
  next
    case True
    note IH = 1 [OF _ r_def refl, simplified True]
    show ?thesis
    proof (cases "fst r")
      case (Written n)
      then show ?thesis using IH(1) [OF _ Written] True by (simp add: form)
    next
      case (SendError e)
      then show ?thesis using IH(2) [OF _ SendError] True by (simp add: form)
    qed
  qed
qed

lemma view_reclaim: "reclaim (view fd0 ys fd ss) = view fd0 ys fd (reclaim ss)"
  by (simp add: reclaim_def)

lemma shift_note_backlog:
  "note_backlog (view fd0 ys fd ss) (shift fd0 ys f s) = map_prod (view fd0 ys fd) (shift fd0 ys f) (note_backlog ss s)"
  by (simp add: note_backlog_def Let_def)

lemma shift_flush: "shift fd0 ys f (flush fd ss s) = flush fd (view fd0 ys fd ss) (shift fd0 ys f s)"
proof -
  obtain st ss1 k1 where w: "write_pending ss (kern s) = (st, ss1, k1)" by (metis surj_pair)
  have w': "write_pending (view fd0 ys fd ss) (shift_kern f (kern s)) = (st, view fd0 ys fd ss1, shift_kern f k1)"
    by (simp add: shift_write_pending w)
  obtain ss2 s2 where b: "note_backlog (reclaim ss1) (s\<lparr>kern := k1\<rparr>) = (ss2, s2)" by fastforce
  have b': "note_backlog (view fd0 ys fd (reclaim ss1)) ((shift fd0 ys f s)\<lparr>kern := shift_kern f k1\<rparr>) = (view fd0 ys fd ss2, shift fd0 ys f s2)"
    using shift_note_backlog [of fd0 ys fd "reclaim ss1" f "s\<lparr>kern := k1\<rparr>"] by (simp add: b)
  show ?thesis
  proof (cases st)
    case (Gone e)
    then show ?thesis by (simp add: flush_def w w' shift_drop)
  next
    case Flushed
    then show ?thesis by (simp add: flush_def w w' Let_def b b' view_reclaim shift_drop)
  qed
qed

lemma shift_send: "shift fd0 ys f (send_to fd m s) = send_to fd m (shift fd0 ys f s)"
  by (simp add: send_to_def shift_flush split: option.split)

lemma shift_shutdown: "shift_kern f (sys_shutdown fd how k) = sys_shutdown fd how (shift_kern f k)"
  by (simp add: shift_kern_def sys_shutdown_def)

lemma pending_closing [simp]: "has_pending_output (ss\<lparr>closing := x, inbuf := b\<rparr>) = has_pending_output ss"
  by (simp add: has_pending_output_def pending_bytes_def)

lemma shift_close: "shift fd0 ys f (begin_orderly_close fd reason s) = begin_orderly_close fd reason (shift fd0 ys f s)"
  by (simp add: begin_orderly_close_def Let_def shift_drop shift_shutdown split: option.split)

interpretation wi: server_commutes "shift fd0 ys f" for fd0 ys f
  by unfold_locales
    (auto simp: shift_send shift_close register_login_def add_subscription_def remove_subscription_def)

section \<open>Consuming input in pieces\<close>

lemma shift_take_message:
  assumes ss: "session s fd = Some ss" "\<not> closing ss" and n: "str_find LF (inbuf ss) = Some n"
  shows "take_message fd (view fd ys fd ss) n (shift fd ys f s) = shift fd ys f (take_message fd ss n s)"
proof -
  define s1 where "s1 = put_session fd (ss\<lparr>inbuf := drop (n + 1) (inbuf ss)\<rparr>) s"
  define line where "line = strip_cr (take n (inbuf ss))"
  define s2 where "s2 = (if verbose s1 then say (''[msg ] '' @ c_str (session_label ss) @ '': complete message '' @ c_str ([CHR 0x22] @ line @ [CHR 0x22])) s1 else s1)"
  have len: "n < length (inbuf ss)" using str_find_Some [OF n] by simp
  have "view fd ys fd (ss\<lparr>inbuf := drop (n + 1) (inbuf ss)\<rparr>) = (view fd ys fd ss)\<lparr>inbuf := drop (n + 1) (inbuf (view fd ys fd ss))\<rparr>"
    using len ss(2) by (simp add: view_def bump_def)
  then have s1: "shift fd ys f s1 = put_session fd ((view fd ys fd ss)\<lparr>inbuf := drop (n + 1) (inbuf (view fd ys fd ss))\<rparr>) (shift fd ys f s)"
    by (simp add: s1_def)
  have line: "strip_cr (take n (inbuf (view fd ys fd ss))) = line" using len ss(2) by (simp add: view_def bump_def line_def)
  have s2: "shift fd ys f s2 = (if verbose (shift fd ys f s1) then say (''[msg ] '' @ c_str (session_label (view fd ys fd ss)) @ '': complete message '' @
      c_str ([CHR 0x22] @ line @ [CHR 0x22])) (shift fd ys f s1) else shift fd ys f s1)"
    by (simp add: s2_def)
  have live: "session s2 fd = Some (ss\<lparr>inbuf := drop (n + 1) (inbuf ss)\<rparr>)" by (simp add: s2_def s1_def say_def)
  have "take_message fd ss n s = handle_message fd line s2"
    unfolding take_message_def Let_def s1_def [symmetric] line_def [symmetric] s2_def [symmetric] ..
  moreover have "take_message fd (view fd ys fd ss) n (shift fd ys f s) = handle_message fd line (shift fd ys f s2)"
    unfolding take_message_def Let_def line s1 [symmetric] s2 [symmetric] ..
  ultimately show ?thesis using wi.T_handle_message [OF live] by simp
qed

text \<open>A shift that leaves the sessions alone.\<close>

lemma view_nil [simp]: "view fd0 [] fd ss = ss"
  by (simp add: view_def)

lemma take_message_script:
  assumes "session s fd = Some ss"
  shows "take_message fd ss n (shift fd0 [] f s) = shift fd0 [] f (take_message fd ss n s)"
proof -
  define s1 where "s1 = put_session fd (ss\<lparr>inbuf := drop (n + 1) (inbuf ss)\<rparr>) s"
  define line where "line = strip_cr (take n (inbuf ss))"
  define s2 where "s2 = (if verbose s1 then say (''[msg ] '' @ c_str (session_label ss) @ '': complete message '' @ c_str ([CHR 0x22] @ line @ [CHR 0x22])) s1 else s1)"
  have s1: "shift fd0 [] f s1 = put_session fd (ss\<lparr>inbuf := drop (n + 1) (inbuf ss)\<rparr>) (shift fd0 [] f s)" by (simp add: s1_def)
  have s2: "shift fd0 [] f s2 = (if verbose (shift fd0 [] f s1) then say (''[msg ] '' @ c_str (session_label ss) @ '': complete message '' @
      c_str ([CHR 0x22] @ line @ [CHR 0x22])) (shift fd0 [] f s1) else shift fd0 [] f s1)"
    by (simp add: s2_def)
  have live: "session s2 fd = Some (ss\<lparr>inbuf := drop (n + 1) (inbuf ss)\<rparr>)" by (simp add: s2_def s1_def say_def)
  have "take_message fd ss n s = handle_message fd line s2"
    unfolding take_message_def Let_def s1_def [symmetric] line_def [symmetric] s2_def [symmetric] ..
  moreover have "take_message fd ss n (shift fd0 [] f s) = handle_message fd line (shift fd0 [] f s2)"
    unfolding take_message_def Let_def line_def [symmetric] s1 [symmetric] s2 [symmetric] ..
  ultimately show ?thesis using wi.T_handle_message [OF live] by simp
qed

lemma consume_script: "consume_messages fd (shift fd0 [] f s) = map_prod id (shift fd0 [] f) (consume_messages fd s)"
proof (induction fd s rule: consume_messages.induct)
  case (1 fd s)
  show ?case
  proof (cases "session s fd")
    case None
    then show ?thesis by (simp add: consume_messages.simps [of fd])
  next
    case ss: (Some ss)
    show ?thesis
    proof (cases "str_find LF (inbuf ss)")
      case None
      with ss show ?thesis
        by (simp add: consume_messages.simps [of fd] Let_def shift_close shift_send del: str_find_None)
    next
      case (Some n)
      then show ?thesis
        using ss 1 [OF ss Some refl] take_message_script [OF ss, of n fd0 f]
        by (subst (1 2) consume_messages.simps) (auto simp: Let_def id_def option.map_ident split: option.split)
    qed
  qed
qed

text \<open>Whether a session is there and not being closed.\<close>

definition live :: "int \<Rightarrow> Server \<Rightarrow> bool" where
  "live fd s \<longleftrightarrow> (\<exists>ss. session s fd = Some ss \<and> \<not> closing ss)"

lemma consume_more:
  assumes "session s fd = Some ss" and "\<not> closing ss" and "length (inbuf ss) \<le> kMaxLineBytes"
    and "consume_messages fd s = (go, t)"
  shows "snd (consume_messages fd (shift fd ys f s)) =
    (if live fd t then snd (consume_messages fd (shift fd ys f t)) else shift fd ys f t)"
  using assms
proof (induction fd s arbitrary: ss go t rule: consume_messages.induct)
  case (1 fd s)
  show ?case
  proof (cases "str_find LF (inbuf ss)")
    case None
    then have "t = s" using 1(2,4,5) by (subst (asm) consume_messages.simps) (simp del: str_find_None)
    with 1(2,3) show ?thesis by (simp add: live_def)
  next
    case (Some n)
    let ?t = "take_message fd ss n s"
    have find: "str_find LF (inbuf (view fd ys fd ss)) = Some n"
      using str_find_append_left [OF Some] 1(3) by (simp add: view_def bump_def)
    have step: "consume_messages fd (shift fd ys f s) =
        (case session (shift fd ys f ?t) fd of None \<Rightarrow> (False, shift fd ys f ?t)
         | Some ss' \<Rightarrow> if closing ss' then (True, shift fd ys f ?t) else consume_messages fd (shift fd ys f ?t))"
      using 1(2) find shift_take_message [OF 1(2,3) Some, of ys f] by (subst consume_messages.simps) (simp add: Let_def)
    have own: "(case session ?t fd of None \<Rightarrow> (False, ?t) | Some ss' \<Rightarrow> if closing ss' then (True, ?t) else consume_messages fd ?t) = (go, t)"
      using 1(2,5) Some by (subst (asm) consume_messages.simps) (simp add: Let_def)
    show ?thesis
    proof (cases "session ?t fd")
      case None
      with own step show ?thesis by (simp add: live_def)
    next
      case ss': (Some ss')
      show ?thesis
      proof (cases "closing ss'")
        case True
        with own step ss' show ?thesis by (simp add: live_def)
      next
        case False
        have "suffix (inbuf ss') (inbuf ss)"
          using sh.R_take_message [OF 1(2), of n] ss' 1(2) unfolding shrinks_def by fastforce
        then have "length (inbuf ss') \<le> kMaxLineBytes" using 1(4) suffix_length_le by fastforce
        with 1(1) [OF 1(2) Some refl ss' False ss' False] own step ss' False show ?thesis by simp
      qed
    qed
  qed
qed

section \<open>Reading in pieces\<close>

text \<open>The bytes that arrive next for a client.\<close>

definition with_script :: "int \<Rightarrow> recv_result list \<Rightarrow> Server \<Rightarrow> Server" where
  "with_script fd rs s = s\<lparr>kern := (kern s)\<lparr>recv_script := (recv_script (kern s))(fd := rs)\<rparr>\<rparr>"

lemma with_script_shift: "with_script fd rs = shift fd0 [] (\<lambda>sc. sc(fd := rs))"
  by (rule ext) (simp add: with_script_def shift_def shift_kern_def)

lemma with_script_again [simp]: "with_script fd rs (with_script fd rs' s) = with_script fd rs s"
  by (simp add: with_script_def)

lemma with_script_fields [simp]: "sessions (with_script fd rs s) = sessions s" "verbose (with_script fd rs s) = verbose s"
  by (simp_all add: with_script_def)

lemma consume_with_script: "consume_messages fd (with_script fd rs s) = map_prod id (with_script fd rs) (consume_messages fd s)"
  by (simp add: with_script_shift [of fd rs fd] consume_script)

text \<open>What the server makes of bytes that have arrived.\<close>

definition feed :: "int \<Rightarrow> string \<Rightarrow> Server \<Rightarrow> Server" where
  "feed fd bs s = (if live fd s then snd (consume_messages fd (shift fd bs (\<lambda>sc. sc) s)) else s)"

lemma live_with_script [simp]: "live fd (with_script fd' rs s) = live fd s"
  by (simp add: live_def)

lemma feed_with_script: "feed fd bs (with_script fd rs s) = with_script fd rs (feed fd bs s)"
proof -
  have "shift fd bs (\<lambda>sc. sc) (with_script fd rs s) = with_script fd rs (shift fd bs (\<lambda>sc. sc) s)"
    by (simp add: with_script_def shift_def shift_kern_def)
  then show ?thesis
    by (simp add: feed_def consume_with_script)
qed

lemma on_readable_data:
  assumes "\<not> verbose s" and "bs \<noteq> []" and "length bs < kReadChunk"
    and "live fd s"
  shows "on_readable fd (with_script fd (Data bs # rs) s) = with_script fd rs (feed fd bs s)"
proof -
  obtain ss where ss: "session s fd = Some ss" "\<not> closing ss" using assms(4) by (auto simp: live_def)
  have "receive_bytes fd ss bs (with_script fd rs s) = with_script fd rs (shift fd bs (\<lambda>sc. sc) s)"
    using ss assms(1) by (simp add: receive_bytes_def with_script_def shift_def shift_kern_def views_update bump_def)
  moreover have "sys_recv fd kReadChunk (kern (with_script fd (Data bs # rs) s)) = (Data bs, kern (with_script fd rs s))"
    using assms(3) by (simp add: sys_recv_def with_script_def)
  moreover have "(with_script fd (Data bs # rs) s)\<lparr>kern := kern (with_script fd rs s)\<rparr> = with_script fd rs s"
    by (simp add: with_script_def)
  ultimately show ?thesis
    using ss assms
    by (subst on_readable.simps) (simp add: Let_def feed_def consume_with_script)
qed

lemma on_readable_dead: "\<not> live fd s \<Longrightarrow> on_readable fd s = s"
  by (subst on_readable.simps) (auto simp: live_def split: option.split)

lemma shift_dead: "\<not> live fd s \<Longrightarrow> shift fd ys (\<lambda>sc. sc) s = s"
  by (cases "session s fd")
    (auto simp: shift_def shift_kern_def live_def views_update bump_def update_triv views_absent map_of_eq_None_iff)

lemma feed_append:
  assumes "\<And>ss. session s fd = Some ss \<Longrightarrow> length (inbuf ss) + length xs \<le> kMaxLineBytes"
  shows "feed fd (xs @ ys) s = feed fd ys (feed fd xs s)"
proof (cases "live fd s")
  case False
  then show ?thesis by (simp add: feed_def)
next
  case True
  then obtain ss where ss: "session s fd = Some ss" "\<not> closing ss" by (auto simp: live_def)
  let ?s = "shift fd xs (\<lambda>sc. sc) s"
  obtain go t where c: "consume_messages fd ?s = (go, t)" by fastforce
  have "shift fd (xs @ ys) (\<lambda>sc. sc) s = shift fd ys (\<lambda>sc. sc) ?s"
    using ss by (simp add: shift_def shift_kern_def views_update bump_def)
  moreover have "session ?s fd = Some (bump xs ss)" using ss by simp
  moreover have "length (inbuf (bump xs ss)) \<le> kMaxLineBytes" using ss assms by (simp add: bump_def)
  ultimately have "snd (consume_messages fd (shift fd (xs @ ys) (\<lambda>sc. sc) s)) =
      (if live fd t then snd (consume_messages fd (shift fd ys (\<lambda>sc. sc) t)) else shift fd ys (\<lambda>sc. sc) t)"
    using consume_more [OF _ _ _ c, of "bump xs ss" ys "\<lambda>sc. sc"] ss by simp
  moreover have "shift fd ys (\<lambda>sc. sc) t = t" if "\<not> live fd t"
    using that shift_dead by blast
  ultimately show ?thesis using True c by (simp add: feed_def)
qed

lemma feed_verbose [simp]: "verbose (feed fd bs s) = verbose s"
  using cf.R_consume_messages [of "shift fd bs (\<lambda>sc. sc) s" fd]
  by (simp add: feed_def same_fixed_def fixed_part_def)

lemma feed_concat:
  assumes "css \<noteq> []" and "\<And>ss. session s fd = Some ss \<Longrightarrow> length (inbuf ss) + length (concat (butlast css)) \<le> kMaxLineBytes"
  shows "fold (feed fd) css s = feed fd (concat css) s"
  using assms
proof (induction css rule: rev_nonempty_induct)
  case (snoc c css)
  have "length (concat (butlast css)) \<le> length (concat css)"
    using snoc(1) by (metis append_butlast_last_id concat_append length_append le_add1)
  then have "fold (feed fd) css s = feed fd (concat css) s"
    using snoc(3) by (intro snoc(2)) fastforce
  moreover have "feed fd (concat css @ c) s = feed fd c (feed fd (concat css) s)"
    using snoc(3) by (intro feed_append) simp
  ultimately show ?case by simp
qed simp

lemma on_readable_each:
  assumes "\<not> verbose s" and "\<And>c. c \<in> set css \<Longrightarrow> c \<noteq> [] \<and> length c < kReadChunk"
  shows "with_script fd rs' ((on_readable fd ^^ length css) (with_script fd (map Data css @ rs) s)) = with_script fd rs' (fold (feed fd) css s)"
  using assms
proof (induction css arbitrary: s)
  case (Cons c css)
  show ?case
  proof (cases "live fd s")
    case True
    then show ?thesis using Cons on_readable_data [of s c fd] by (simp add: funpow_swap1)
  next
    case False
    have "(on_readable fd ^^ n) (with_script fd rs s) = with_script fd rs s" for n rs
      using False by (induction n) (simp_all add: on_readable_dead)
    moreover have "fold (feed fd) cs s = s" for cs using False by (induction cs) (simp_all add: feed_def)
    ultimately show ?thesis by (simp only: with_script_again)
  qed
qed simp

text \<open>C19: how the bytes of a client arrive makes no difference: a stream delivered in pieces over as many
  wake-ups leaves the server (sessions, book, output, descriptors, console) as one delivery of all of it does, as long as
  the pieces before the last stay within the line limit, all of them together fit one read, and the debug log, which records
  every read, is off. Only what of the script is left unread once the
  connection is gone may differ.\<close>

theorem server_chunks:
  assumes "\<not> verbose s" and "session s fd = Some ss" and "css \<noteq> []" and "[] \<notin> set css"
    and "length (inbuf ss) + length (concat (butlast css)) \<le> kMaxLineBytes" and "length (concat css) < kReadChunk"
  shows "with_script fd rs ((on_readable fd ^^ length css) (with_script fd (map Data css @ rs) s)) =
    with_script fd rs (on_readable fd (with_script fd (Data (concat css) # rs) s))"
proof -
  have each: "c \<noteq> [] \<and> length c < kReadChunk" if "c \<in> set css" for c
  proof -
    from that obtain pre post where "css = pre @ c # post" by (meson split_list)
    with assms(4,6) show ?thesis by auto
  qed
  have "concat css \<noteq> []" using assms(3,4) by (cases css) auto
  then have "with_script fd rs (on_readable fd (with_script fd (Data (concat css) # rs) s)) = with_script fd rs (feed fd (concat css) s)"
    using on_readable_each [of s "[concat css]" fd rs rs] assms(1,6) by simp
  also have "\<dots> = with_script fd rs (fold (feed fd) css s)" using feed_concat [OF assms(3), of s fd] assms(2,5) by simp
  also have "\<dots> = with_script fd rs ((on_readable fd ^^ length css) (with_script fd (map Data css @ rs) s))"
    using on_readable_each [OF assms(1) each] by simp
  finally show ?thesis ..
qed

lemma demo_market_bob: "session demo_market 5 = Some ((new_session 5)\<lparr>role := ROLE_TRADER, username := ''bob'', logged_in := True\<rparr>)"
  "\<not> verbose demo_market"
  by (simp_all add: demo_market_def demo_floor_def new_exchange_def)

theorem server_chunks_witness:
  "with_script 5 [] ((on_readable 5 ^^ 2) (with_script 5 [Data ''BUY JN'', Data (''ST 4 100'' @ [LF])] demo_market)) =
   with_script 5 [] (on_readable 5 (with_script 5 [Data (''BUY JNST 4 100'' @ [LF])] demo_market))"
  using server_chunks [OF demo_market_bob(2,1), of "[''BUY JN'', ''ST 4 100'' @ [LF]]" "[]"]
  by (simp add: new_session_def kMaxLineBytes_def kReadChunk_def numeral_2_eq_2)

end
