(* ===== verification/Server_Refinement.thy ===== *)
theory Server_Refinement
  imports Exchange_Spec Server_Framing
begin

text \<open>
  The server implements the abstract exchange of \<open>Exchange_Spec\<close>. \<open>exchange_of\<close> forgets connections, buffers, registries and the
  layout of the book. Sending, closing and dropping are departures (\<open>departs\<close>) and nothing else, each of them with a
  reason (\<open>losses_explained\<close>); each handler has the effect \<open>obey\<close> gives its command and tells everybody what \<open>obey\<close>
  says (\<open>obeyed\<close>, \<open>answered\<close>); a line, the lines of a read and
  whole histories follow (\<open>obeys\<close>, and \<open>ex\<close>, an interpretation of \<open>message_invariant\<close>).
\<close>

section \<open>The exchange a server runs\<close>

definition member_of :: "ClientSession \<Rightarrow> member" where
  "member_of ss =
     (case role ss of
        ROLE_UNKNOWN \<Rightarrow> Newcomer
      | ROLE_TRADER \<Rightarrow> Trader (username ss)
      | ROLE_MARKET_DATA \<Rightarrow> Watcher (set (subscriptions ss)))"

definition exchange_of :: "Server \<Rightarrow> Exchange" where
  "exchange_of s = \<lparr>members = (\<lambda>fd. map_option member_of (session s fd)), orders = abs_book (book s)\<rparr>"

lemma exchange_of_fields [simp]:
  "members (exchange_of s) fd = map_option member_of (session s fd)" "orders (exchange_of s) = abs_book (book s)"
  by (simp_all add: exchange_of_def)

lemma exchange_of_cong: "sessions t = sessions s \<Longrightarrow> book t = book s \<Longrightarrow> exchange_of t = exchange_of s"
  by (simp add: exchange_of_def)

lemma exchange_of_put:
  "sessions t = AList.update fd ss (sessions s) \<Longrightarrow> book t = book s \<Longrightarrow> exchange_of t = enrol fd (member_of ss) (exchange_of s)"
  by (simp add: exchange_of_def enrol_def fun_eq_iff)

lemma exchange_of_same:
  assumes "session s fd = Some ss" and "member_of ss' = member_of ss"
    and "sessions t = AList.update fd ss' (sessions s)" and "book t = book s"
  shows "exchange_of t = exchange_of s"
  using assms by (simp add: exchange_of_def fun_eq_iff)

lemma same_client_member: "same_client ss ss' \<Longrightarrow> member_of ss' = member_of ss"
  by (cases "role ss") (simp_all add: same_client_def member_of_def)

lemma registry_book: "registry_inv base s \<Longrightarrow> book_inv (book s)"
  by (simp add: registry_inv_def reg_ok_def orders_ok_def)

lemma registry_ident: "registry_inv base s \<Longrightarrow> session s fd = Some ss \<Longrightarrow> ident_ok (ident_of ss)"
  by (auto simp: registry_inv_def reg_ok_def idents_def)

lemma taken_iff:
  assumes "registry_inv base s"
  shows "taken user (exchange_of s) \<longleftrightarrow> user \<in> set (usernames s)"
proof -
  have "set (usernames s) = ran (names (idents s))" using assms by (simp add: registry_inv_def reg_ok_def users_ok_def)
  moreover have "names (idents s) fd = Some user \<longleftrightarrow> map_option member_of (session s fd) = Some (Trader user)" for fd
  proof (cases "session s fd")
    case (Some ss)
    with registry_ident [OF assms Some] show ?thesis
      by (cases "role ss") (simp_all add: names_def idents_def member_of_def ident_ok_def)
  qed (simp add: names_def idents_def)
  ultimately show ?thesis by (simp add: taken_def ran_def exchange_of_def)
qed

section \<open>Departures\<close>

text \<open>\<open>t\<close> runs the exchange \<open>x\<close> after the departure of some members.\<close>

definition departs :: "Exchange \<Rightarrow> Server \<Rightarrow> bool" where
  "departs x t \<longleftrightarrow> (\<exists>ds. exchange_run x (map Left ds) (\<lambda>_. []) (exchange_of t))"

lemma departs_refl: "exchange_of t = x \<Longrightarrow> departs x t"
  unfolding departs_def by (metis exchange_run.idle list.map(1))

lemma departs_trans:
  assumes "departs x s" and "departs (exchange_of s) t"
  shows "departs x t"
proof -
  obtain ds ds' where "exchange_run x (map Left ds) (\<lambda>_. []) (exchange_of s)" "exchange_run (exchange_of s) (map Left ds') (\<lambda>_. []) (exchange_of t)"
    using assms by (auto simp: departs_def)
  then have "exchange_run x (map Left (ds @ ds')) (\<lambda>_. []) (exchange_of t)" using exchange_run_append by fastforce
  then show ?thesis unfolding departs_def by blast
qed

lemma departs_drop:
  assumes "book_inv (book s)"
  shows "departs (exchange_of s) (drop_fd fd reason s)"
proof (cases "session s fd")
  case None
  then show ?thesis by (simp add: drop_fd_None departs_refl)
next
  case (Some ss)
  have "exchange_of (drop_fd fd reason s) = leave fd (exchange_of s)"
    by (simp add: exchange_of_def leave_def drop_fd_fields [OF Some] fun_eq_iff remove_orders_of_abs [OF assms])
  moreover have "exchange_run (exchange_of s) (map Left [fd]) (\<lambda>_. []) (leave fd (exchange_of s))"
    using run_left [of "exchange_of s" fd] Some by simp
  ultimately show ?thesis unfolding departs_def by metis
qed

lemma departs_drop_same:
  "book_inv (book s) \<Longrightarrow> exchange_of s = x \<Longrightarrow> departs x (drop_fd fd reason s)"
  using departs_drop by blast

lemma departs_send:
  assumes "registry_inv base s"
  shows "departs (exchange_of s) (send_to fd m s)"
proof (cases rule: send_to_cases [of s fd m])
  case absent
  then show ?thesis by (simp add: departs_refl)
next
  case (kept ss ss' k c l w)
  have "exchange_of (send_to fd m s) = exchange_of s"
    using kept(2) by (intro exchange_of_same [OF kept(1) same_client_member [OF kept(3)]]) simp_all
  then show ?thesis by (rule departs_refl)
next
  case (gone ss reason ss' k c w)
  let ?s = "put_session fd ss' (s\<lparr>kern := k, console := c\<rparr>)"
  have "exchange_of ?s = exchange_of s"
    by (intro exchange_of_same [OF gone(1) same_client_member [OF gone(3)]]) simp_all
  then show ?thesis unfolding gone(2) using registry_book [OF assms] by (intro departs_drop_same) simp_all
qed

lemma departs_close:
  assumes "registry_inv base s"
  shows "departs (exchange_of s) (begin_orderly_close fd reason s)"
proof (cases rule: begin_orderly_close_cases [of s fd reason])
  case absent
  then show ?thesis by (simp add: departs_refl)
next
  case (drained ss)
  let ?ss = "ss\<lparr>closing := True, inbuf := []\<rparr>"
  have "exchange_of (put_session fd ?ss s) = exchange_of s"
    by (rule exchange_of_same [OF drained(1), of ?ss]) (simp_all add: member_of_def cong: ClientRole.case_cong)
  then show ?thesis unfolding drained(3) using registry_book [OF assms] by (intro departs_drop_same) simp_all
next
  case (queued ss)
  let ?ss = "ss\<lparr>closing := True, inbuf := [], read_interest := False, write_interest := True\<rparr>"
  have "exchange_of (begin_orderly_close fd reason s) = exchange_of s"
    unfolding queued(3) by (rule exchange_of_same [OF queued(1), of ?ss]) (simp_all add: member_of_def cong: ClientRole.case_cong)
  then show ?thesis by (rule departs_refl)
qed

lemma departs_send_each:
  "registry_inv base s \<Longrightarrow> departs (exchange_of s) (fold (\<lambda>fd. send_to fd m) fds s)"
proof (induction fds arbitrary: s)
  case (Cons fd fds)
  from departs_trans [OF departs_send [OF Cons.prems] Cons.IH [OF registry_send [OF Cons.prems]]] show ?case by simp
qed (simp add: departs_refl)

lemma departs_publish:
  assumes "registry_inv base s"
  shows "departs (exchange_of s) (publish x s)"
proof -
  define s1 where "s1 = send_to (x_buyer_fd x) (bought (x_instrument x) (x_quantity x) (x_price x)) s"
  define s2 where "s2 = send_to (x_seller_fd x) (sold (x_instrument x) (x_quantity x) (x_price x)) s1"
  have inv: "registry_inv base s1" "registry_inv base s2" using assms by (simp_all add: s1_def s2_def registry_send)
  have "departs (exchange_of s) s1" "departs (exchange_of s1) s2"
    using departs_send [OF assms] departs_send [OF inv(1)] by (simp_all add: s1_def s2_def)
  then have "departs (exchange_of s) s2" by (rule departs_trans)
  moreover have "departs (exchange_of s2) (fold (\<lambda>fd. send_to fd m) fds s2)" for m fds
    by (rule departs_send_each [OF inv(2)])
  ultimately show ?thesis
    by (auto simp: publish_def Let_def s1_def [symmetric] s2_def [symmetric] split: option.split intro: departs_trans)
qed

lemma departs_publish_all:
  "registry_inv base s \<Longrightarrow> \<forall>x \<in> set xs. LF \<notin> set (x_instrument x) \<Longrightarrow> departs (exchange_of s) (publish_all fd xs s)"
proof (induction xs arbitrary: s)
  case (Cons x xs)
  have "departs (exchange_of s) (publish x s)" by (rule departs_publish [OF Cons.prems(1)])
  moreover have "departs (exchange_of (publish x s)) (publish_all fd xs (publish x s))"
    using Cons.prems publish_inv by (intro Cons.IH) simp_all
  ultimately show ?case by (auto simp: Let_def intro: departs_trans)
qed (simp add: departs_refl)

section \<open>What members are told\<close>

definition told :: "Server \<Rightarrow> (int \<Rightarrow> string) \<Rightarrow> Server \<Rightarrow> bool" where
  "told s out t \<longleftrightarrow>
     (\<forall>fd ss'. session t fd = Some ss' \<longrightarrow>
        (\<exists>ss. session s fd = Some ss \<and> wire (kern t) fd @ pending ss' = wire (kern s) fd @ pending ss @ out fd))"

lemma told_trans:
  assumes "told s m t" and "told t m' u"
  shows "told s (\<lambda>to. m to @ m' to) u"
  unfolding told_def
proof (intro allI impI)
  fix fd ss3 assume "session u fd = Some ss3"
  then obtain ss2 where 2: "session t fd = Some ss2"
      "wire (kern u) fd @ pending ss3 = (wire (kern t) fd @ pending ss2) @ m' fd"
    using assms(2) by (auto simp: told_def)
  then obtain ss1 where "session s fd = Some ss1" "wire (kern t) fd @ pending ss2 = wire (kern s) fd @ pending ss1 @ m fd"
    using assms(1) by (auto simp: told_def)
  with 2 show "\<exists>ss. session s fd = Some ss \<and> wire (kern u) fd @ pending ss3 = wire (kern s) fd @ pending ss @ m fd @ m' fd"
    by simp
qed

lemma told_refl: "told s (\<lambda>_. []) s"
  by (simp add: told_def)

lemma told_put:
  "session s fd = Some ss \<Longrightarrow> sessions t = AList.update fd ss' (sessions s) \<Longrightarrow> pending ss' = pending ss \<Longrightarrow>
     wire (kern t) = wire (kern s) \<Longrightarrow> told s (\<lambda>_. []) t"
  by (auto simp: told_def)

lemma told_send: "registry_inv base s \<Longrightarrow> told s (tell fd m) (send_to fd m s)"
  using deliveredD(1) [OF send_to_delivered [OF registry_sessions]] by (fastforce simp: told_def tell_def)

lemma told_close: "told s (\<lambda>_. []) (begin_orderly_close fd r s)"
proof (cases rule: begin_orderly_close_cases [of s fd r])
  case (drained ss)
  have "session (put_session fd (ss\<lparr>closing := True, inbuf := []\<rparr>) s) fd = Some (ss\<lparr>closing := True, inbuf := []\<rparr>)" by simp
  then show ?thesis using drained(1) by (auto simp: told_def drained(3) drop_fd_fields)
next
  case (queued ss)
  have "pending (ss\<lparr>closing := True, inbuf := [], read_interest := False, write_interest := True\<rparr>) = pending ss" by (simp add: pending_def)
  then show ?thesis using queued(1) by (auto simp: told_def queued(3) sys_shutdown_def)
qed (simp add: told_refl)

text \<open>Everybody who is gone is gone for a reason.\<close>

definition losses_explained :: "(int \<Rightarrow> bool) \<Rightarrow> Server \<Rightarrow> (int \<Rightarrow> string) \<Rightarrow> Server \<Rightarrow> bool" where
  "losses_explained leaving s out t \<longleftrightarrow>
     (\<forall>fd ss. session s fd = Some ss \<and> session t fd = None \<longrightarrow> lost fd (closing ss \<or> leaving fd) ss (out fd) (kern s) (kern t))"

lemma explained_leaving: "losses_explained (\<lambda>_. False) s out t \<Longrightarrow> losses_explained leaving s out t"
  by (auto simp: losses_explained_def lost_def)

lemma explained_close: "losses_explained (\<lambda>to. to = fd) s (\<lambda>_. []) (begin_orderly_close fd r s)"
proof (cases rule: begin_orderly_close_cases [of s fd r])
  case (drained ss)
  have "session (put_session fd (ss\<lparr>closing := True, inbuf := []\<rparr>) s) fd = Some (ss\<lparr>closing := True, inbuf := []\<rparr>)" by simp
  moreover have "pending ss = []" using drained(2) by (simp add: has_pending_output_def flip: length_pending)
  ultimately show ?thesis
    using drained(1) by (auto simp: losses_explained_def drained(3) drop_fd_fields lost_def split: if_splits)
next
  case (queued ss)
  then show ?thesis by (auto simp: losses_explained_def)
qed (auto simp: losses_explained_def)

text \<open>A change of the state that touches nothing on the way to the clients, and a reply after it.\<close>

definition silent :: "Server \<Rightarrow> Server \<Rightarrow> bool" where
  "silent s t \<longleftrightarrow> wire (kern t) = wire (kern s) \<and> send_script (kern t) = send_script (kern s) \<and>
     (\<forall>fd. map_option (\<lambda>ss. (pending ss, closing ss)) (session t fd) = map_option (\<lambda>ss. (pending ss, closing ss)) (session s fd))"

lemma silent_refl: "silent s s"
  by (simp add: silent_def)

lemma silent_put:
  "session s fd = Some ss \<Longrightarrow> sessions t = AList.update fd ss' (sessions s) \<Longrightarrow> pending ss' = pending ss \<Longrightarrow> closing ss' = closing ss \<Longrightarrow>
     wire (kern t) = wire (kern s) \<Longrightarrow> send_script (kern t) = send_script (kern s) \<Longrightarrow> silent s t"
  by (auto simp: silent_def)

lemma silent_sym: "silent s t \<Longrightarrow> silent t s"
  by (simp add: silent_def)

lemma silent_session:
  assumes "silent s t" and "session t fd = Some ss'"
  obtains ss where "session s fd = Some ss" and "pending ss' = pending ss" and "closing ss' = closing ss"
proof -
  have "map_option (\<lambda>ss. (pending ss, closing ss)) (session s fd) = Some (pending ss', closing ss')"
    using assms unfolding silent_def by (metis option.simps(9))
  then show thesis by (auto intro: that)
qed

lemma silent_told:
  assumes "silent s t"
  shows "told s (\<lambda>_. []) t"
proof -
  have "wire (kern t) = wire (kern s)" using assms by (simp add: silent_def)
  then show ?thesis unfolding told_def by (auto elim!: silent_session [OF assms])
qed

lemma silent_send:
  assumes "registry_inv base s'" and "silent s s'"
  shows "told s (tell fd m) (send_to fd m s') \<and> losses_explained leaving s (tell fd m) (send_to fd m s')"
proof
  show "told s (tell fd m) (send_to fd m s')"
    using told_trans [OF silent_told [OF assms(2)] told_send [OF assms(1), of fd m]] by simp
  have "lost to (closing ss) ss (tell fd m to) (kern s) (kern (send_to fd m s'))"
    if ss: "session s to = Some ss" "session (send_to fd m s') to = None" for to ss
  proof -
    obtain ss' where ss': "session s' to = Some ss'" "pending ss = pending ss'" "closing ss = closing ss'"
      using silent_session [OF silent_sym [OF assms(2)] ss(1)] .
    from deliveredD(2) [OF send_to_delivered [OF registry_sessions [OF assms(1)]] ss'(1) ss(2)] ss' assms(2)
    show ?thesis by (auto simp: lost_def silent_def tell_def)
  qed
  then have "losses_explained (\<lambda>_. False) s (tell fd m) (send_to fd m s')" by (simp add: losses_explained_def)
  then show "losses_explained leaving s (tell fd m) (send_to fd m s')" by (rule explained_leaving)
qed

section \<open>Every handler keeps to the rules\<close>

definition obeyed :: "(int \<Rightarrow> string) \<times> Exchange \<Rightarrow> Server \<Rightarrow> Server \<Rightarrow> bool" where
  "obeyed r s t \<longleftrightarrow> departs (snd r) t \<and> told s (fst r) t \<and> losses_explained (\<lambda>_. False) s (fst r) t"

lemma obeyed_reply:
  "registry_inv base s' \<Longrightarrow> silent s s' \<Longrightarrow> exchange_of s' = x \<Longrightarrow> obeyed (tell fd m, x) s (send_to fd m s')"
  using departs_send silent_send unfolding obeyed_def by fastforce

lemma obeyed_error: "registry_inv base s \<Longrightarrow> obeyed (tell fd m, exchange_of s) s (send_to fd m s)"
  by (rule obeyed_reply) (simp_all add: silent_refl)

lemma registry_role:
  assumes "registry_inv base s" and "session s fd = Some ss"
  shows "logged_in ss \<longleftrightarrow> role ss = ROLE_TRADER" and "role ss \<noteq> ROLE_MARKET_DATA \<Longrightarrow> subscriptions ss = []"
  using registry_ident [OF assms] by (auto simp: ident_ok_def)

lemma login_obeyed:
  assumes inv: "registry_inv base s" and ss: "session s fd = Some ss"
    and cmd: "cmd_type cmd = LOGIN" "user_name (cmd_args cmd ! 0)"
  shows "obeyed (obey fd (Login (cmd_args cmd ! 0)) (exchange_of s)) s (handle_login fd cmd s)"
proof -
  define user where "user = cmd_args cmd ! 0"
  define t where "t = say (''[=] fd '' @ to_string fd @ '' is trader '' @ quoted (c_str user)) (register_login fd ss user s)"
  have t: "obeyed (tell fd ok, enrol fd (Trader user) (exchange_of s)) s (send_to fd ok t)"
    if new: "role ss = ROLE_UNKNOWN" "user \<notin> set (usernames s)"
  proof (rule obeyed_reply)
    have "\<not> logged_in ss" using new registry_role [OF inv ss] by simp
    then show "registry_inv base t"
      unfolding t_def using new cmd(2) by (intro rg.P_say rg.P_login [OF inv ss]) (simp_all add: user_def)
    let ?ss = "ss\<lparr>role := ROLE_TRADER, username := user, logged_in := True\<rparr>"
    have put: "sessions t = AList.update fd ?ss (sessions s)" by (simp add: t_def say_def register_login_def)
    then show "silent s t"
      by (rule silent_put [OF ss]) (simp_all add: t_def say_def register_login_def pending_def)
    show "exchange_of t = enrol fd (Trader user) (exchange_of s)"
      using exchange_of_put [OF put] by (simp add: t_def say_def register_login_def member_of_def)
  qed
  note err = obeyed_error [OF inv, of fd]
  show ?thesis
  proof (cases "role ss")
    case ROLE_UNKNOWN
    then show ?thesis
      using t err [of "error (''Username '' @ user @ '' is already in use'')"] ss registry_role [OF inv ss]
      by (simp add: handle_login_def reject_wrong_role_def session_at_def Let_def taken_iff [OF inv] member_of_def t_def user_def)
  next
    case ROLE_TRADER
    then show ?thesis
      using err [of "error (''Already logged in as '' @ username ss)"] ss registry_role [OF inv ss]
      by (simp add: handle_login_def reject_wrong_role_def session_at_def Let_def member_of_def)
  next
    case ROLE_MARKET_DATA
    then show ?thesis
      using err [of "not_for ''LOGIN'' ''market-data''"] ss cmd(1)
      by (simp add: handle_login_def reject_wrong_role_def session_at_def Let_def member_of_def not_for_def)
  qed
qed

lemma subscription_obeyed:
  assumes inv: "registry_inv base s" and ss: "session s fd = Some ss" and i: "is_valid_instrument (cmd_instrument cmd)"
    and c: "cmd_type cmd = SUBSCRIBE \<and> c = Subscribe (cmd_instrument cmd) \<or> cmd_type cmd = UNSUBSCRIBE \<and> c = Unsubscribe (cmd_instrument cmd)"
  shows "obeyed (obey fd c (exchange_of s)) s (handle_subscription fd cmd s)"
proof -
  let ?i = "cmd_instrument cmd"
  define s' where "s' = (if role ss = ROLE_UNKNOWN then
      say (''[=] fd '' @ to_string fd @ '' is a market-data client'') (put_session fd (ss\<lparr>role := ROLE_MARKET_DATA\<rparr>) s) else s)"
  define ss' where "ss' = ss\<lparr>role := ROLE_MARKET_DATA\<rparr>"
  have member: "obeyed (tell fd ok, enrol fd (Watcher (set subs)) (exchange_of s)) s (send_to fd ok t)"
    if md: "role ss \<noteq> ROLE_TRADER" and t: "t = add_subscription fd ss' ?i s' \<and> subs = List.insert ?i (subscriptions ss) \<or>
         t = remove_subscription fd ss' ?i s' \<and> subs = removeAll ?i (subscriptions ss)" for t subs
  proof (rule obeyed_reply)
    have s': "registry_inv base s'"
      using rg.P_say [OF rg.P_role [OF inv ss]] inv by (simp add: s'_def)
    have ss'': "session s' fd = Some ss'" "role ss' = ROLE_MARKET_DATA"
      using md ss by (cases "role ss"; simp add: s'_def ss'_def say_def)+
    show "registry_inv base t" using rg.P_subscribe [OF s' ss'' i] rg.P_unsubscribe [OF s' ss''] t by blast
    let ?ss = "ss'\<lparr>subscriptions := subs\<rparr>"
    have sess: "AList.update fd ?ss (sessions s') = AList.update fd ?ss (sessions s)"
      by (simp add: s'_def say_def)
    have put: "sessions t = AList.update fd ?ss (sessions s)"
      using t sess by (auto simp: add_subscription_def remove_subscription_def ss'_def)
    have frame: "book t = book s" "wire (kern t) = wire (kern s)" "send_script (kern t) = send_script (kern s)"
      using t by (auto simp: add_subscription_def remove_subscription_def s'_def say_def)
    show "silent s t" by (rule silent_put [OF ss put]) (simp_all add: frame ss'_def pending_def)
    show "exchange_of t = enrol fd (Watcher (set subs)) (exchange_of s)"
      using exchange_of_put [OF put frame(1)] by (simp add: member_of_def ss'_def)
  qed
  note add = member [OF _ disjI1 [OF conjI [OF refl refl]]] and rem = member [OF _ disjI2 [OF conjI [OF refl refl]]]
  note err = obeyed_error [OF inv, of fd]
  show ?thesis
  proof (cases "role ss")
    case ROLE_UNKNOWN
    then show ?thesis
      using c add err [of "error (''Not subscribed to '' @ ?i)"] ss registry_role [OF inv ss]
      by (auto simp: handle_subscription_def reject_wrong_role_def session_at_def Let_def member_of_def s'_def ss'_def)
  next
    case ROLE_TRADER
    then show ?thesis
      using c err [of "not_for (verb (cmd_type cmd)) ''trader''"] ss
      by (auto simp: handle_subscription_def reject_wrong_role_def session_at_def Let_def member_of_def not_for_def)
  next
    case ROLE_MARKET_DATA
    then have "ss' = ss" by (simp add: ss'_def)
    with ROLE_MARKET_DATA show ?thesis
      using c add rem err [of "error (''Not subscribed to '' @ ?i)"] ss
      by (auto simp: handle_subscription_def reject_wrong_role_def session_at_def Let_def member_of_def s'_def)
  qed
qed

text \<open>Trading commands of clients that may not trade.\<close>

lemma not_allowed:
  assumes inv: "registry_inv base s" and ss: "session s fd = Some ss"
  shows "role ss = ROLE_UNKNOWN \<Longrightarrow> require_logged_in_trader fd type s =
        (False, send_to fd (error ''Not logged in: send LOGIN <username> before trading'') s)"
    and "role ss = ROLE_MARKET_DATA \<Longrightarrow> require_logged_in_trader fd type s = (False, send_to fd (not_for (verb type) ''market-data'') s)"
    and "role ss = ROLE_TRADER \<Longrightarrow> require_logged_in_trader fd type s = (True, s)"
  using ss registry_role [OF inv ss]
  by (simp_all add: require_logged_in_trader_def reject_wrong_role_def session_at_def Let_def not_for_def)

lemma cancel_obeyed:
  assumes inv: "registry_inv base s" and ss: "session s fd = Some ss" and c: "cmd_type cmd = CANCEL"
  shows "obeyed (obey fd (Cancel (cmd_order_id cmd)) (exchange_of s)) s (handle_cancel fd cmd s)"
proof (cases "role ss")
  case ROLE_TRADER
  let ?s = "s\<lparr>book := snd (cancel_order (cmd_order_id cmd) fd (book s))\<rparr>"
  have "logged_in ss" using ROLE_TRADER registry_role [OF inv ss] by simp
  then have "registry_inv base ?s" by (rule rg.P_cancel [OF inv ss])
  moreover have "silent s ?s" by (simp add: silent_def)
  moreover obtain res b where can: "cancel_order (cmd_order_id cmd) fd (book s) = (res, b)" by fastforce
  then have "spec_cancel (cmd_order_id cmd) fd (abs_book (book s)) = (res, abs_book b)"
    using cancel_order_abs [OF registry_book [OF inv], of "cmd_order_id cmd" fd] by simp
  moreover have "exchange_of (s\<lparr>book := b\<rparr>) = (exchange_of s)\<lparr>orders := abs_book b\<rparr>" by (simp add: exchange_of_def)
  ultimately show ?thesis
    using obeyed_reply [of base ?s s "exchange_of ?s" fd] ROLE_TRADER ss
    by (auto simp: handle_cancel_def not_allowed(3) [OF inv ss] can Let_def member_of_def split: sum.split)
qed (use obeyed_error [OF inv] ss c in \<open>simp_all add: handle_cancel_def not_allowed [OF inv ss] member_of_def\<close>)

text \<open>The notices of an execution, by the subscriptions of a session and by the member it is.\<close>

lemma told_member:
  assumes "registry_inv base s" and "session s to = Some ss"
  shows "notice to (Some (member_of ss)) = (\<lambda>x. notices to x (subscriptions ss))"
proof -
  have "watches i (Some (member_of ss)) \<longleftrightarrow> i \<in> set (subscriptions ss)" for i
    using registry_role(2) [OF assms] by (cases "role ss") (simp_all add: member_of_def)
  then show ?thesis by (simp add: notices_def notice_def fun_eq_iff)
qed

text \<open>What came of a line: everybody was told \<open>m\<close>, which is the beginning of what the rules say, and all of it if \<open>whole\<close>.\<close>

definition answered :: "(int \<Rightarrow> bool) \<Rightarrow> bool \<Rightarrow> (int \<Rightarrow> string) \<times> Exchange \<Rightarrow> Server \<Rightarrow> Server \<Rightarrow> bool" where
  "answered leaving whole r s t \<longleftrightarrow>
     (\<exists>m. departs (snd r) t \<and> told s m t \<and> losses_explained leaving s m t \<and> (\<forall>to. prefix (m to) (fst r to)) \<and> (whole \<longrightarrow> m = fst r))"

lemma obeyed_answered: "obeyed r s t \<Longrightarrow> answered leaving whole r s t"
  unfolding obeyed_def answered_def using explained_leaving by blast

lemma order_obeyed:
  assumes inv: "registry_inv base s" and hash: "\<And>xs. mset (hash_order (kern s) xs) = mset xs" and ss: "session s fd = Some ss"
    and cmd: "is_valid_instrument (cmd_instrument cmd)" "order_terms (cmd_quantity cmd) (cmd_price cmd)"
    and type: "cmd_type cmd = BUY \<or> cmd_type cmd = SELL"
  defines "r \<equiv> submit (verb (cmd_type cmd)) (if cmd_type cmd = BUY then Side_BUY else Side_SELL) fd
    (cmd_instrument cmd) (cmd_quantity cmd) (cmd_price cmd) (exchange_of s)"
  shows "answered leaving (session (handle_order fd cmd s) fd \<noteq> None) r s (handle_order fd cmd s)"
proof (cases "role ss")
  case ROLE_TRADER
  let ?side = "if cmd_type cmd = BUY then Side_BUY else Side_SELL"
  obtain oid ex b where add: "add_order fd (cmd_instrument cmd) ?side (cmd_quantity cmd) (cmd_price cmd) [] (book s) = (oid, ex, b)"
    by (metis surj_pair)
  have "logged_in ss" using ROLE_TRADER registry_role [OF inv ss] by simp
  define s1 where "s1 = s\<lparr>book := b\<rparr>"
  define s2 where "s2 = send_to fd (order_accepted oid) s1"
  have t: "handle_order fd cmd s = publish_all fd ex s2"
    by (simp add: handle_order_def not_allowed(3) [OF inv ss ROLE_TRADER] add Let_def s1_def s2_def)
  have r: "r = (\<lambda>to. tell fd (order_accepted oid) to @ concat (map (notice to (members (exchange_of s) to)) ex), exchange_of s1)"
    using add_order_abs [OF registry_book [OF inv] order_terms_pos [OF cmd(2)] add] ROLE_TRADER ss
    by (simp add: r_def submit_def member_of_def s1_def) (simp add: exchange_of_def)
  have inv1: "registry_inv base s1"
    using rg.P_order [OF inv ss \<open>logged_in ss\<close> cmd, of ?side] add by (simp add: s1_def)
  have inv2: "registry_inv base s2" using inv1 by (simp add: s2_def registry_send)
  have "x_instrument x = cmd_instrument cmd" if "x \<in> set ex" for x
    by (rule add_order_instrument [of x fd _ ?side "cmd_quantity cmd" "cmd_price cmd" "book s"]) (use that add in simp)
  then have lf: "\<forall>x \<in> set ex. LF \<notin> set (x_instrument x)"
    using is_word_LF [OF is_word_instrument [OF cmd(1)]] by simp
  have dep: "departs (snd r) (publish_all fd ex s2)"
    using departs_trans [OF departs_send [OF inv1] departs_publish_all [OF inv2 [unfolded s2_def] lf]] by (simp add: s2_def r)
  obtain n where n: "n \<le> length ex" "session (handle_order fd cmd s) fd \<noteq> None \<longrightarrow> n = length ex"
      "\<And>to. delivered to (\<lambda>subs. (if to = fd then order_accepted oid else []) @ concat (map (\<lambda>x. notices to x subs) (take n ex)))
         s (publish_all fd ex s2)"
    using order_delivered [OF inv hash ss \<open>logged_in ss\<close> cmd add] unfolding t by blast
  define m where "m = (\<lambda>to. tell fd (order_accepted oid) to @ concat (map (notice to (members (exchange_of s) to)) (take n ex)))"
  have m: "m to = (if to = fd then order_accepted oid else []) @ concat (map (\<lambda>x. notices to x (subscriptions ss0)) (take n ex))"
    if "session s to = Some ss0" for to ss0
    using told_member [OF inv that] that by (simp add: m_def tell_def)
  have told: "told s m (publish_all fd ex s2)"
    unfolding told_def using deliveredD(1) [OF n(3)] m by fastforce
  have lost: "losses_explained leaving s m (publish_all fd ex s2)"
    by (rule explained_leaving) (use deliveredD(2) [OF n(3)] m in \<open>auto simp: losses_explained_def\<close>)
  have "concat (map f ex) = concat (map f (take n ex)) @ concat (map f (drop n ex))" for f :: "TradeExecution \<Rightarrow> string"
    by (metis append_take_drop_id concat_append map_append)
  then have "prefix (m to) (fst r to)" for to unfolding r m_def by simp
  moreover have "m = fst r" if "session (handle_order fd cmd s) fd \<noteq> None" using n(2) that by (simp add: m_def r)
  ultimately show ?thesis using dep told lost unfolding answered_def t by blast
qed (rule obeyed_answered, use obeyed_error [OF inv] ss type in \<open>auto simp: r_def submit_def handle_order_def not_allowed [OF inv ss] member_of_def\<close>)+

section \<open>Lines\<close>

definition trades :: "string \<Rightarrow> bool" where
  "trades line \<longleftrightarrow> (\<exists>i q p. decode (parse line) = Some (Buy i q p) \<or> decode (parse line) = Some (Sell i q p))"

lemma message_obeyed:
  assumes inv: "registry_inv base s" and hash: "\<And>xs. mset (hash_order (kern s) xs) = mset xs" and ss: "session s fd = Some ss"
  shows "answered (\<lambda>to. to = fd \<and> decode (parse line) = Some Quit) (session (handle_message fd line s) fd \<noteq> None \<or> \<not> trades line)
    (respond fd line (exchange_of s)) s (handle_message fd line s)"
proof (cases "cmd_valid (parse line)")
  case False
  then show ?thesis
    using obeyed_error [OF inv] by (intro obeyed_answered) (simp add: handle_message_def respond_def decode_def)
next
  case True
  let ?cmd = "parse line"
  note decoded = True handle_message_def respond_def decode_def Let_def
  show ?thesis
  proof (cases "cmd_type ?cmd")
    case LOGIN
    with login_obeyed [OF inv ss LOGIN valid_login [OF True LOGIN]] show ?thesis by (intro obeyed_answered) (simp add: decoded)
  next
    case BUY
    with order_obeyed [OF inv hash ss valid_order(1,2) [OF True]] show ?thesis by (simp add: decoded trades_def)
  next
    case SELL
    with order_obeyed [OF inv hash ss valid_order(1,2) [OF True]] show ?thesis by (simp add: decoded trades_def)
  next
    case CANCEL
    with cancel_obeyed [OF inv ss CANCEL] show ?thesis by (intro obeyed_answered) (simp add: decoded)
  next
    case SUBSCRIBE
    with subscription_obeyed [OF inv ss _ disjI1] valid_subscription [OF True] show ?thesis
      by (intro obeyed_answered) (simp add: decoded)
  next
    case UNSUBSCRIBE
    with subscription_obeyed [OF inv ss _ disjI2] valid_subscription [OF True] show ?thesis
      by (intro obeyed_answered) (simp add: decoded)
  next
    case QUIT
    with departs_close [OF inv] told_close explained_close show ?thesis
      unfolding answered_def by (intro exI [of _ "\<lambda>_. []"]) (simp add: decoded)
  qed (use True valid_type [OF True] in simp_all)
qed

text \<open>\<open>obeys fd ls s t\<close>: from \<open>s\<close> to \<open>t\<close> the exchange has heard \<open>fd\<close> say \<open>ls\<close>, and members may have left; everybody
  still there has been told what the rules say, provided \<open>fd\<close> is among them.\<close>

definition obeys :: "int \<Rightarrow> string list \<Rightarrow> Server \<Rightarrow> Server \<Rightarrow> bool" where
  "obeys fd ls s t \<longleftrightarrow>
     (\<exists>hs out. exchange_run (exchange_of s) hs out (exchange_of t) \<and> sayings hs = map (Pair fd) ls \<and>
        (\<forall>fd'. Joined fd' \<notin> set hs) \<and> (live fd t \<longrightarrow> told s out t))"

lemma obeys_refl: "exchange_of t = exchange_of s \<Longrightarrow> told s (\<lambda>_. []) t \<Longrightarrow> obeys fd [] s t"
  unfolding obeys_def by (intro exI [of _ "[]"] exI [of _ "\<lambda>_. []"]) (auto intro: exchange_run.idle)

lemma obeys_trans:
  assumes "obeys fd ls s t" and "obeys fd ls' t u" and "live fd u \<Longrightarrow> live fd t"
  shows "obeys fd (ls @ ls') s u"
proof -
  obtain hs out where 1: "exchange_run (exchange_of s) hs out (exchange_of t)" "sayings hs = map (Pair fd) ls"
      "\<forall>fd'. Joined fd' \<notin> set hs" "live fd t \<longrightarrow> told s out t"
    using assms(1) by (auto simp: obeys_def)
  obtain hs' out' where 2: "exchange_run (exchange_of t) hs' out' (exchange_of u)" "sayings hs' = map (Pair fd) ls'"
      "\<forall>fd'. Joined fd' \<notin> set hs'" "live fd u \<longrightarrow> told t out' u"
    using assms(2) by (auto simp: obeys_def)
  from exchange_run_append [OF 2(1) 1(1)] 1 2 assms(3) show ?thesis
    unfolding obeys_def
    by (intro exI [of _ "hs @ hs'"] exI [of _ "\<lambda>to. out to @ out' to"]) (auto intro: told_trans)
qed

lemma message_obeys:
  assumes "registry_inv base s" and "\<And>xs. mset (hash_order (kern s) xs) = mset xs" and ss: "session s fd = Some ss"
  shows "obeys fd [line] s (handle_message fd line s)"
proof -
  let ?t = "handle_message fd line s" and ?r = "respond fd line (exchange_of s)"
  from message_obeyed [OF assms, of line] obtain ds
    where ds: "exchange_run (snd ?r) (map Left ds) (\<lambda>_. []) (exchange_of ?t)"
      and told: "session ?t fd \<noteq> None \<Longrightarrow> told s (fst ?r) ?t"
    unfolding departs_def answered_def by blast
  have "exchange_run (exchange_of s) [Said fd line] (fst ?r) (snd ?r)"
    using run_said [of "exchange_of s" fd line] ss by simp
  from exchange_run_append [OF ds this] told show ?thesis
    unfolding obeys_def by (intro exI [of _ "Said fd line # map Left ds"] exI [of _ "fst ?r"]) (auto simp: live_def)
qed

lemma take_message_obeys:
  assumes inv: "registry_inv base s" and hash: "\<And>xs. mset (hash_order (kern s) xs) = mset xs" and ss: "session s fd = Some ss"
    and "\<not> closing ss"
  shows "obeys fd [strip_cr (take n (inbuf ss))] s (take_message fd ss n s)"
proof -
  let ?ss = "ss\<lparr>inbuf := drop (n + 1) (inbuf ss)\<rparr>" and ?line = "strip_cr (take n (inbuf ss))"
  define s1 where "s1 = put_session fd ?ss s"
  define s2 where "s2 = (if verbose s1 then say (''[msg ] '' @ c_str (session_label ss) @ '': complete message '' @ c_str ([CHR 0x22] @ ?line @ [CHR 0x22])) s1 else s1)"
  have take: "take_message fd ss n s = handle_message fd ?line s2"
    unfolding take_message_def Let_def s1_def [symmetric] s2_def [symmetric] ..
  have "registry_inv base s1" unfolding s1_def by (rule rg.P_cut [OF inv ss suffix_drop])
  then have inv2: "registry_inv base s2" by (simp add: s2_def rg.P_say)
  have s2: "sessions s2 = AList.update fd ?ss (sessions s)" "book s2 = book s" "kern s2 = kern s"
    by (simp_all add: s2_def s1_def say_def)
  have same: "exchange_of s2 = exchange_of s"
    by (rule exchange_of_same [OF ss _ s2(1,2)]) (simp add: member_of_def cong: ClientRole.case_cong)
  have told: "told s (\<lambda>_. []) s2" by (rule told_put [OF ss s2(1)]) (simp_all add: s2 pending_def)
  have "obeys fd [?line] s2 (take_message fd ss n s)"
    unfolding take using hash s2 by (intro message_obeys [OF inv2]) simp_all
  from obeys_trans [OF obeys_refl [OF same told] this] s2 assms(4) show ?thesis by (simp add: live_def)
qed

lemma close_dead: "\<not> live fd (begin_orderly_close fd r s)"
proof (cases rule: begin_orderly_close_cases [of s fd r])
  case (drained ss)
  then show ?thesis by (simp add: live_def drop_fd_sessions)
qed (simp_all add: live_def)

lemma departs_obeys:
  assumes "departs (exchange_of s) t" and "\<not> live fd t"
  shows "obeys fd [] s t"
proof -
  obtain ds where "exchange_run (exchange_of s) (map Left ds) (\<lambda>_. []) (exchange_of t)" using assms(1) by (auto simp: departs_def)
  with assms(2) show ?thesis unfolding obeys_def by (intro exI [of _ "map Left ds"] exI [of _ "\<lambda>_. []"]) auto
qed

lemma consume_obeys:
  assumes "registry_inv base s" and "\<And>xs. mset (hash_order (kern s) xs) = mset xs" and "session s fd = Some ss" and "\<not> closing ss"
    and "consume_messages fd s = (go, t)"
  shows "\<exists>n. obeys fd (map strip_cr (take n (fst (split_lines (inbuf ss))))) s t \<and>
    (live fd t \<longrightarrow> n = length (fst (split_lines (inbuf ss))) \<and> map_option inbuf (session t fd) = Some (snd (split_lines (inbuf ss))))"
  using assms
proof (induction fd s arbitrary: ss go t rule: consume_messages.induct)
  case (1 fd s)
  note inv = 1(2) and hash = 1(3) and ss = 1(4) and fresh = 1(5) and eq = 1(6)
  show ?case
  proof (cases "str_find LF (inbuf ss)")
    case None
    then have none: "split_lines (inbuf ss) = ([], inbuf ss)" by (simp add: split_none)
    let ?err = "error (''Message exceeds '' @ to_string (int kMaxLineBytes) @ '' bytes without a newline'')"
    let ?c = "begin_orderly_close fd ''oversized application message'' (send_to fd ?err s)"
    have "obeys fd [] s ?c \<and> \<not> live fd ?c"
      using departs_obeys [OF departs_trans [OF departs_send [OF inv] departs_close [OF registry_send [OF inv]]]] close_dead by blast
    moreover have "obeys fd [] s s" by (simp add: obeys_refl told_refl)
    moreover have "t = (if length (inbuf ss) > kMaxLineBytes then ?c else s)"
      using eq ss None by (subst (asm) consume_messages.simps) (auto simp: Let_def simp del: str_find_None split: if_splits)
    ultimately show ?thesis using none ss by (intro exI [of _ 0]) auto
  next
    case (Some n)
    let ?t = "take_message fd ss n s"
    have first: "obeys fd [strip_cr (take n (inbuf ss))] s ?t" by (rule take_message_obeys [OF inv hash ss fresh])
    have own: "(case session ?t fd of None \<Rightarrow> (False, ?t) | Some ss' \<Rightarrow> if closing ss' then (True, ?t) else consume_messages fd ?t) = (go, t)"
      using ss eq Some by (subst (asm) consume_messages.simps) (simp add: Let_def)
    note split = split_found [OF Some]
    show ?thesis
    proof (cases "live fd ?t")
      case False
      then have "t = ?t" using own by (auto simp: live_def split: option.splits if_splits)
      with first False split show ?thesis by (intro exI [of _ "Suc 0"]) simp
    next
      case True
      then obtain ss' where ss': "session ?t fd = Some ss'" "\<not> closing ss'" by (auto simp: live_def)
      have rest: "inbuf ss' = drop (Suc n) (inbuf ss)"
      proof -
        obtain ss0 where "session (put_session fd (ss\<lparr>inbuf := drop (n + 1) (inbuf ss)\<rparr>) s) fd = Some ss0" "input_kept ss0 ss'"
          using take_message_untouched [OF ss, of n] ss'(1) unfolding untouched_def by blast
        with ss'(2) show ?thesis by (auto simp: input_kept_def)
      qed
      have inv': "registry_inv base ?t" using rg.eff.R_take_message [OF ss] inv by blast
      have hash': "mset (hash_order (kern ?t) xs) = mset xs" for xs
        using take_message_untouched [OF ss, of n] hash by (simp add: untouched_def fixed_part_def)
      have "consume_messages fd ?t = (go, t)" using own ss' by simp
      from 1(1) [OF ss Some refl ss'(1) ss'(2) inv' hash' ss' this] obtain m
        where m: "obeys fd (map strip_cr (take m (fst (split_lines (inbuf ss'))))) ?t t"
          "live fd t \<longrightarrow> m = length (fst (split_lines (inbuf ss'))) \<and> map_option inbuf (session t fd) = Some (snd (split_lines (inbuf ss')))"
        by blast
      from obeys_trans [OF first m(1)] True m(2) split rest show ?thesis by (intro exI [of _ "Suc m"]) simp
    qed
  qed
qed

text \<open>Bytes that have been appended to the input of a client are obeyed line by line.\<close>

lemma input_obeys:
  assumes inv: "registry_inv base s2" and hash: "\<And>xs. mset (hash_order (kern s2) xs) = mset xs"
    and ss: "session s fd = Some ss" "\<not> closing ss"
    and s2: "sessions s2 = AList.update fd (ss\<lparr>inbuf := inbuf ss @ bs\<rparr>) (sessions s)" "book s2 = book s" "wire (kern s2) = wire (kern s)"
    and c: "consume_messages fd s2 = (go, t)"
  shows "\<exists>n. obeys fd (map strip_cr (take n (fst (split_lines (inbuf ss @ bs))))) s t \<and>
    (live fd t \<longrightarrow> n = length (fst (split_lines (inbuf ss @ bs))) \<and>
       map_option inbuf (session t fd) = Some (snd (split_lines (inbuf ss @ bs))))"
proof -
  have same: "exchange_of s2 = exchange_of s"
    by (rule exchange_of_same [OF ss(1) _ s2(1,2)]) (simp add: member_of_def cong: ClientRole.case_cong)
  have told: "told s (\<lambda>_. []) s2" by (rule told_put [OF ss(1) s2(1)]) (simp_all add: s2 pending_def)
  obtain n where n: "obeys fd (map strip_cr (take n (fst (split_lines (inbuf ss @ bs))))) s2 t"
      "live fd t \<longrightarrow> n = length (fst (split_lines (inbuf ss @ bs))) \<and> map_option inbuf (session t fd) = Some (snd (split_lines (inbuf ss @ bs)))"
    using consume_obeys [OF inv hash _ _ c, of "ss\<lparr>inbuf := inbuf ss @ bs\<rparr>"] ss(2) s2(1) by auto
  have "obeys fd ([] @ map strip_cr (take n (fst (split_lines (inbuf ss @ bs))))) s t"
    by (rule obeys_trans [OF obeys_refl [OF same told] n(1)]) (simp add: live_def s2(1) ss(2))
  with n(2) show ?thesis by auto
qed

section \<open>The history of the server\<close>

definition follows :: "int set \<Rightarrow> (int list \<Rightarrow> int list) \<Rightarrow> Server \<Rightarrow> bool" where
  "follows base h s \<longleftrightarrow> registry_inv base s \<and> iterates h s \<and> (\<forall>xs. mset (h xs) = mset xs) \<and>
     (\<exists>hs out. exchange_run fresh_exchange hs out (exchange_of s))"

lemma follows_run:
  assumes "follows base h s" and "registry_inv base t" and "iterates h t" and "exchange_run (exchange_of s) hs out (exchange_of t)"
  shows "follows base h t"
  using assms exchange_run_append [OF assms(4)] unfolding follows_def by blast

lemma follows_same:
  "follows base h s \<Longrightarrow> registry_inv base t \<Longrightarrow> iterates h t \<Longrightarrow> exchange_of t = exchange_of s \<Longrightarrow> follows base h t"
  using exchange_run.idle [of "exchange_of s"] by (intro follows_run [of base h s t "[]" "\<lambda>_. []"]) simp_all

lemma follows_departs:
  "follows base h s \<Longrightarrow> registry_inv base t \<Longrightarrow> iterates h t \<Longrightarrow> departs (exchange_of s) t \<Longrightarrow> follows base h t"
  unfolding departs_def using follows_run by blast

interpretation ex: message_invariant "follows base h" for base h
proof
  fix s fd ss line m reason rest n bs a srv k pr kr
  assume f: "follows base h s"
  then have inv: "registry_inv base s" and it: "iterates h s" and h: "mset (h xs) = mset xs" for xs
    by (simp_all add: follows_def)
  note same = follows_same [OF f] and dep = follows_departs [OF f]
  show "follows base h (say line s)" "follows base h (pause_accepting s)" "follows base h (resume_accepting_if_due s)" "follows base h (reap_closed s)"
    "follows base h (s\<lparr>kern := snd (sys_recv fd n (kern s))\<rparr>)"
    "follows base h (s\<lparr>event_loop := snd (snd (loop_wait pr kr (event_loop s))), kern := (kern s)\<lparr>now := n\<rparr>\<rparr>)"
    by (rule same; (rule rg.P_say [OF inv] rg.P_pause [OF inv] rg.P_resume [OF inv] rg.P_reap [OF inv] rg.P_recv [OF inv] rg.P_wait [OF inv]
          ih.P_say [OF it] ih.P_pause [OF it] ih.P_resume [OF it] ih.P_reap [OF it] ih.P_recv [OF it] ih.P_wait [OF it]
        | simp add: exchange_of_def say_def reap_closed_def frame_simps))+
  show "follows base h (on_writable fd s)" "follows base h (send_to fd m s)"
    unfolding on_writable_send
    by (rule dep [OF registry_send [OF inv] untouched_iterates [OF untouched_send it] departs_send [OF inv]])+
  show "follows base h (begin_orderly_close fd reason s)"
    by (rule dep [OF rg.P_close [OF inv] ih.P_close [OF it] departs_close [OF inv]])
  show "follows base h (drop_fd fd reason s)"
    by (rule dep [OF rg.P_drop [OF inv] ih.P_drop [OF it] departs_drop [OF registry_book [OF inv]]])
  show "follows base h (s\<lparr>listener := srv, kern := k\<rparr>)"
    if acc: "accept_connection (listener s) (kern s) = (a, srv, k)" "acc_fd a < 0"
    by (rule same [OF rg.P_accept_none [OF inv that] ih.P_accept_none [OF it that]]) (simp add: exchange_of_def)
  show "follows base h (admit (acc_fd a) (acc_peer a) (s\<lparr>listener := srv, kern := k\<rparr>))"
    if acc: "accept_connection (listener s) (kern s) = (a, srv, k)" "0 \<le> acc_fd a"
  proof -
    let ?s = "s\<lparr>listener := srv, kern := k\<rparr>"
    have none: "session ?s (acc_fd a) = None" using descriptors_inv_admit [OF registry_invD [OF inv] acc] by simp
    have "exchange_of (admit (acc_fd a) (acc_peer a) ?s) = exchange_of s \<or>
        exchange_of (admit (acc_fd a) (acc_peer a) ?s) = enrol (acc_fd a) Newcomer (exchange_of s)"
      using admit_new_form [OF none, of "acc_peer a"]
      by (auto simp: exchange_of_def enrol_def member_of_def new_session_def fun_eq_iff)
    moreover have "exchange_run (exchange_of s) [Joined (acc_fd a)] (\<lambda>_. []) (enrol (acc_fd a) Newcomer (exchange_of s))"
      using run_join [of "exchange_of s" "acc_fd a"] none by simp
    ultimately show ?thesis
      using same [OF rg.P_admit [OF inv acc] ih.P_admit [OF it acc]] follows_run [OF f rg.P_admit [OF inv acc] ih.P_admit [OF it acc]]
      by metis
  qed
  assume ss: "session s fd = Some ss"
  show "follows base h (handle_message fd line s)"
  proof -
    have hash: "mset (hash_order (kern s) xs) = mset xs" for xs using it h by (simp add: iterates_def)
    from message_obeys [OF inv hash ss, of line] show ?thesis
      unfolding obeys_def using follows_run [OF f rg.P_message [OF inv ss] ih.P_message [OF it ss]] by blast
  qed
  show "follows base h (put_session fd (ss\<lparr>inbuf := rest\<rparr>) s)" if "suffix rest (inbuf ss)"
    by (rule same [OF rg.P_cut [OF inv ss that] ih.P_cut [OF it ss that] exchange_of_same [OF ss, of "ss\<lparr>inbuf := rest\<rparr>"]])
      (simp_all add: member_of_def cong: ClientRole.case_cong)
  show "follows base h (put_session fd (ss\<lparr>inbuf := inbuf ss @ bs\<rparr>) s)" if "\<not> closing ss"
    by (rule same [OF rg.P_append [OF inv ss that] ih.P_append [OF it ss that] exchange_of_same [OF ss, of "ss\<lparr>inbuf := inbuf ss @ bs\<rparr>"]])
      (simp_all add: member_of_def cong: ClientRole.case_cong)
qed

lemma booted_follows:
  assumes "booted l s0" and "\<And>xs. mset (hash_order (kern s0) xs) = mset xs"
  shows "follows (set (open_fds (kern s0))) (hash_order (kern s0)) s0"
proof -
  have "queue_of key empty_book = []" for key by (cases key; cases "q_side key") (auto simp: empty_book_def)
  then have "exchange_of s0 = fresh_exchange"
    using bootedE [OF assms(1)] by (simp add: exchange_of_def fresh_exchange_def no_orders_def abs_book_def empty_book_def)
  then have "exchange_run fresh_exchange [] (\<lambda>_. []) (exchange_of s0)" by (simp add: exchange_run.idle)
  with assms booted_registry [OF assms(1)] show ?thesis unfolding follows_def iterates_def by blast
qed

section \<open>A sample\<close>

text \<open>A client connects and logs in.\<close>

definition demo_chat_kernel :: Kernel where
  "demo_chat_kernel = quiet_kernel\<lparr>accept_script := [Connection (Some ''127.0.0.1'') 40000],
     recv_script := (\<lambda>_. [])(4 := [Data (''LOGIN ann'' @ [LF])]), send_script := (\<lambda>_. [Written 1, SendError EAGAIN, Written 1, SendError EAGAIN, Written 9])\<rparr>"

definition demo_chat_boot :: Server where
  "demo_chat_boot = snd (server_start (new_exchange ''localhost'' 5000 (new_loop False (-1) Poll []) False 0 demo_chat_kernel))"

definition demo_joined :: Server where
  "demo_joined = handle_event \<lparr>ev_fd = 3, ev_readable = True, ev_writable = False, ev_hangup = False\<rparr> demo_chat_boot"

definition demo_chat :: Server where
  "demo_chat = handle_event \<lparr>ev_fd = 4, ev_readable = True, ev_writable = False, ev_hangup = False\<rparr> demo_joined"

lemma demo_chat_booted: "booted (new_loop False (-1) Poll []) demo_chat_boot"
proof -
  let ?x = "new_exchange ''localhost'' 5000 (new_loop False (-1) Poll []) False 0 demo_chat_kernel"
  have "fst (server_start ?x)" by (simp add: demo_chat_kernel_def demo_defs)
  then have "server_start ?x = (True, demo_chat_boot)" unfolding demo_chat_boot_def by (metis prod.collapse)
  moreover have "\<not> bad_close demo_chat_kernel" by (simp add: demo_chat_kernel_def quiet_kernel_def)
  ultimately show ?thesis unfolding booted_def by blast
qed

lemma demo_chat_serving: "serving demo_chat_boot demo_joined" "serving demo_chat_boot demo_chat"
  unfolding demo_chat_def demo_joined_def by (intro serving.intros)+

lemma demo_chat_hash: "mset (hash_order (kern demo_chat_boot) xs) = mset xs"
proof -
  have "hash_order (kern demo_chat_boot) = (\<lambda>fds. fds)" by (simp add: demo_chat_boot_def demo_chat_kernel_def demo_defs)
  then show ?thesis by simp
qed

lemma demo_joined_client: "session demo_joined 4 = Some ((new_session 4)\<lparr>peer := ''127.0.0.1:40000''\<rparr>)"
    "recv_script (kern demo_joined) 4 = [Data (''LOGIN ann'' @ [LF])]"
  by code_simp+

section \<open>Properties\<close>

text \<open>C8: the server implements the exchange. Every state the main loop passes through is, seen without connections and
  buffers, an exchange that its rules allow: it arises from the empty one by arrivals, by lines of connected
  members, each with exactly the effect of \<open>respond\<close>, and by departures.\<close>

theorem server_refines_exchange:
  assumes "booted l s0" and "\<And>xs. mset (hash_order (kern s0) xs) = mset xs" and "serving s0 s"
  shows "\<exists>hs out. exchange_run fresh_exchange hs out (exchange_of s)"
  using ex.serving_invariant [OF assms(3) booted_follows [OF assms(1,2)]] by (simp add: follows_def)

theorem server_refines_exchange_witness:
  "\<exists>hs out. exchange_run fresh_exchange hs out (exchange_of demo_chat) \<and> members (exchange_of demo_chat) 4 = Some (Trader ''ann'')"
proof -
  have "map_option (\<lambda>ss. (role ss, username ss)) (session demo_chat 4) = Some (ROLE_TRADER, ''ann'')" by code_simp
  then have "members (exchange_of demo_chat) 4 = Some (Trader ''ann'')" by (auto simp: member_of_def)
  with server_refines_exchange [OF demo_chat_booted demo_chat_hash demo_chat_serving(2)] show ?thesis by blast
qed

text \<open>C9: one line is handled as the rules say. Whatever a connected client sends, the exchange afterwards is the one
  \<open>respond\<close> gives, less some members, each of whom is gone for a reason: a \<^verbatim>\<open>send\<close> to it failed, more than the output
  limit was left unsent for it, or it was being closed (or has just said \<^verbatim>\<open>QUIT\<close>) and everything queued for it is out. The
  stream of every client still connected has grown by \<open>m\<close>, which is exactly what \<open>respond\<close> has for it. There is
  one exception: when the submitter of an order is lost while its executions are announced, \<open>m\<close> may be only
  the beginning of what \<open>respond\<close> says.\<close>

theorem line_refines_exchange:
  assumes "booted l s0" and "\<And>xs. mset (hash_order (kern s0) xs) = mset xs" and "serving s0 s" and "session s fd = Some ss"
  shows "\<exists>gone m. exchange_run (snd (respond fd line (exchange_of s))) (map Left gone) (\<lambda>_. []) (exchange_of (handle_message fd line s)) \<and>
    (\<forall>to \<in> set gone. \<exists>ss'. session s to = Some ss' \<and>
       lost to (closing ss' \<or> to = fd \<and> decode (parse line) = Some Quit) ss' (m to) (kern s) (kern (handle_message fd line s))) \<and>
    told s m (handle_message fd line s) \<and> (\<forall>to. prefix (m to) (fst (respond fd line (exchange_of s)) to)) \<and>
    (session (handle_message fd line s) fd \<noteq> None \<or> \<not> trades line \<longrightarrow> m = fst (respond fd line (exchange_of s)))"
proof -
  let ?r = "respond fd line (exchange_of s)" and ?t = "handle_message fd line s"
  have f: "follows (set (open_fds (kern s0))) (hash_order (kern s0)) s"
    by (rule ex.serving_invariant [OF assms(3) booted_follows [OF assms(1,2)]])
  have inv: "registry_inv (set (open_fds (kern s0))) s" and hash: "mset (hash_order (kern s) xs) = mset xs" for xs
    using f by (auto simp: follows_def iterates_def)
  from message_obeyed [OF inv hash assms(4), of line] obtain m gone
    where gone: "exchange_run (snd ?r) (map Left gone) (\<lambda>_. []) (exchange_of ?t)"
      and m: "told s m ?t" "losses_explained (\<lambda>to. to = fd \<and> decode (parse line) = Some Quit) s m ?t"
        "\<forall>to. prefix (m to) (fst ?r to)" "session ?t fd \<noteq> None \<or> \<not> trades line \<longrightarrow> m = fst ?r"
    unfolding answered_def departs_def by blast
  have "session s to \<noteq> None \<and> session ?t to = None" if "to \<in> set gone" for to
    using run_departures [OF gone] respond_members [of "exchange_of s" fd line to] that assms(4) by (auto simp: list_all_iff)
  with m(2) have "\<exists>ss'. session s to = Some ss' \<and>
      lost to (closing ss' \<or> to = fd \<and> decode (parse line) = Some Quit) ss' (m to) (kern s) (kern ?t)" if "to \<in> set gone" for to
    using that unfolding losses_explained_def by blast
  with gone m show ?thesis by blast
qed

theorem line_refines_exchange_witness:
  "told demo_joined (tell 4 (error ''Not logged in: send LOGIN <username> before trading'')) (handle_message 4 ''BUY JNST 1 100'' demo_joined)"
proof -
  have "decode (parse ''BUY JNST 1 100'') = Some (Buy ''JNST'' 1 100)" by code_simp
  then have "fst (respond 4 ''BUY JNST 1 100'' (exchange_of demo_joined)) = tell 4 (error ''Not logged in: send LOGIN <username> before trading'')"
    by (simp add: respond_def submit_def demo_joined_client member_of_def new_session_def)
  moreover have "map_option role (session (handle_message 4 ''BUY JNST 1 100'' demo_joined) 4) = Some ROLE_UNKNOWN" by code_simp
  ultimately show ?thesis
    using line_refines_exchange [OF demo_chat_booted demo_chat_hash demo_chat_serving(1) demo_joined_client(1), of "''BUY JNST 1 100''"]
    by auto
qed



end
