(* ===== verification/Server_Drain.thy ===== *)
theory Server_Drain
  imports Server_Refinement
begin

text \<open>
  Queued output gets out: termination of the output path. On a script of \<^verbatim>\<open>send\<close> results without a failure
  (\<open>benign\<close>) that takes enough bytes (\<open>capacity\<close>), each wakeup of \<^verbatim>\<open>on_writable\<close> writes everything or uses up
  a call that would block (\<open>on_writable_progress\<close>), so that their number (\<open>waits\<close>) is a measure for the wakeups.
\<close>

section \<open>One call of the loop\<close>

text \<open>Either everything is written, or the script has one stall less and still takes all that is queued.\<close>

definition progress :: "send_result list \<Rightarrow> nat \<Rightarrow> send_result list \<Rightarrow> bool" where
  "progress before queued after \<longleftrightarrow>
     queued = 0 \<or> waits after < waits before \<and> list_all benign after \<and> queued \<le> capacity after"

lemma write_pending_progress:
  assumes "list_all benign (send_script k (s_fd ss))" and "pending_bytes ss \<le> capacity (send_script k (s_fd ss))"
  shows "\<exists>ss' k'. write_pending ss k = (Flushed, ss', k') \<and> pending_bytes ss' \<le> pending_bytes ss \<and>
    progress (send_script k (s_fd ss)) (pending_bytes ss') (send_script k' (s_fd ss))"
  using assms
proof (induction ss k rule: write_pending_induct)
  case (empty ss k)
  then show ?case by (simp add: has_pending_output_def progress_def)
next
  case (wrote ss k n k1)
  then have "pending ss \<noteq> []" by (auto simp: has_pending_output_def simp flip: length_pending)
  from sys_send_benign [OF wrote(6) _ this wrote(2)] wrote(7)
  have k1: "list_all benign (send_script k1 (s_fd ss))" "pending_bytes ss - n \<le> capacity (send_script k1 (s_fd ss))"
      "waits (send_script k1 (s_fd ss)) = waits (send_script k (s_fd ss))" by simp_all
  have "pending_bytes (ss\<lparr>out_start := out_start ss + n\<rparr>) = pending_bytes ss - n" by (simp add: pending_bytes_def)
  with wrote(5) k1 obtain ss' k' where "write_pending (ss\<lparr>out_start := out_start ss + n\<rparr>) k1 = (Flushed, ss', k')"
      "pending_bytes ss' \<le> pending_bytes ss - n" "progress (send_script k1 (s_fd ss)) (pending_bytes ss') (send_script k' (s_fd ss))" by auto
  with wrote(4) k1(3) show ?case by (auto simp: progress_def)
next
  case (again ss k k1)
  then have "pending ss \<noteq> []" by (auto simp: has_pending_output_def simp flip: length_pending)
  from sys_send_benign [OF again(5) _ this again(2)] again(3,4,6) show ?case by (auto simp: progress_def)
next
  case (stop ss k r k1)
  then have "pending ss \<noteq> []" by (auto simp: has_pending_output_def simp flip: length_pending)
  from sys_send_benign [OF stop(6) _ this stop(2)] stop(7) have
    "list_all benign (send_script k1 (s_fd ss))" "benign r"
    "case r of Written n \<Rightarrow> True | SendError e \<Rightarrow> pending_bytes ss \<le> capacity (send_script k1 (s_fd ss)) \<and>
       waits (send_script k (s_fd ss)) = (if e = EINTR then 0 else 1) + waits (send_script k1 (s_fd ss))"
    by (simp_all split: send_result.splits)
  with stop(3-5) show ?case by (cases r) (auto simp: progress_def)
qed

section \<open>One wakeup\<close>

lemma on_writable_progress:
  assumes inv: "sessions_inv s" and ss: "session s fd = Some ss"
    and script: "list_all benign (send_script (kern s) fd)" "pending_bytes ss \<le> capacity (send_script (kern s) fd)"
  defines "t \<equiv> on_writable fd s"
  shows "sessions_inv t \<and>
    (closing ss \<and> session t fd = None \<and> fd \<in> set (closed_fds t) \<and> wire (kern t) fd = wire (kern s) fd @ pending ss \<or>
     (\<exists>ss'. session t fd = Some ss' \<and> closing ss' = closing ss \<and> (closing ss \<longrightarrow> pending_bytes ss' > 0) \<and>
        wire (kern t) fd @ pending ss' = wire (kern s) fd @ pending ss \<and>
        progress (send_script (kern s) fd) (pending_bytes ss') (send_script (kern t) fd)))"
proof -
  have ok: "s_fd ss = fd" "settled_output ss" using sessions_invD [OF inv ss] by (simp_all add: session_ok_def)
  then have fits: "out_start ss \<le> length (outbuf ss)" "pending_bytes ss \<le> kMaxOutputBytes" by (simp_all add: settled_output_def)
  obtain ss1 k where wp: "write_pending ss (kern s) = (Flushed, ss1, k)" and le: "pending_bytes ss1 \<le> pending_bytes ss"
      and prog: "progress (send_script (kern s) fd) (pending_bytes ss1) (send_script k fd)"
    using write_pending_progress [of "kern s" ss] script by (auto simp: ok(1))
  have stream: "wire k fd @ pending ss1 = wire (kern s) fd @ pending ss"
    using write_pending_stream [OF fits(1) wp] by (simp add: ok(1))
  have t: "t = flush fd ss s" by (simp add: t_def on_writable_def ss)
  have inv': "sessions_inv t" unfolding t_def by (rule si.P_writable [OF inv])
  show ?thesis
  proof (cases rule: flush_cases [of fd ss s])
    case (kept ss' k' c l)
    have p: "pending ss' = pending ss1" "pending_bytes ss' = pending_bytes ss1"
      using kept(6) by (simp_all add: wp flip: length_pending)
    have "closing ss' = closing ss" "closing ss \<longrightarrow> pending_bytes ss' > 0"
      using kept(2,3) by (simp_all add: same_client_def settled_output_def has_pending_output_def)
    moreover have "session t fd = Some ss'" "kern t = k" using kept(1,4) by (simp_all add: t wp)
    ultimately show ?thesis using inv' stream prog p by simp
  next
    case (gone reason ss' k' c)
    have "pending_bytes ss1 = 0 \<and> closing ss" using gone(4) le fits(2) by (simp add: wp)
    moreover from this have "pending ss1 = []" by (simp flip: length_pending)
    moreover have "session (put_session fd ss' (s\<lparr>kern := k', console := c\<rparr>)) fd = Some ss'" by simp
    from drop_fd_fields [OF this, of reason] have "session t fd = None" "fd \<in> set (closed_fds t)" "kern t = k"
      using gone(1,3) by (simp_all add: t ok(1) wp)
    ultimately show ?thesis using inv' stream by simp
  qed
qed

section \<open>Enough wakeups\<close>

definition drained :: "int \<Rightarrow> ClientSession \<Rightarrow> Server \<Rightarrow> Server \<Rightarrow> bool" where
  "drained fd ss s t \<longleftrightarrow> wire (kern t) fd = wire (kern s) fd @ pending ss \<and>
     (if closing ss then session t fd = None \<and> fd \<in> set (closed_fds t)
      else \<exists>ss'. session t fd = Some ss' \<and> pending ss' = [] \<and> \<not> backlogged ss' \<and> \<not> write_interest ss')"

lemma wakeups_drain:
  assumes "sessions_inv s" and "session s fd = Some ss"
    and "list_all benign (send_script (kern s) fd)" and "pending_bytes ss \<le> capacity (send_script (kern s) fd)"
  shows "\<exists>n \<le> Suc (waits (send_script (kern s) fd)). drained fd ss s ((on_writable fd ^^ n) s)"
  using assms
proof (induction "waits (send_script (kern s) fd)" arbitrary: s ss rule: less_induct)
  case less
  let ?t = "on_writable fd s"
  have one: "(on_writable fd ^^ 1) s = ?t" by simp
  from on_writable_progress [OF less(2-5)] consider
      (closed) "closing ss" "session ?t fd = None" "fd \<in> set (closed_fds ?t)" "wire (kern ?t) fd = wire (kern s) fd @ pending ss"
    | (written) ss' where "sessions_inv ?t" "session ?t fd = Some ss'" "\<not> closing ss" "closing ss' = closing ss"
        "wire (kern ?t) fd @ pending ss' = wire (kern s) fd @ pending ss" "pending_bytes ss' = 0"
    | (stalled) ss' where "sessions_inv ?t" "session ?t fd = Some ss'" "closing ss' = closing ss"
        "wire (kern ?t) fd @ pending ss' = wire (kern s) fd @ pending ss"
        "waits (send_script (kern ?t) fd) < waits (send_script (kern s) fd)" "list_all benign (send_script (kern ?t) fd)"
        "pending_bytes ss' \<le> capacity (send_script (kern ?t) fd)"
    by (auto simp: progress_def)
  then show ?case
  proof cases
    case closed
    then have "drained fd ss s ?t" by (simp add: drained_def)
    with one show ?thesis by (metis le_add1 plus_1_eq_Suc)
  next
    case written
    then have "pending ss' = []" "settled_output ss'" "\<not> has_pending_output ss'"
      using sessions_invD [OF written(1,2)] by (simp_all add: session_ok_def has_pending_output_def flip: length_pending)
    with written have "drained fd ss s ?t" by (auto simp: drained_def settled_output_def)
    with one show ?thesis by (metis le_add1 plus_1_eq_Suc)
  next
    case stalled
    from less(1) [OF stalled(5,1,2,6,7)] obtain n where
      n: "n \<le> Suc (waits (send_script (kern ?t) fd))" "drained fd ss' ?t ((on_writable fd ^^ n) ?t)" by blast
    have "drained fd ss s ((on_writable fd ^^ Suc n) s)"
      using n(2) stalled(3,4) by (simp add: drained_def funpow_swap1)
    moreover have "Suc n \<le> Suc (waits (send_script (kern s) fd))" using n(1) stalled(5) by simp
    ultimately show ?thesis by blast
  qed
qed

section \<open>Property\<close>

text \<open>C13: queued output gets out. Whatever output is queued for a client in a state of the main loop, if its socket goes on
  taking bytes, however few at a time and however often it stalls or a call is interrupted, then after at most one wakeup
  for each stall and one more the client has been sent all of it, in order; a client that is being closed has then been dropped
  with its descriptor due to be closed, and any other client is no longer marked as backlogged nor waited for.\<close>

theorem backlog_drains:
  assumes "booted l s0" and "serving s0 s" and "session s fd = Some ss"
    and "list_all benign (send_script (kern s) fd)" and "pending_bytes ss \<le> capacity (send_script (kern s) fd)"
  shows "\<exists>n \<le> Suc (waits (send_script (kern s) fd)). drained fd ss s ((on_writable fd ^^ n) s)"
proof -
  have "sessions_inv s"
    using fi.serving_invariant [OF assms(2) booted_descriptors [OF assms(1)]] by (simp add: descriptors_inv_def)
  then show ?thesis using assms(3-5) by (rule wakeups_drain)
qed

theorem backlog_drains_witness:
  "\<exists>ss n. session demo_chat 4 = Some ss \<and> pending ss = ''K'' @ [LF] \<and> n \<le> 2 \<and>
     drained 4 ss demo_chat ((on_writable 4 ^^ n) demo_chat)"
proof -
  have "(\<lambda>t. (map_option pending (session t 4), send_script (kern t) 4)) demo_chat =
      (Some (''K'' @ [LF]), [Written 1, SendError EAGAIN, Written 9])" by code_simp
  then obtain ss where ss: "session demo_chat 4 = Some ss" "pending ss = ''K'' @ [LF]"
      and script: "send_script (kern demo_chat) 4 = [Written 1, SendError EAGAIN, Written 9]" by auto
  have "pending_bytes ss = 2" using arg_cong [OF ss(2), of length] by simp
  with backlog_drains [OF demo_chat_booted demo_chat_serving(2) ss(1)] script
  obtain n where "n \<le> 2" "drained 4 ss demo_chat ((on_writable 4 ^^ n) demo_chat)"
    by (auto simp: numeral_2_eq_2)
  with ss show ?thesis by blast
qed

end
