(* ===== verification/Tcp_Client.thy ===== *)
theory Tcp_Client
  imports Socket_Utils "HOL-Library.Code_Target_Numeral"
begin

text \<open>
  The client's end of a connection, \<^verbatim>\<open>src/src/network/tcp_client.hpp\<close> and \<^verbatim>\<open>tcp_client.cpp\<close>. A send may
  wait for the socket to become writable for ever, so \<open>send_message\<close> returns an option, with \<^term>\<open>None\<close>
  for a call that never returns. The theory shows that a message is handed over whole or the call
  fails, when it succeeds, and that the messages a client receives are the lines of the
  byte stream, however the stream is cut into pieces.
\<close>

record TCPClient =
  c_host :: string
  c_port :: int
  c_fd :: int
  c_inbuf :: string
  c_error :: string

definition new_client :: "string \<Rightarrow> int \<Rightarrow> TCPClient" where
  "new_client host port = \<lparr>c_host = host, c_port = port, c_fd = -1, c_inbuf = [], c_error = []\<rparr>"

definition connect_to_server :: "TCPClient \<Rightarrow> Kernel \<Rightarrow> bool \<times> TCPClient \<times> Kernel" where
  "connect_to_server c k =
     (case connect_to (c_host c) (c_port c) k of
        (Inl err, k) \<Rightarrow> (False, c\<lparr>c_fd := -1, c_error := err\<rparr>, k)
      | (Inr fd, k) \<Rightarrow>
          (let k = snd (set_tcp_nodelay fd k);
               k = snd (set_nonblocking fd k)
           in (True, c\<lparr>c_fd := fd\<rparr>, k)))"

section \<open>Sending\<close>

lemma sys_send_poll_script [frame_simps]: "poll_script (snd (sys_send fd bs k)) = poll_script k"
  by (simp add: sys_send_def Let_def split: list.split send_result.split)

lemma sys_poll_facts:
  assumes "sys_poll k = Some (r, k')"
  shows "k' = k\<lparr>poll_script := tl (poll_script k)\<rparr>" "poll_script k = r # poll_script k'"
    "send_script k' = send_script k" "length (poll_script k') < length (poll_script k)"
  using assms by (auto simp: sys_poll_def split: list.splits)

lemma send_script_shrinks: "length (send_script (snd (sys_send fd bs k)) fd) \<le> length (send_script k fd)"
    "fst (sys_send fd bs k) \<noteq> SendError EAGAIN \<Longrightarrow>
     length (send_script (snd (sys_send fd bs k)) fd) < length (send_script k fd)"
  by (auto simp: sys_send_def Let_def split: list.splits send_result.splits)

text \<open>The loop of \<^verbatim>\<open>send_message\<close> with \<open>sent\<close> bytes of \<open>line\<close> already handed over. \<^verbatim>\<open>errno\<close> is not set when
  \<^verbatim>\<open>send\<close> returns 0.\<close>

function send_loop :: "string \<Rightarrow> nat \<Rightarrow> TCPClient \<Rightarrow> Kernel \<Rightarrow> (bool \<times> TCPClient \<times> Kernel) option" where
  "send_loop line sent c k =
     (if \<not> sent < length line then Some (True, c, k)
      else
        (let r = sys_send (c_fd c) (drop sent line) k; k' = snd r
         in case fst r of
              Written n \<Rightarrow>
                (if n > 0 then send_loop line (sent + n) c k'
                 else Some (False, c\<lparr>c_error := ''send() failed: '' @ strerror k' (EOTHER 0)\<rparr>, k'))
            | SendError e \<Rightarrow>
                (if e = EINTR then send_loop line sent c k'
                 else if e = EAGAIN \<or> e = EWOULDBLOCK
                 then (case sys_poll k' of
                         None \<Rightarrow> None
                       | Some (err, k'') \<Rightarrow>
                           (if err \<noteq> None \<and> err \<noteq> Some EINTR
                            then Some (False, c\<lparr>c_error := ''poll() failed: '' @ strerror k'' (the err)\<rparr>, k'')
                            else send_loop line sent c k''))
                 else Some (False, c\<lparr>c_error := ''send() failed: '' @ strerror k' e\<rparr>, k'))))"
  by pat_completeness auto

termination
proof (relation "measure (\<lambda>(line, sent, c, k). length (send_script k (c_fd c)) + length (poll_script k))", goal_cases)
  case (4 line sent c k r k' e p err k'')
  then have "sys_poll k' = Some (err, k'')" "k' = snd (sys_send (c_fd c) (drop sent line) k)" by auto
  from sys_poll_facts(3,4) [OF this(1)] this(2) send_script_shrinks(1) [of "c_fd c" "drop sent line" k]
  show ?case by (simp add: frame_simps)
qed (auto simp: frame_simps intro: send_script_shrinks)

declare send_loop.simps [simp del]

definition send_message :: "string \<Rightarrow> TCPClient \<Rightarrow> Kernel \<Rightarrow> (bool \<times> TCPClient \<times> Kernel) option" where
  "send_message line c k = (if c_fd c < 0 then Some (False, c, k) else send_loop line 0 c k)"

section \<open>Receiving\<close>

text \<open>The loop that cuts complete lines off the input buffer.\<close>

function frame_lines :: "string \<Rightarrow> string list \<Rightarrow> string list \<times> string" where
  "frame_lines buf out =
     (case str_find LF buf of
        None \<Rightarrow> (out, buf)
      | Some newline \<Rightarrow> frame_lines (drop (newline + 1) buf) (out @ [strip_cr (take newline buf)]))"
  by pat_completeness auto

termination
  by (relation "measure (\<lambda>(buf, out). length buf)") (auto dest!: str_find_Some)

declare frame_lines.simps [simp del]

definition client_chunk :: nat where "client_chunk = 8192"

lemma client_chunk_pos: "0 < client_chunk"
  by (simp add: client_chunk_def)

function receive_loop :: "TCPClient \<Rightarrow> string list \<Rightarrow> Kernel \<Rightarrow> bool \<times> TCPClient \<times> string list \<times> Kernel" where
  "receive_loop c out k =
     (let r = sys_recv (c_fd c) client_chunk k; k' = snd r
      in case fst r of
           Data bs \<Rightarrow>
             (if bs \<noteq> []
              then (let f = frame_lines (c_inbuf c @ bs) out;
                        c' = c\<lparr>c_inbuf := snd f\<rparr>
                    in if length bs < client_chunk then (True, c', fst f, k') else receive_loop c' (fst f) k')
              else (False, c\<lparr>c_error := ''server closed the connection''\<rparr>, out, k'))
         | RecvError e \<Rightarrow>
             (if e = EINTR then receive_loop c out k'
              else if e = EAGAIN \<or> e = EWOULDBLOCK then (True, c, out, k')
              else (False, c\<lparr>c_error := ''recv() failed: '' @ strerror k' e\<rparr>, out, k')))"
  by pat_completeness auto

termination
  by (relation "measure (\<lambda>(c, out, k). recv_weight (recv_script k (c_fd c)))")
    (auto simp: client_chunk_pos intro: sys_recv_weight)

declare receive_loop.simps [simp del]

definition receive_messages :: "TCPClient \<Rightarrow> Kernel \<Rightarrow> bool \<times> TCPClient \<times> string list \<times> Kernel" where
  "receive_messages c k = receive_loop c [] k"

section \<open>Closing\<close>

definition shutdown_writes :: "TCPClient \<Rightarrow> Kernel \<Rightarrow> Kernel" where
  "shutdown_writes c k = (if c_fd c \<ge> 0 then sys_shutdown (c_fd c) SHUT_WR k else k)"

definition disconnect :: "TCPClient \<Rightarrow> Kernel \<Rightarrow> TCPClient \<times> Kernel" where
  "disconnect c k = (if c_fd c \<ge> 0 then (c\<lparr>c_fd := -1\<rparr>, sys_close (c_fd c) k) else (c, k))"

text \<open>The destructor.\<close>

definition destroy_client :: "TCPClient \<Rightarrow> Kernel \<Rightarrow> Kernel" where
  "destroy_client c k = snd (disconnect c k)"

lemma destroy_disconnected [simp]: "destroy_client (fst (disconnect c k)) k' = k'"
  by (simp add: destroy_client_def disconnect_def)


section \<open>What sending hands over\<close>

text \<open>Sending touches nothing of the world but the stream of its descriptor and the scripts.\<close>

definition sends :: "int \<Rightarrow> string \<Rightarrow> Kernel \<Rightarrow> Kernel \<Rightarrow> bool" where
  "sends fd bs k k' \<longleftrightarrow> wire k' fd = wire k fd @ bs \<and> (\<forall>fd'. fd' \<noteq> fd \<longrightarrow> wire k' fd' = wire k fd') \<and>
     open_fds k' = open_fds k \<and> bad_close k' = bad_close k \<and> recv_script k' = recv_script k \<and> shutdowns k' = shutdowns k"

lemma sends_refl: "sends fd [] k k"
  by (simp add: sends_def)

lemma sends_trans: "sends fd xs k k' \<Longrightarrow> sends fd ys k' k'' \<Longrightarrow> sends fd (xs @ ys) k k''"
  by (simp add: sends_def)

lemma sys_send_shutdowns [frame_simps]: "shutdowns (snd (sys_send fd bs k)) = shutdowns k"
  by (simp add: sys_send_def Let_def split: list.split send_result.split)

lemma sys_send_sends:
  "fst (sys_send fd bs k) = Written n \<Longrightarrow> sends fd (take n bs) k (snd (sys_send fd bs k)) \<and> n \<le> length bs"
  "fst (sys_send fd bs k) = SendError e \<Longrightarrow> sends fd [] k (snd (sys_send fd bs k))"
  by (auto simp: sends_def sys_send_def Let_def split: list.splits send_result.splits)

lemma sys_poll_sends: "sys_poll k = Some (r, k') \<Longrightarrow> sends fd [] k k'"
  by (auto simp: sends_def dest: sys_poll_facts(1))

lemma send_loop_whole:
  assumes "send_loop line sent c k = Some (ok, c', k')" and "sent \<le> length line"
  shows "\<exists>n. sent + n \<le> length line \<and> sends (c_fd c) (take n (drop sent line)) k k' \<and>
    (ok \<longrightarrow> sent + n = length line \<and> c' = c) \<and> (\<exists>err. c' = c\<lparr>c_error := err\<rparr>)"
  using assms
proof (induction line sent c k rule: send_loop.induct)
  case (1 line sent c k)
  define r where "r = sys_send (c_fd c) (drop sent line) k"
  have same: "\<exists>err. c = c\<lparr>c_error := err\<rparr>" by (rule exI [of _ "c_error c"]) simp
  show ?case
  proof (cases "sent < length line")
    case False
    with 1(4,5) same show ?thesis
      by (subst (asm) send_loop.simps) (intro exI [of _ 0], simp add: sends_refl)
  next
    case True
    note eq = 1(4) [unfolded send_loop.simps [of line sent c k] Let_def, folded r_def]
    note IH = 1(1-3) [OF _ r_def refl, simplified True]
    have stop: ?thesis if "sends (c_fd c) [] k k'" "\<not> ok" "c' = c\<lparr>c_error := err\<rparr>" for err
      using that 1(5) by (intro exI [of _ 0]) auto
    show ?thesis
    proof (cases "fst r")
      case (Written n)
      note s = sys_send_sends(1) [OF Written [unfolded r_def], folded r_def]
      show ?thesis
      proof (cases "n > 0")
        case pos: True
        have le: "sent + n \<le> length line" using s True by auto
        with IH(1) [OF _ Written pos] eq True Written pos obtain m where
          m: "sent + n + m \<le> length line" "sends (c_fd c) (take m (drop (sent + n) line)) (snd r) k'"
            "ok \<longrightarrow> sent + n + m = length line \<and> c' = c" "\<exists>err. c' = c\<lparr>c_error := err\<rparr>" by auto
        have "sends (c_fd c) (take n (drop sent line) @ take m (drop (sent + n) line)) k k'"
          using s m(2) sends_trans by blast
        then have "sends (c_fd c) (take (n + m) (drop sent line)) k k'"
          by (metis add.commute drop_drop take_add)
        with m show ?thesis by (intro exI [of _ "n + m"]) auto
      next
        case False
        with eq True Written s show ?thesis by (intro stop) auto
      qed
    next
      case (SendError e)
      note s = sys_send_sends(2) [OF SendError [unfolded r_def], folded r_def]
      have go_on: ?thesis if "sends (c_fd c) [] k k1"
        "\<exists>n. sent + n \<le> length line \<and> sends (c_fd c) (take n (drop sent line)) k1 k' \<and>
          (ok \<longrightarrow> sent + n = length line \<and> c' = c) \<and> (\<exists>err. c' = c\<lparr>c_error := err\<rparr>)" for k1
        using that sends_trans [OF that(1)] by fastforce
      consider (again) "e = EINTR" | (fail) "e \<noteq> EINTR" "e \<noteq> EAGAIN" "e \<noteq> EWOULDBLOCK"
        | (wait) "e = EAGAIN \<or> e = EWOULDBLOCK" by blast
      then show ?thesis
      proof cases
        case again
        with IH(2) [OF _ SendError] eq True SendError 1(5) show ?thesis by (intro go_on [OF s]) auto
      next
        case fail
        with eq True SendError s show ?thesis by (intro stop) auto
      next
        case wait
        then have e: "e \<noteq> EINTR" by auto
        obtain err k2 where p: "sys_poll (snd r) = Some (err, k2)"
          using eq True SendError wait e by (cases "sys_poll (snd r)") auto
        have s2: "sends (c_fd c) [] k k2" using sends_trans [OF s sys_poll_sends [OF p]] by simp
        show ?thesis
        proof (cases "err \<noteq> None \<and> err \<noteq> Some EINTR")
          case bad: True
          with eq True SendError wait e p s2 show ?thesis by (intro stop [of "''poll() failed: '' @ strerror k2 (the err)"]) auto
        next
          case False
          with IH(3) [OF _ SendError e wait p refl False] eq True SendError wait e p 1(5)
          show ?thesis by (intro go_on [OF s2]) auto
        qed
      qed
    qed
  qed
qed

lemma send_loop_returns:
  assumes "list_all benign (send_script k (c_fd c))" and "length line - sent \<le> capacity (send_script k (c_fd c))"
    and "set (poll_script k) \<subseteq> {None, Some EINTR}" and "waits (send_script k (c_fd c)) \<le> length (poll_script k)"
  shows "\<exists>k'. send_loop line sent c k = Some (True, c, k')"
  using assms
proof (induction "send_script k (c_fd c)" arbitrary: sent k)
  case Nil
  then show ?case by (subst send_loop.simps) simp
next
  case (Cons x rest)
  show ?case
  proof (cases "sent < length line")
    case False
    then show ?thesis by (subst send_loop.simps) simp
  next
    case True
    define r where "r = sys_send (c_fd c) (drop sent line) k"
    note form = send_loop.simps [of line sent c k, unfolded Let_def, folded r_def]
    have script: "send_script (snd r) (c_fd c) = rest" "poll_script (snd r) = poll_script k"
      using Cons.hyps(2) by (auto simp: r_def sys_send_def Let_def split: send_result.split list.split)
    have rest: "list_all benign rest" using Cons.prems(1) Cons.hyps(2) [symmetric] by simp
    show ?thesis
    proof (cases x)
      case (Written n)
      then have r: "fst r = Written (min n (length line - sent))" "n > 0"
        using Cons.hyps(2) [symmetric] Cons.prems(1) by (simp_all add: r_def sys_send_def Let_def)
      have "\<exists>k'. send_loop line (sent + min n (length line - sent)) c (snd r) = Some (True, c, k')"
        using Cons.prems rest Cons.hyps(2) [symmetric] Written script
        by (intro Cons.hyps(1)) auto
      with r True form show ?thesis by simp
    next
      case (SendError e)
      have r: "fst r = SendError e" using Cons.hyps(2) [symmetric] SendError by (simp add: r_def sys_send_def)
      show ?thesis
      proof (cases "e = EINTR")
        case eintr: True
        have "\<exists>k'. send_loop line sent c (snd r) = Some (True, c, k')"
          using Cons.prems rest Cons.hyps(2) [symmetric] SendError eintr script by (intro Cons.hyps(1)) auto
        with r True eintr form show ?thesis by simp
      next
        case False
        then have e: "e = EAGAIN \<or> e = EWOULDBLOCK" using Cons.prems(1) Cons.hyps(2) [symmetric] SendError by simp
        obtain err polls where polls: "poll_script k = err # polls" "err \<in> {None, Some EINTR}" "set polls \<subseteq> {None, Some EINTR}"
          using Cons.prems(3,4) Cons.hyps(2) [symmetric] SendError False by (cases "poll_script k") auto
        have poll: "sys_poll (snd r) = Some (err, (snd r)\<lparr>poll_script := polls\<rparr>)" using polls script by (simp add: sys_poll_def)
        have "\<exists>k'. send_loop line sent c ((snd r)\<lparr>poll_script := polls\<rparr>) = Some (True, c, k')"
          using Cons.prems rest Cons.hyps(2) [symmetric] SendError False script polls by (intro Cons.hyps(1)) auto
        with r True False e poll polls(2) form show ?thesis by auto
      qed
    qed
  qed
qed

section \<open>What receiving delivers\<close>

lemma frame_lines_split: "frame_lines buf out = (out @ map strip_cr (fst (split_lines buf)), snd (split_lines buf))"
proof (induction buf out rule: frame_lines.induct)
  case (1 buf out)
  show ?case
  proof (cases "str_find LF buf")
    case None
    then have "split_lines buf = ([], buf)" by (simp add: split_none)
    with None show ?thesis by (subst frame_lines.simps) (simp del: str_find_None)
  next
    case (Some n)
    with 1 [OF Some] split_found [OF Some] show ?thesis by (subst frame_lines.simps) simp
  qed
qed

text \<open>The bytes a receive script still holds.\<close>

fun script_bytes :: "recv_result list \<Rightarrow> string" where
  "script_bytes [] = []"
| "script_bytes (Data bs # rest) = bs @ script_bytes rest"
| "script_bytes (RecvError e # rest) = script_bytes rest"

lemma sys_recv_bytes:
  "fst (sys_recv fd n k) = Data bs \<Longrightarrow>
     script_bytes (recv_script k fd) = bs @ script_bytes (recv_script (snd (sys_recv fd n k)) fd)"
  "fst (sys_recv fd n k) = RecvError e \<Longrightarrow>
     script_bytes (recv_script k fd) = script_bytes (recv_script (snd (sys_recv fd n k)) fd)"
  by (auto simp: sys_recv_def split: list.splits recv_result.splits if_splits)

lemma receive_loop_frames:
  assumes "receive_loop c out k = (ok, c', out', k')" and "LF \<notin> set (c_inbuf c)"
  shows "\<exists>bytes. script_bytes (recv_script k (c_fd c)) = bytes @ script_bytes (recv_script k' (c_fd c)) \<and>
    out' = out @ map strip_cr (fst (split_lines (c_inbuf c @ bytes))) \<and>
    c_inbuf c' = snd (split_lines (c_inbuf c @ bytes)) \<and> (\<exists>err b. c' = c\<lparr>c_inbuf := b, c_error := err\<rparr>) \<and>
    (ok \<longrightarrow> c_error c' = c_error c)"
  using assms
proof (induction c out k rule: receive_loop.induct)
  case (1 c out k)
  define r where "r = sys_recv (c_fd c) client_chunk k"
  note eq = 1(3) [unfolded receive_loop.simps [of c out k] Let_def, folded r_def]
  note none = split_none [OF 1(4)]
  have keep: "\<exists>err b. c\<lparr>c_error := e\<rparr> = c\<lparr>c_inbuf := b, c_error := err\<rparr>" for e
    by (intro exI [of _ e] exI [of _ "c_inbuf c"]) simp
  show ?case
  proof (cases "fst r")
    case (Data bs)
    note rec = sys_recv_bytes(1) [OF Data [unfolded r_def], folded r_def]
    define c1 where "c1 = c\<lparr>c_inbuf := snd (split_lines (c_inbuf c @ bs))\<rparr>"
    have f: "frame_lines (c_inbuf c @ bs) out = (out @ map strip_cr (fst (split_lines (c_inbuf c @ bs))), c_inbuf c1)"
      by (simp add: frame_lines_split c1_def)
    consider (eof) "bs = []" | (last) "bs \<noteq> []" "length bs < client_chunk" | (more) "bs \<noteq> []" "\<not> length bs < client_chunk"
      by blast
    then show ?thesis
    proof cases
      case eof
      with eq Data rec none keep show ?thesis by (intro exI [of _ "[]"]) auto
    next
      case last
      with eq Data rec f have "ok" "c' = c1" "k' = snd r" "out' = out @ map strip_cr (fst (split_lines (c_inbuf c @ bs)))"
        by (auto simp: c1_def)
      moreover have "\<exists>err b. c1 = c\<lparr>c_inbuf := b, c_error := err\<rparr>"
        by (intro exI [of _ "c_error c"] exI [of _ "c_inbuf c1"]) (simp add: c1_def)
      ultimately show ?thesis using rec by (intro exI [of _ bs]) (simp add: c1_def)
    next
      case more
      have "receive_loop c1 (out @ map strip_cr (fst (split_lines (c_inbuf c @ bs)))) (snd r) = (ok, c', out', k')"
        using eq Data more f by (simp add: c1_def)
      moreover have "LF \<notin> set (c_inbuf c1)" using split_lines_sound(2) by (simp add: c1_def)
      ultimately obtain bytes where b: "script_bytes (recv_script (snd r) (c_fd c)) = bytes @ script_bytes (recv_script k' (c_fd c))"
          "out' = out @ map strip_cr (fst (split_lines (c_inbuf c @ bs))) @ map strip_cr (fst (split_lines (c_inbuf c1 @ bytes)))"
          "c_inbuf c' = snd (split_lines (c_inbuf c1 @ bytes))" "\<exists>err b. c' = c1\<lparr>c_inbuf := b, c_error := err\<rparr>"
          "ok \<longrightarrow> c_error c' = c_error c"
        using 1(1) [OF r_def refl Data more(1) refl, of c1] more(2) f by (auto simp: c1_def)
      have "c_inbuf c1 = snd (split_lines (c_inbuf c @ bs))" by (simp add: c1_def)
      then show ?thesis
        using b rec split_lines_append [of "c_inbuf c @ bs" bytes]
        by (intro exI [of _ "bs @ bytes"]) (auto simp: c1_def)
    qed
  next
    case (RecvError e)
    note rec = sys_recv_bytes(2) [OF RecvError [unfolded r_def], folded r_def]
    show ?thesis
    proof (cases "e = EINTR")
      case True
      with 1(2) [OF r_def refl RecvError True] eq RecvError 1(4) rec show ?thesis by simp
    next
      case False
      have "\<exists>err b. c = c\<lparr>c_inbuf := b, c_error := err\<rparr>"
        by (intro exI [of _ "c_error c"] exI [of _ "c_inbuf c"]) simp
      with False eq RecvError rec none keep show ?thesis by (intro exI [of _ "[]"]) (auto split: if_splits)
    qed
  qed
qed

text \<open>A client that reads again and again, whatever the earlier calls returned.\<close>

fun receive_calls :: "nat \<Rightarrow> TCPClient \<Rightarrow> Kernel \<Rightarrow> string list \<times> TCPClient \<times> Kernel" where
  "receive_calls 0 c k = ([], c, k)"
| "receive_calls (Suc n) c k =
     (let (ok, c, out, k) = receive_messages c k; (outs, c, k) = receive_calls n c k in (out @ outs, c, k))"

lemma receive_calls_frames:
  assumes "receive_calls n c k = (outs, c', k')" and "LF \<notin> set (c_inbuf c)"
  shows "\<exists>bytes. script_bytes (recv_script k (c_fd c)) = bytes @ script_bytes (recv_script k' (c_fd c)) \<and>
    outs = map strip_cr (fst (split_lines (c_inbuf c @ bytes))) \<and> c_inbuf c' = snd (split_lines (c_inbuf c @ bytes))"
  using assms
proof (induction n arbitrary: c k outs)
  case 0
  then show ?case by (intro exI [of _ "[]"]) (simp add: split_none)
next
  case (Suc n)
  obtain ok c1 out1 k1 where r: "receive_loop c [] k = (ok, c1, out1, k1)" by (metis surj_pair)
  from receive_loop_frames [OF r Suc.prems(2)] obtain bytes where
    b: "script_bytes (recv_script k (c_fd c)) = bytes @ script_bytes (recv_script k1 (c_fd c))"
      "out1 = map strip_cr (fst (split_lines (c_inbuf c @ bytes)))" "c_inbuf c1 = snd (split_lines (c_inbuf c @ bytes))"
      "c_fd c1 = c_fd c" by auto
  obtain outs1 where o1: "receive_calls n c1 k1 = (outs1, c', k')" "outs = out1 @ outs1"
    using Suc.prems(1) by (auto simp: receive_messages_def r split: prod.splits)
  have "LF \<notin> set (c_inbuf c1)" using split_lines_sound(2) by (simp add: b(3))
  from Suc.IH [OF o1(1) this] obtain bytes1 where
    b1: "script_bytes (recv_script k1 (c_fd c)) = bytes1 @ script_bytes (recv_script k' (c_fd c))"
      "outs1 = map strip_cr (fst (split_lines (c_inbuf c1 @ bytes1)))" "c_inbuf c' = snd (split_lines (c_inbuf c1 @ bytes1))"
    by (auto simp: b(4))
  show ?case
    using b b1 o1(2) split_lines_append [of "c_inbuf c @ bytes" bytes1]
    by (intro exI [of _ "bytes @ bytes1"]) simp
qed

text \<open>A call reads something off the script, unless there is nothing left.\<close>

lemma receive_loop_weight:
  "recv_weight (recv_script (snd (snd (snd (receive_loop c out k)))) (c_fd c)) \<le> recv_weight (recv_script k (c_fd c)) - 1"
proof (induction c out k rule: receive_loop.induct)
  case (1 c out k)
  define r where "r = sys_recv (c_fd c) client_chunk k"
  note form = receive_loop.simps [of c out k, unfolded Let_def, folded r_def]
  have less: "recv_weight (recv_script (snd r) (c_fd c)) \<le> recv_weight (recv_script k (c_fd c)) - 1"
    using sys_recv_weight [of "c_fd c" client_chunk k, folded r_def] client_chunk_pos
    by (cases "recv_script k (c_fd c)") (auto simp: r_def sys_recv_def split: recv_result.splits)
  show ?case
  proof (cases "fst r")
    case (Data bs)
    then show ?thesis using 1(1) [OF r_def refl Data _ refl refl] less by (auto simp: form)
  next
    case (RecvError e)
    then show ?thesis using 1(2) [OF r_def refl RecvError] less by (auto simp: form)
  qed
qed

lemma receive_calls_drain:
  assumes "receive_calls n c k = (outs, c', k')" and "recv_weight (recv_script k (c_fd c)) \<le> n" and "LF \<notin> set (c_inbuf c)"
  shows "recv_weight (recv_script k' (c_fd c)) = 0"
  using assms
proof (induction n arbitrary: c k outs)
  case (Suc n)
  obtain ok c1 out1 k1 where r: "receive_loop c [] k = (ok, c1, out1, k1)" by (metis surj_pair)
  obtain outs1 where o1: "receive_calls n c1 k1 = (outs1, c', k')"
    using Suc.prems(1) by (auto simp: receive_messages_def r split: prod.splits)
  have c1: "c_fd c1 = c_fd c" "LF \<notin> set (c_inbuf c1)"
    using receive_loop_frames [OF r Suc.prems(3)] split_lines_sound(2) by auto
  have "recv_weight (recv_script k1 (c_fd c)) \<le> n"
    using receive_loop_weight [of c "[]" k] Suc.prems(2) by (simp add: r)
  with Suc.IH [OF o1] c1 show ?case by simp
qed simp

lemma no_weight_no_bytes: "recv_weight sc = 0 \<Longrightarrow> script_bytes sc = []"
  by (cases sc rule: recv_weight.cases) auto

text \<open>A client that reads on until everything has arrived hears the lines of a stream of whole lines.\<close>

lemma receive_calls_lines:
  assumes "receive_calls n c k = (messages, c', k')" and "recv_weight (recv_script k (c_fd c)) \<le> n" and "c_inbuf c = []"
    and "stream = [] \<or> last stream = LF" and "script_bytes (recv_script k (c_fd c)) = stream"
  shows "c_inbuf c' = [] \<and> (\<exists>lines. stream = unlines lines \<and> list_all (\<lambda>l. LF \<notin> set l) lines \<and> messages = map strip_cr lines)"
proof -
  have empty: "LF \<notin> set (c_inbuf c)" using assms(3) by simp
  have got: "messages = map strip_cr (fst (split_lines stream))" "c_inbuf c' = snd (split_lines stream)"
    using receive_calls_frames [OF assms(1) empty] no_weight_no_bytes [OF receive_calls_drain [OF assms(1,2) empty]] assms(3,5)
    by auto
  have "unlines (fst (split_lines stream)) = stream"
    using split_lines_sound(1) [of stream] whole_lines_split [OF assms(4)] by simp
  with got whole_lines_split [OF assms(4)] split_lines_sound(3) [of stream] show ?thesis
    by (intro conjI exI [of _ "fst (split_lines stream)"]) (auto simp: list_all_iff)
qed

section \<open>Properties\<close>

text \<open>C27: a message is handed over whole, in order, or the call fails. When \<open>send_message\<close> returns true, the kernel has
  taken exactly the bytes of the message, after whatever it had taken before, however many partial
  writes, interruptions and waits it took; when it returns false it has taken a prefix. Nothing else
  of the world has changed.\<close>

theorem send_message_whole:
  assumes "send_message line c k = Some (ok, c', k')"
  shows "\<exists>n \<le> length line. wire k' (c_fd c) = wire k (c_fd c) @ take n line \<and> (ok \<longrightarrow> n = length line \<and> c' = c) \<and>
    (\<forall>fd. fd \<noteq> c_fd c \<longrightarrow> wire k' fd = wire k fd) \<and> open_fds k' = open_fds k \<and> recv_script k' = recv_script k"
proof (cases "c_fd c < 0")
  case True
  with assms show ?thesis by (intro exI [of _ 0]) (auto simp: send_message_def)
next
  case False
  with assms have "send_loop line 0 c k = Some (ok, c', k')" by (simp add: send_message_def)
  from send_loop_whole [OF this] show ?thesis by (auto simp: sends_def)
qed

definition demo_conn :: TCPClient where
  "demo_conn = (new_client ''localhost'' 5000)\<lparr>c_fd := 3\<rparr>"

definition demo_slow :: Kernel where
  "demo_slow = quiet_kernel\<lparr>send_script := (\<lambda>_. [Written 2, SendError EAGAIN, SendError EINTR, Written 9]), poll_script := [None]\<rparr>"

theorem send_message_whole_witness:
  "\<exists>k'. send_message ''QUIT'' demo_conn demo_slow = Some (True, demo_conn, k') \<and> wire k' 3 = ''QUIT''"
proof -
  have r: "map_option fst (send_message ''QUIT'' demo_conn demo_slow) = Some True" by code_simp
  then obtain c' k' where s: "send_message ''QUIT'' demo_conn demo_slow = Some (True, c', k')" by auto
  from send_message_whole [OF this] have "c' = demo_conn" "wire k' 3 = ''QUIT''"
    by (auto simp: demo_conn_def demo_slow_def quiet_kernel_def)
  with s show ?thesis by blast
qed

text \<open>C28: a send ends. When the socket keeps taking bytes, with any number of partial writes, interruptions and
  full buffers in between, each of which ends with a wakeup, and it takes enough for the
  whole message, then \<open>send_message\<close> returns, and returns true.\<close>

theorem send_message_returns:
  assumes "0 \<le> c_fd c" and "list_all benign (send_script k (c_fd c))" and "length line \<le> capacity (send_script k (c_fd c))"
    and "set (poll_script k) \<subseteq> {None, Some EINTR}" and "waits (send_script k (c_fd c)) \<le> length (poll_script k)"
  shows "\<exists>k'. send_message line c k = Some (True, c, k')"
  using send_loop_returns [of k c line 0] assms by (simp add: send_message_def)

theorem send_message_returns_witness: "\<exists>k'. send_message ''SELL JNST'' demo_conn demo_slow = Some (True, demo_conn, k')"
  by (rule send_message_returns) (simp_all add: demo_conn_def demo_slow_def quiet_kernel_def new_client_def)

text \<open>A client sees the lines of the byte stream, however it arrives. Whatever pieces the stream is
  delivered in, with interruptions, full reads and empty reads anywhere, after enough calls the
  messages received are exactly the complete lines of the stream, in order, without their line ends, and
  what follows the last line end is kept for the next call.\<close>

theorem client_receives_lines:
  assumes "LF \<notin> set (c_inbuf c)" and "recv_weight (recv_script k (c_fd c)) \<le> n" and "receive_calls n c k = (messages, c', k')"
  shows "messages = map strip_cr (fst (split_lines (c_inbuf c @ script_bytes (recv_script k (c_fd c))))) \<and>
    c_inbuf c' = snd (split_lines (c_inbuf c @ script_bytes (recv_script k (c_fd c))))"
  using receive_calls_frames [OF assms(3,1)] no_weight_no_bytes [OF receive_calls_drain [OF assms(3,2,1)]] by auto

theorem client_receives_lines_witness:
  "fst (receive_calls 9 demo_conn (quiet_kernel\<lparr>recv_script := (\<lambda>_. [Data ''O'', RecvError EINTR, Data (''K'' @ [LF] @ ''TR'')])\<rparr>)) = [''OK'']"
proof -
  let ?k = "quiet_kernel\<lparr>recv_script := (\<lambda>_. [Data ''O'', RecvError EINTR, Data (''K'' @ [LF] @ ''TR'')])\<rparr>"
  obtain messages c' k' where r: "receive_calls 9 demo_conn ?k = (messages, c', k')" by (metis surj_pair)
  have "messages = [''OK'']"
    using client_receives_lines [OF _ _ r] by (simp add: demo_conn_def new_client_def strip_cr_def)
  with r show ?thesis by simp
qed

end
