(* ===== verification/Client_Shell.thy ===== *)
theory Client_Shell
  imports Tcp_Client Event_Loop
begin

text \<open>
  The interactive loop of the two clients, \<^verbatim>\<open>src/src/client_shell.hpp\<close> and \<^verbatim>\<open>client_shell.cpp\<close>. One
  \<open>shell_tick\<close> is what one \<^verbatim>\<open>poll\<close> over the socket and standard input answers; the loop consumes a list of
  ticks, and a signal is found at the loop head when the list ends. Standard input is descriptor 0
  of the \<open>Kernel\<close>. \<open>sh_out\<close> collects the lines printed. A send that never returns makes the
  whole shell hang, which is the value \<^term>\<open>None\<close>.
\<close>

unbundle bit_operations_syntax

record ClientShellOptions =
  opt_host :: string
  opt_port :: int
  opt_role_name :: string
  opt_initial_commands :: "string list"
  opt_help_text :: string

record Shell =
  sh_client :: TCPClient
  stdin_buffer :: string
  stdin_open :: bool
  sent_quit :: bool
  status :: int
  g_stop :: bool
  sh_kern :: Kernel
  sh_out :: "string list"

datatype shell_tick = ShellEvents "16 word" "16 word" | ShellError errno

definition shell_print :: "string \<Rightarrow> Shell \<Rightarrow> Shell" where
  "shell_print line s = s\<lparr>sh_out := sh_out s @ [line]\<rparr>"

definition print_messages :: "string list \<Rightarrow> Shell \<Rightarrow> Shell" where
  "print_messages messages s = s\<lparr>sh_out := sh_out s @ map (\<lambda>m. ''<<< '' @ c_str m) messages\<rparr>"

section \<open>Typed lines\<close>

definition forward_line :: "string \<Rightarrow> string \<Rightarrow> Shell \<Rightarrow> (bool \<times> Shell) option" where
  "forward_line name line s =
     (case send_message (line @ [LF]) (sh_client s) (sh_kern s) of
        None \<Rightarrow> None
      | Some (ok, c, k) \<Rightarrow>
          (let s = s\<lparr>sh_client := c, sh_kern := k\<rparr>
           in if \<not> ok
              then Some (False, (shell_print (name @ '': '' @ c_error c) s)\<lparr>g_stop := True, status := 1\<rparr>)
              else if line = ''QUIT''
              then Some (False, s\<lparr>sent_quit := True, stdin_open := False, sh_kern := shutdown_writes c k\<rparr>)
              else Some (True, s)))"

text \<open>The loop over the complete lines of the standard-input buffer.\<close>

lemma forward_line_buffer: "forward_line name line s = Some (go, s') \<Longrightarrow> stdin_buffer s' = stdin_buffer s"
  by (auto simp: forward_line_def shell_print_def Let_def split: option.splits if_splits)

function forward_lines :: "string \<Rightarrow> Shell \<Rightarrow> Shell option" where
  "forward_lines name s =
     (case str_find LF (stdin_buffer s) of
        None \<Rightarrow> Some s
      | Some newline \<Rightarrow>
          (let line = strip_cr (take newline (stdin_buffer s));
               s' = s\<lparr>stdin_buffer := drop (newline + 1) (stdin_buffer s)\<rparr>
           in if line = [] then forward_lines name s'
              else (case forward_line name line s' of
                      None \<Rightarrow> None
                    | Some (go, s'') \<Rightarrow> (if go then forward_lines name s'' else Some s''))))"
  by pat_completeness auto

termination
  by (relation "measure (\<lambda>(name, s). length (stdin_buffer s))")
    (auto dest!: str_find_Some dest: forward_line_buffer)

declare forward_lines.simps [simp del]

definition stdin_chunk :: nat where "stdin_chunk = 4096"

text \<open>Standard input is readable or at its end.\<close>

definition read_stdin :: "string \<Rightarrow> Shell \<Rightarrow> Shell option" where
  "read_stdin name s =
     (let (r, k) = sys_recv 0 stdin_chunk (sh_kern s);
          s = s\<lparr>sh_kern := k\<rparr>
      in case r of
           RecvError e \<Rightarrow> (if e = EINTR then Some s else Some (s\<lparr>stdin_open := False\<rparr>))
         | Data bs \<Rightarrow>
             (if bs = []
              then (let s = s\<lparr>stdin_open := False\<rparr>
                    in if sent_quit s then Some s
                       else
                         (let s = s\<lparr>sent_quit := True\<rparr>
                          in case send_message (''QUIT'' @ [LF]) (sh_client s) (sh_kern s) of
                               None \<Rightarrow> None
                             | Some (_, c, k) \<Rightarrow> Some (s\<lparr>sh_client := c, sh_kern := shutdown_writes c k\<rparr>)))
              else forward_lines name (s\<lparr>stdin_buffer := stdin_buffer s @ bs\<rparr>)))"

section \<open>The loop\<close>

text \<open>One pass of the loop; the flag says whether it goes on.\<close>

definition shell_pass :: "string \<Rightarrow> shell_tick \<Rightarrow> Shell \<Rightarrow> (bool \<times> Shell) option" where
  "shell_pass name tick s =
     (case tick of
        ShellError e \<Rightarrow>
          (if e = EINTR then Some (True, s)
           else Some (False, (shell_print (name @ '': poll() failed: '' @ strerror (sh_kern s) e) s)\<lparr>status := 1\<rparr>))
      | ShellEvents socket_revents stdin_revents \<Rightarrow>
          (let (alive, s) =
                 (if socket_revents AND (POLLIN OR POLLHUP OR POLLERR) \<noteq> 0
                  then (let (alive, c, messages, k) = receive_messages (sh_client s) (sh_kern s)
                        in (alive, print_messages messages (s\<lparr>sh_client := c, sh_kern := k\<rparr>)))
                  else (True, s))
           in if \<not> alive then Some (False, shell_print ''Connection closed by the Exchange Server.'' s)
              else if \<not> stdin_open s then Some (True, s)
              else if stdin_revents AND (POLLIN OR POLLHUP) = 0 then Some (True, s)
              else map_option (\<lambda>s. (True, s)) (read_stdin name s)))"

fun shell_loop :: "string \<Rightarrow> shell_tick list \<Rightarrow> Shell \<Rightarrow> Shell option" where
  "shell_loop name [] s = Some s"
| "shell_loop name (t # ts) s =
     (if g_stop s then Some s
      else case shell_pass name t s of
             None \<Rightarrow> None
           | Some (go, s) \<Rightarrow> (if go then shell_loop name ts s else Some s))"

fun send_initial :: "string \<Rightarrow> string list \<Rightarrow> Shell \<Rightarrow> (bool \<times> Shell) option" where
  "send_initial name [] s = Some (True, s)"
| "send_initial name (command # commands) s =
     (let s = shell_print (''>>> '' @ c_str command) s
      in case send_message (command @ [LF]) (sh_client s) (sh_kern s) of
           None \<Rightarrow> None
         | Some (ok, c, k) \<Rightarrow>
             (let s = s\<lparr>sh_client := c, sh_kern := k\<rparr>
              in if \<not> ok then Some (False, shell_print (name @ '': '' @ c_error c) s)
                 else send_initial name commands s))"

text \<open>The end of the function: an orderly close unless \<^verbatim>\<open>QUIT\<close> has been sent already; then the destructor.\<close>

definition shell_finish :: "Shell \<Rightarrow> int \<times> string list \<times> Kernel" where
  "shell_finish s =
     (let k = (if \<not> sent_quit s then shutdown_writes (sh_client s) (sh_kern s) else sh_kern s);
          (c, k) = disconnect (sh_client s) k
      in (status s, sh_out s, destroy_client c k))"

text \<open>The exit status, what was printed and the world afterwards. Every return runs the destructor of the client, which
  closes the connection after a failing initial command and finds it closed otherwise.\<close>

definition run_client_shell :: "ClientShellOptions \<Rightarrow> shell_tick list \<Rightarrow> Kernel \<Rightarrow> (int \<times> string list \<times> Kernel) option" where
  "run_client_shell options ticks k =
     (let name = opt_role_name options;
          (reached, c, k) = connect_to_server (new_client (opt_host options) (opt_port options)) k
      in if \<not> reached then Some (1, [name @ '': '' @ c_error c], destroy_client c k)
         else
           (let s = \<lparr>sh_client = c, stdin_buffer = [], stdin_open = True, sent_quit = False, status = 0, g_stop = False,
                     sh_kern = k, sh_out = [name @ '' connected to '' @ opt_host options @ '':'' @
                       to_string (opt_port options) @ ''.'', opt_help_text options]\<rparr>
            in case send_initial name (opt_initial_commands options) s of
                 None \<Rightarrow> None
               | Some (ok, s) \<Rightarrow>
                   (if \<not> ok then Some (1, sh_out s, destroy_client (sh_client s) (sh_kern s))
                    else map_option shell_finish (shell_loop name ticks s))))"


section \<open>What the shell leaves alone\<close>

lemma send_message_facts:
  assumes "send_message line c k = Some (ok, c', k')"
  shows "\<exists>n \<le> length line. sends (c_fd c) (take n line) k k' \<and> (ok \<longrightarrow> n = length line)" and "c_fd c' = c_fd c"
proof -
  have "(\<exists>n \<le> length line. sends (c_fd c) (take n line) k k' \<and> (ok \<longrightarrow> n = length line)) \<and> c_fd c' = c_fd c"
  proof (cases "c_fd c < 0")
    case True
    with assms show ?thesis by (auto simp: send_message_def sends_refl intro: exI [of _ 0])
  next
    case False
    with assms have "send_loop line 0 c k = Some (ok, c', k')" by (simp add: send_message_def)
    from send_loop_whole [OF this] show ?thesis by auto
  qed
  then show "\<exists>n \<le> length line. sends (c_fd c) (take n line) k k' \<and> (ok \<longrightarrow> n = length line)" "c_fd c' = c_fd c" by auto
qed

lemma sys_recv_others:
  "fd' \<noteq> fd \<Longrightarrow> recv_script (snd (sys_recv fd n k)) fd' = recv_script k fd'" "shutdowns (snd (sys_recv fd n k)) = shutdowns k"
  by (simp_all add: sys_recv_def split: list.split recv_result.split)

lemma receive_loop_frame:
  assumes "receive_loop c out k = (ok, c', out', k')"
  shows "c_fd c' = c_fd c \<and> open_fds k' = open_fds k \<and> bad_close k' = bad_close k \<and> wire k' = wire k \<and>
    (\<forall>fd. fd \<noteq> c_fd c \<longrightarrow> recv_script k' fd = recv_script k fd)"
  using assms
proof (induction c out k rule: receive_loop.induct)
  case (1 c out k)
  define r where "r = sys_recv (c_fd c) client_chunk k"
  note eq = 1(3) [unfolded receive_loop.simps [of c out k] Let_def, folded r_def]
  have r: "open_fds (snd r) = open_fds k" "bad_close (snd r) = bad_close k" "wire (snd r) = wire k"
      "\<And>fd. fd \<noteq> c_fd c \<Longrightarrow> recv_script (snd r) fd = recv_script k fd"
    by (simp_all add: r_def frame_simps sys_recv_others)
  show ?case
  proof (cases "fst r")
    case (Data bs)
    then show ?thesis
      using 1(1) [OF r_def refl Data _ refl refl] eq r by (auto split: if_splits)
  next
    case (RecvError e)
    then show ?thesis
      using 1(2) [OF r_def refl RecvError] eq r by (auto split: if_splits)
  qed
qed

text \<open>What every part of the loop keeps: the descriptor and the open descriptors.\<close>

definition keeps :: "Shell \<Rightarrow> Shell \<Rightarrow> bool" where
  "keeps s t \<longleftrightarrow> c_fd (sh_client t) = c_fd (sh_client s) \<and> open_fds (sh_kern t) = open_fds (sh_kern s) \<and>
     bad_close (sh_kern t) = bad_close (sh_kern s)"

lemma keeps_refl: "keeps s s"
  by (simp add: keeps_def)

lemma keeps_trans: "keeps s t \<Longrightarrow> keeps t u \<Longrightarrow> keeps s u"
  by (simp add: keeps_def)

lemma send_message_keeps:
  assumes "send_message line c k = Some (ok, c', k')"
  shows "c_fd c' = c_fd c" "open_fds k' = open_fds k" "bad_close k' = bad_close k"
  using send_message_facts [OF assms] by (auto simp: sends_def)

lemma shutdown_writes_keeps [frame_simps]:
  "open_fds (shutdown_writes c k) = open_fds k" "bad_close (shutdown_writes c k) = bad_close k"
  "wire (shutdown_writes c k) = wire k" "recv_script (shutdown_writes c k) = recv_script k"
  by (simp_all add: shutdown_writes_def frame_simps)

lemma forward_line_keeps:
  assumes "forward_line name line s = Some (go, t)"
  shows "keeps s t"
proof -
  obtain ok c k where m: "send_message (line @ [LF]) (sh_client s) (sh_kern s) = Some (ok, c, k)"
    using assms by (auto simp: forward_line_def split: option.splits)
  from assms send_message_keeps [OF m] show ?thesis
    by (auto simp: forward_line_def m keeps_def shell_print_def Let_def frame_simps split: if_splits)
qed

lemma forward_lines_keeps: "forward_lines name s = Some t \<Longrightarrow> keeps s t"
proof (induction name s arbitrary: t rule: forward_lines.induct)
  case (1 name s)
  show ?case
  proof (cases "str_find LF (stdin_buffer s)")
    case None
    with 1(3) show ?thesis by (subst (asm) forward_lines.simps) (simp add: keeps_refl del: str_find_None)
  next
    case (Some n)
    define line where "line = strip_cr (take n (stdin_buffer s))"
    define s' where "s' = s\<lparr>stdin_buffer := drop (n + 1) (stdin_buffer s)\<rparr>"
    have s': "keeps s s'" by (simp add: s'_def keeps_def)
    note eq = 1(3) [unfolded forward_lines.simps [of name s] Let_def Some option.case, folded line_def, folded s'_def]
    show ?thesis
    proof (cases "line = []")
      case True
      with 1(1) [OF Some line_def s'_def] eq s' show ?thesis by (auto intro: keeps_trans)
    next
      case False
      with eq obtain go s'' where f: "forward_line name line s' = Some (go, s'')" "(if go then forward_lines name s'' else Some s'') = Some t"
        by (auto split: option.splits)
      from forward_line_keeps [OF f(1)] s' have "keeps s s''" by (blast intro: keeps_trans)
      with 1(2) [OF Some line_def s'_def False f(1) refl] f(2) show ?thesis by (auto split: if_splits intro: keeps_trans)
    qed
  qed
qed

lemma read_stdin_keeps:
  assumes "read_stdin name s = Some t"
  shows "keeps s t"
proof -
  define k where "k = snd (sys_recv 0 stdin_chunk (sh_kern s))"
  have k: "open_fds k = open_fds (sh_kern s)" "bad_close k = bad_close (sh_kern s)" by (simp_all add: k_def frame_simps)
  show ?thesis
  proof (cases "fst (sys_recv 0 stdin_chunk (sh_kern s))")
    case (RecvError e)
    with assms k show ?thesis by (auto simp: read_stdin_def case_prod_unfold Let_def keeps_def k_def [symmetric] split: if_splits)
  next
    case (Data bs)
    consider (eof) "bs = []" | (more) "bs \<noteq> []" by blast
    then show ?thesis
    proof cases
      case more
      let ?s = "s\<lparr>sh_kern := k, stdin_buffer := stdin_buffer s @ bs\<rparr>"
      have "forward_lines name ?s = Some t"
        using assms more by (simp add: read_stdin_def case_prod_unfold Let_def Data k_def)
      from forward_lines_keeps [OF this] k show ?thesis by (simp add: keeps_def)
    next
      case eof
      show ?thesis
      proof (cases "sent_quit s")
        case True
        with assms eof Data k show ?thesis by (auto simp: read_stdin_def case_prod_unfold Let_def k_def [symmetric] keeps_def)
      next
        case False
        then obtain ok c k1 where m: "send_message (''QUIT'' @ [LF]) (sh_client s) k = Some (ok, c, k1)"
            "t = s\<lparr>sh_kern := k, stdin_open := False, sent_quit := True, sh_client := c, sh_kern := shutdown_writes c k1\<rparr>"
          using assms eof Data by (auto simp: read_stdin_def case_prod_unfold Let_def k_def [symmetric] split: option.splits)
        from send_message_keeps [OF m(1)] k show ?thesis by (simp add: m(2) keeps_def frame_simps)
      qed
    qed
  qed
qed

lemma shell_pass_keeps: "shell_pass name tick s = Some (go, t) \<Longrightarrow> keeps s t"
proof -
  assume eq: "shell_pass name tick s = Some (go, t)"
  show ?thesis
  proof (cases tick)
    case (ShellError e)
    with eq show ?thesis by (auto simp: shell_pass_def keeps_def shell_print_def split: if_splits)
  next
    case (ShellEvents a b)
    define p where "p = (if a AND (POLLIN OR POLLHUP OR POLLERR) \<noteq> 0
        then (let (alive, c, messages, k) = receive_messages (sh_client s) (sh_kern s)
              in (alive, print_messages messages (s\<lparr>sh_client := c, sh_kern := k\<rparr>)))
        else (True, s))"
    have "keeps s (snd p)"
      using receive_loop_frame [of "sh_client s" "[]" "sh_kern s"]
      by (cases "receive_loop (sh_client s) [] (sh_kern s)")
        (simp add: p_def keeps_def receive_messages_def print_messages_def case_prod_unfold Let_def)
    moreover have "keeps (snd p) t"
      using eq unfolding ShellEvents shell_pass_def shell_tick.case p_def [symmetric]
      by (auto simp: case_prod_unfold keeps_refl shell_print_def split: if_splits intro: read_stdin_keeps)
        (simp add: keeps_def)
    ultimately show ?thesis by (rule keeps_trans)
  qed
qed

lemma shell_loop_keeps: "shell_loop name ts s = Some t \<Longrightarrow> keeps s t"
proof (induction name ts s rule: shell_loop.induct)
  case (2 name tick ts s)
  then show ?case
    by (auto simp: keeps_refl split: option.splits if_splits dest: shell_pass_keeps intro: keeps_trans)
qed (simp add: keeps_refl)

lemma send_initial_keeps: "send_initial name cs s = Some (ok, t) \<Longrightarrow> keeps s t"
proof (induction name cs s rule: send_initial.induct)
  case (2 name command commands s)
  obtain ok1 c k where m: "send_message (command @ [LF]) (sh_client s) (sh_kern s) = Some (ok1, c, k)"
    using 2(2) by (auto simp: shell_print_def Let_def split: option.splits)
  let ?s = "(shell_print (''>>> '' @ c_str command) s)\<lparr>sh_client := c, sh_kern := k\<rparr>"
  have s: "keeps s ?s" using send_message_keeps [OF m] by (simp add: keeps_def)
  show ?case
  proof (cases ok1)
    case True
    then have "keeps ?s t" using 2 m by (auto simp: shell_print_def Let_def)
    with s show ?thesis by (rule keeps_trans)
  next
    case False
    with 2(2) m s show ?thesis by (auto simp: shell_print_def Let_def keeps_def)
  qed
qed (simp add: keeps_refl)

section \<open>Connecting\<close>

lemma connect_to_facts:
  assumes "connect_to host port k = (Inr fd, k')"
  shows "wire k' fd = []" "recv_script k' = recv_script k" "0 \<le> fd"
proof -
  obtain addr where addr: "resolve_ipv4 (if host = [] then ''127.0.0.1'' else host) k = Inr addr"
    using assms by (cases "resolve_ipv4 (if host = [] then ''127.0.0.1'' else host) k") (auto simp: connect_to_def)
  obtain k1 where sock: "sys_socket k = (Inr fd, k1)" and conn: "sys_connect fd addr (word_of_int port) k1 = (None, k')"
    using assms by (auto simp: connect_to_def addr Let_def split: prod.splits sum.splits option.splits)
  have "wire k1 fd = [] \<and> recv_script k1 = recv_script k \<and> 0 \<le> fd"
    using sock by (auto simp: sys_socket_def Let_def open_fd_def lowest_free_fresh case_prod_unfold frame_simps split: option.splits)
  moreover have "wire k' = wire k1 \<and> recv_script k' = recv_script k1"
    using conn by (auto simp: sys_connect_def case_prod_unfold Let_def frame_simps)
  ultimately show "wire k' fd = []" "recv_script k' = recv_script k" "0 \<le> fd" by auto
qed

lemma connect_to_server_facts:
  assumes "connect_to_server c k = (reached, c', k')"
  shows "if reached then open_fds k' = c_fd c' # open_fds k \<and> c_fd c' \<notin> set (open_fds k) \<and> bad_close k' = bad_close k \<and>
      wire k' (c_fd c') = [] \<and> recv_script k' = recv_script k \<and> 0 \<le> c_fd c'
    else open_fds k' = open_fds k \<and> bad_close k' = bad_close k \<and> destroy_client c' k' = k'"
proof -
  obtain r k1 where con: "connect_to (c_host c) (c_port c) k = (r, k1)" by fastforce
  have leak: "no_leak (r, k1) k" using no_leak_connect [of "c_host c" "c_port c" k] by (simp add: con)
  show ?thesis
  proof (cases r)
    case (Inl err)
    with assms con leak show ?thesis by (auto simp: connect_to_server_def no_leak_def destroy_client_def disconnect_def)
  next
    case (Inr fd)
    with assms con have "reached" "c_fd c' = fd" "k' = snd (set_nonblocking fd (snd (set_tcp_nodelay fd k1)))"
      by (auto simp: connect_to_server_def Let_def)
    with leak Inr connect_to_facts [of "c_host c" "c_port c" k fd k1] con show ?thesis
      by (simp add: no_leak_def frame_simps)
  qed
qed

lemma disconnect_fresh:
  assumes "open_fds k = c_fd c # fds" and "c_fd c \<notin> set fds" and "0 \<le> c_fd c"
  shows "open_fds (snd (disconnect c k)) = fds" "bad_close (snd (disconnect c k)) = bad_close k"
  using close_fresh [OF assms(1,2)] assms(3) by (simp_all add: disconnect_def)

section \<open>What is forwarded\<close>

text \<open>Of the lines typed, the non-empty ones up to and including the first \<^verbatim>\<open>QUIT\<close> are sent.\<close>

fun forward :: "string list \<Rightarrow> string list" where
  "forward [] = []"
| "forward (l # ls) = (if l = [] then forward ls else if l = ''QUIT'' then [l] else l # forward ls)"

definition typed :: "string \<Rightarrow> string list" where
  "typed input = map strip_cr (fst (split_lines input))"

lemma forward_append:
  "''QUIT'' \<notin> set ls \<Longrightarrow> forward (ls @ ls') = forward ls @ forward ls'"
  "''QUIT'' \<in> set ls \<Longrightarrow> forward (ls @ ls') = forward ls"
  by (induction ls) auto

lemma forward_prefix: "prefix (unlines (forward ls)) (unlines (forward (ls @ ls')))"
  by (cases "''QUIT'' \<in> set ls") (simp_all add: forward_append)

lemma typed_append: "typed (input @ bs) = typed input @ typed (snd (split_lines input) @ bs)"
  using split_lines_append [of input bs] by (simp add: typed_def)

lemma typed_line: "LF \<notin> set l \<Longrightarrow> typed (l @ LF # xs) = strip_cr l # typed xs"
  by (simp add: typed_def split_line)

abbreviation sent_bytes :: "Shell \<Rightarrow> string" where
  "sent_bytes s \<equiv> wire (sh_kern s) (c_fd (sh_client s))"

text \<open>How the loop over the typed lines can end: everything is sent, or a send fails and the shell stops.\<close>

definition all_sent :: "string list \<Rightarrow> string \<Rightarrow> Shell \<Rightarrow> Shell \<Rightarrow> bool" where
  "all_sent ls rest s t \<longleftrightarrow> sent_bytes t = sent_bytes s @ unlines (forward ls) \<and> status t = status s \<and> g_stop t = g_stop s \<and>
     (if ''QUIT'' \<in> set ls then \<not> stdin_open t
      else stdin_open t = stdin_open s \<and> stdin_buffer t = rest)"

definition cut_short :: "string list \<Rightarrow> Shell \<Rightarrow> Shell \<Rightarrow> bool" where
  "cut_short ls s t \<longleftrightarrow> g_stop t \<and> status t = 1 \<and> prefix (sent_bytes t) (sent_bytes s @ unlines (forward ls))"

lemma forward_line_sends:
  assumes "forward_line name line s = Some (go, t)"
  shows "recv_script (sh_kern t) = recv_script (sh_kern s)"
    and "if go then line \<noteq> ''QUIT'' \<and> sent_bytes t = sent_bytes s @ line @ [LF] \<and> status t = status s \<and> g_stop t = g_stop s \<and>
          stdin_open t = stdin_open s
        else line = ''QUIT'' \<and> sent_bytes t = sent_bytes s @ line @ [LF] \<and> status t = status s \<and> g_stop t = g_stop s \<and> \<not> stdin_open t \<or>
          g_stop t \<and> status t = 1 \<and> prefix (sent_bytes t) (sent_bytes s @ line @ [LF])"
proof -
  obtain ok c k where m: "send_message (line @ [LF]) (sh_client s) (sh_kern s) = Some (ok, c, k)"
    using assms by (auto simp: forward_line_def split: option.splits)
  obtain n where n: "n \<le> length (line @ [LF])" "sends (c_fd (sh_client s)) (take n (line @ [LF])) (sh_kern s) k"
      "ok \<longrightarrow> n = length (line @ [LF])" and fd: "c_fd c = c_fd (sh_client s)"
    using send_message_facts [OF m] by blast
  note eq = assms [unfolded forward_line_def m option.case prod.case Let_def]
  have wire: "wire k (c_fd c) = sent_bytes s @ take n (line @ [LF])" "recv_script k = recv_script (sh_kern s)"
    using n(2) by (simp_all add: sends_def fd)
  show "recv_script (sh_kern t) = recv_script (sh_kern s)"
    using eq wire(2) by (auto simp: shell_print_def frame_simps split: if_splits)
  have "prefix (wire k (c_fd c)) (sent_bytes s @ line @ [LF])"
    using take_is_prefix [of n "line @ [LF]"] by (simp add: wire(1))
  then show "if go then line \<noteq> ''QUIT'' \<and> sent_bytes t = sent_bytes s @ line @ [LF] \<and> status t = status s \<and> g_stop t = g_stop s \<and>
          stdin_open t = stdin_open s
        else line = ''QUIT'' \<and> sent_bytes t = sent_bytes s @ line @ [LF] \<and> status t = status s \<and> g_stop t = g_stop s \<and> \<not> stdin_open t \<or>
          g_stop t \<and> status t = 1 \<and> prefix (sent_bytes t) (sent_bytes s @ line @ [LF])"
    using eq wire n(3) by (cases ok; cases "line = ''QUIT''") (auto simp: shell_print_def frame_simps)
qed

lemma forward_lines_sends:
  assumes "forward_lines name s = Some t"
  shows "recv_script (sh_kern t) = recv_script (sh_kern s) \<and>
    (all_sent (typed (stdin_buffer s)) (snd (split_lines (stdin_buffer s))) s t \<or> cut_short (typed (stdin_buffer s)) s t)"
  using assms
proof (induction name s arbitrary: t rule: forward_lines.induct)
  case (1 name s)
  show ?case
  proof (cases "str_find LF (stdin_buffer s)")
    case None
    then have "split_lines (stdin_buffer s) = ([], stdin_buffer s)" by (simp add: split_none)
    with 1(3) None show ?thesis
      by (subst (asm) forward_lines.simps) (simp add: all_sent_def typed_def del: str_find_None)
  next
    case (Some n)
    define line where "line = strip_cr (take n (stdin_buffer s))"
    define s' where "s' = s\<lparr>stdin_buffer := drop (n + 1) (stdin_buffer s)\<rparr>"
    define ls where "ls = typed (stdin_buffer s')"
    define rest where "rest = snd (split_lines (stdin_buffer s'))"
    have buf: "stdin_buffer s = take n (stdin_buffer s) @ LF # stdin_buffer s'" "LF \<notin> set (take n (stdin_buffer s))"
      using str_find_split [OF Some] str_find_Some [OF Some] by (simp_all add: s'_def)
    have "typed (take n (stdin_buffer s) @ LF # stdin_buffer s') = line # ls"
        "snd (split_lines (take n (stdin_buffer s) @ LF # stdin_buffer s')) = rest"
      using buf(2) by (simp_all add: typed_line line_def ls_def rest_def split_line)
    then have typed: "typed (stdin_buffer s) = line # ls" "snd (split_lines (stdin_buffer s)) = rest"
      by (simp_all flip: buf(1))
    note eq = 1(3) [unfolded forward_lines.simps [of name s] Let_def Some option.case, folded line_def, folded s'_def]
    have same: "sent_bytes s' = sent_bytes s" "status s' = status s" "g_stop s' = g_stop s" "stdin_open s' = stdin_open s"
        "recv_script (sh_kern s') = recv_script (sh_kern s)"
      by (simp_all add: s'_def)
    show ?thesis
    proof (cases "line = []")
      case True
      with 1(1) [OF Some line_def s'_def] eq
      have "recv_script (sh_kern t) = recv_script (sh_kern s') \<and> (all_sent ls rest s' t \<or> cut_short ls s' t)"
        by (simp add: ls_def rest_def)
      then show ?thesis unfolding typed by (auto simp: all_sent_def cut_short_def same True split: if_splits)
    next
      case False
      with eq obtain go s'' where f: "forward_line name line s' = Some (go, s'')" "(if go then forward_lines name s'' else Some s'') = Some t"
        by (auto split: option.splits)
      note one = forward_line_sends [OF f(1)]
      have buf'': "stdin_buffer s'' = stdin_buffer s'" by (rule forward_line_buffer [OF f(1)])
      show ?thesis
      proof (cases go)
        case True
        then have "recv_script (sh_kern t) = recv_script (sh_kern s'') \<and> (all_sent ls rest s'' t \<or> cut_short ls s'' t)"
          using 1(2) [OF Some line_def s'_def False f(1) refl] f(2) by (simp add: ls_def rest_def buf'')
        with one True False show ?thesis unfolding typed by (auto simp: all_sent_def cut_short_def same)
      next
        case stop: False
        then have t: "t = s''" using f(2) by simp
        from one(2) stop consider (quit) "line = ''QUIT''" "sent_bytes t = sent_bytes s @ line @ [LF]" "status t = status s" "g_stop t = g_stop s"
            "\<not> stdin_open t" | (fail) "g_stop t" "status t = 1" "prefix (sent_bytes t) (sent_bytes s @ line @ [LF])"
          by (auto simp: t same)
        then show ?thesis
        proof cases
          case quit
          then show ?thesis unfolding typed using one(1) by (auto simp: all_sent_def same t)
        next
          case fail
          have "prefix (sent_bytes t) (sent_bytes s @ unlines (forward (line # ls)))"
            using fail(3) False by (auto intro: prefix_order.trans)
          with fail one(1) show ?thesis unfolding typed by (simp add: cut_short_def same t)
        qed
      qed
    qed
  qed
qed

text \<open>After the bytes \<open>input\<close> of standard input, with \<open>base\<close> sent before the loop: what is sent is on the way to all the
  typed lines followed by a \<^verbatim>\<open>QUIT\<close>, it holds all of them unless the shell has failed, and while input is
  still read nothing else has been sent.\<close>

definition shell_inv :: "int \<Rightarrow> string \<Rightarrow> string \<Rightarrow> Shell \<Rightarrow> bool" where
  "shell_inv fd base input s \<longleftrightarrow> c_fd (sh_client s) = fd \<and>
     prefix (sent_bytes s) (base @ unlines (forward (typed input @ [''QUIT'']))) \<and>
     (status s = 0 \<longrightarrow> prefix (base @ unlines (forward (typed input))) (sent_bytes s)) \<and>
     (stdin_open s \<and> \<not> g_stop s \<longrightarrow> sent_bytes s = base @ unlines (forward (typed input)) \<and>
        ''QUIT'' \<notin> set (typed input) \<and> stdin_buffer s = snd (split_lines input))"

lemma shell_inv_cong:
  assumes "shell_inv fd base input s" and "c_fd (sh_client t) = c_fd (sh_client s)" and "wire (sh_kern t) = wire (sh_kern s)"
    and "status t = status s \<or> status t = 1" and "stdin_open t \<longrightarrow> stdin_open s \<and> g_stop t = g_stop s \<and> stdin_buffer t = stdin_buffer s"
  shows "shell_inv fd base input t"
  using assms by (auto simp: shell_inv_def)

lemma shell_inv_forward:
  assumes inv: "shell_inv fd base input s" and live: "stdin_open s" "\<not> g_stop s"
    and bs: "u = s\<lparr>sh_kern := k, stdin_buffer := stdin_buffer s @ bs\<rparr>" "wire k = wire (sh_kern s)"
    and fw: "forward_lines name u = Some t"
  shows "shell_inv fd base (input @ bs) t"
proof -
  let ?ls = "typed (stdin_buffer s @ bs)"
  have now: "sent_bytes s = base @ unlines (forward (typed input))" "''QUIT'' \<notin> set (typed input)"
      "stdin_buffer s = snd (split_lines input)" "c_fd (sh_client s) = fd"
    using inv live by (auto simp: shell_inv_def)
  have all: "typed (input @ bs) = typed input @ ?ls" using typed_append [of input bs] now(3) by simp
  have fwd: "forward (typed (input @ bs)) = forward (typed input) @ forward ?ls"
      "forward (typed (input @ bs) @ [''QUIT'']) = forward (typed input) @ forward (?ls @ [''QUIT''])"
    using now(2) by (simp_all add: all forward_append)
  have rest: "snd (split_lines (input @ bs)) = snd (split_lines (stdin_buffer s @ bs))"
    using split_lines_append [of input bs] by (simp add: now(3))
  have u: "sent_bytes u = base @ unlines (forward (typed input))" using now(1) bs by simp
  have t: "c_fd (sh_client t) = fd" using forward_lines_keeps [OF fw] now(4) bs(1) by (simp add: keeps_def)
  from forward_lines_sends [OF fw] consider
    (all) "all_sent ?ls (snd (split_lines (stdin_buffer s @ bs))) u t" | (cut) "cut_short ?ls u t"
    by (auto simp: bs(1))
  then show ?thesis
  proof cases
    case all
    have sent: "sent_bytes t = base @ unlines (forward (typed (input @ bs)))"
      using all by (simp add: all_sent_def u fwd)
    moreover have "prefix (sent_bytes t) (base @ unlines (forward (typed (input @ bs) @ [''QUIT''])))"
      using sent forward_prefix by simp
    moreover have "''QUIT'' \<notin> set (typed (input @ bs)) \<and> stdin_buffer t = snd (split_lines (input @ bs))" if "stdin_open t"
      using all that now(2) by (auto simp: all_sent_def \<open>typed (input @ bs) = typed input @ ?ls\<close> rest split: if_splits)
    ultimately show ?thesis using t by (simp add: shell_inv_def)
  next
    case cut
    have "prefix (sent_bytes t) (base @ unlines (forward (typed (input @ bs) @ [''QUIT''])))"
      by (rule prefix_order.trans [of _ "base @ unlines (forward (typed input)) @ unlines (forward ?ls)"])
        (use cut forward_prefix [of ?ls "[''QUIT'']"] in \<open>simp_all add: cut_short_def u fwd\<close>)
    with cut t show ?thesis by (simp add: shell_inv_def cut_short_def)
  qed
qed

lemma read_stdin_inv:
  assumes inv: "shell_inv fd base input s" and live: "stdin_open s" "\<not> g_stop s" and rd: "read_stdin name s = Some t"
  shows "\<exists>bs. script_bytes (recv_script (sh_kern s) 0) = bs @ script_bytes (recv_script (sh_kern t) 0) \<and>
    shell_inv fd base (input @ bs) t"
proof -
  define r where "r = sys_recv 0 stdin_chunk (sh_kern s)"
  have k: "wire (snd r) = wire (sh_kern s)" by (simp add: r_def frame_simps)
  have now: "sent_bytes s = base @ unlines (forward (typed input))" "''QUIT'' \<notin> set (typed input)" "c_fd (sh_client s) = fd"
    using inv live by (auto simp: shell_inv_def)
  note eq = rd [unfolded read_stdin_def case_prod_unfold Let_def, folded r_def]
  show ?thesis
  proof (cases "fst r")
    case (RecvError e)
    have "shell_inv fd base input t"
      using eq RecvError k by (intro shell_inv_cong [OF inv]) (auto split: if_splits)
    moreover have "recv_script (sh_kern t) = recv_script (snd r)" using eq RecvError by (auto split: if_splits)
    ultimately show ?thesis
      using sys_recv_bytes(2) [OF RecvError [unfolded r_def]] by (intro exI [of _ "[]"]) (simp add: r_def)
  next
    case (Data bs)
    note bytes = sys_recv_bytes(1) [OF Data [unfolded r_def], folded r_def]
    show ?thesis
    proof (cases "bs = []")
      case False
      define u where "u = s\<lparr>sh_kern := snd r, stdin_buffer := stdin_buffer s @ bs\<rparr>"
      have fw: "forward_lines name u = Some t" using eq Data False by (simp add: u_def)
      from shell_inv_forward [OF inv live u_def k fw] forward_lines_sends [OF fw] bytes show ?thesis
        by (intro exI [of _ bs]) (simp add: u_def)
    next
      case True
      have "shell_inv fd base input t \<and> recv_script (sh_kern t) = recv_script (snd r)"
      proof (cases "sent_quit s")
        case True
        with eq Data \<open>bs = []\<close> have t: "t = s\<lparr>sh_kern := snd r, stdin_open := False\<rparr>" by simp
        show ?thesis unfolding t by (intro conjI shell_inv_cong [OF inv]) (simp_all add: k)
      next
        case False
        then obtain ok c k1 where m: "send_message (''QUIT'' @ [LF]) (sh_client s) (snd r) = Some (ok, c, k1)"
            "t = s\<lparr>sh_kern := snd r, stdin_open := False, sent_quit := True, sh_client := c, sh_kern := shutdown_writes c k1\<rparr>"
          using eq Data \<open>bs = []\<close> by (auto split: option.splits)
        obtain n where n: "sends fd (take n (''QUIT'' @ [LF])) (snd r) k1" "c_fd c = fd"
          using send_message_facts [OF m(1)] now(3) by auto
        have sent: "sent_bytes t = base @ unlines (forward (typed input)) @ take n (''QUIT'' @ [LF])"
          using n now(1,3) k by (simp add: m(2) frame_simps sends_def)
        have "unlines (forward (typed input @ [''QUIT''])) = unlines (forward (typed input)) @ ''QUIT'' @ [LF]"
          using now(2) by (simp add: forward_append)
        then have "prefix (sent_bytes t) (base @ unlines (forward (typed input @ [''QUIT''])))"
          unfolding sent by (simp only: append_assoc same_prefix_prefix take_is_prefix)
        moreover have "prefix (base @ unlines (forward (typed input))) (sent_bytes t)" unfolding sent by simp
        moreover have "recv_script k1 = recv_script (snd r)" using n(1) by (simp add: sends_def)
        ultimately show ?thesis by (simp add: shell_inv_def m(2) n(2) frame_simps)
      qed
      with bytes True show ?thesis by (intro exI [of _ "[]"]) simp
    qed
  qed
qed

lemma shell_pass_inv:
  assumes inv: "shell_inv fd base input s" and stop: "\<not> g_stop s" and fd: "fd \<noteq> 0" and pass: "shell_pass name tick s = Some (go, t)"
  shows "\<exists>bs. script_bytes (recv_script (sh_kern s) 0) = bs @ script_bytes (recv_script (sh_kern t) 0) \<and>
    shell_inv fd base (input @ bs) t"
proof (cases tick)
  case (ShellError e)
  with pass have "shell_inv fd base input t" "sh_kern t = sh_kern s"
    by (auto simp: shell_pass_def shell_print_def split: if_splits intro: shell_inv_cong [OF inv])
  then show ?thesis by (intro exI [of _ "[]"]) simp
next
  case (ShellEvents a b)
  define p where "p = (if a AND (POLLIN OR POLLHUP OR POLLERR) \<noteq> 0
      then (let (alive, c, messages, k) = receive_messages (sh_client s) (sh_kern s)
            in (alive, print_messages messages (s\<lparr>sh_client := c, sh_kern := k\<rparr>)))
      else (True, s))"
  define s1 where "s1 = snd p"
  obtain ok c out k where rcv: "receive_loop (sh_client s) [] (sh_kern s) = (ok, c, out, k)" by (metis surj_pair)
  have "c_fd (sh_client s) = fd" using inv by (simp add: shell_inv_def)
  with receive_loop_frame [OF rcv] fd
  have s1: "c_fd (sh_client s1) = c_fd (sh_client s)" "wire (sh_kern s1) = wire (sh_kern s)"
      "recv_script (sh_kern s1) 0 = recv_script (sh_kern s) 0" "status s1 = status s" "stdin_open s1 = stdin_open s"
      "g_stop s1 = g_stop s" "stdin_buffer s1 = stdin_buffer s"
    by (auto simp: s1_def p_def receive_messages_def rcv print_messages_def Let_def)
  have inv1: "shell_inv fd base input s1" using s1 by (intro shell_inv_cong [OF inv]) simp_all
  have eq: "(if \<not> fst p then Some (False, shell_print ''Connection closed by the Exchange Server.'' s1)
      else if \<not> stdin_open s1 then Some (True, s1) else if b AND (POLLIN OR POLLHUP) = 0 then Some (True, s1)
      else map_option (\<lambda>s. (True, s)) (read_stdin name s1)) = Some (go, t)"
    using pass unfolding ShellEvents shell_pass_def shell_tick.case unfolding p_def [symmetric]
    unfolding case_prod_unfold Let_def s1_def .
  show ?thesis
  proof (cases "fst p \<and> stdin_open s1 \<and> b AND (POLLIN OR POLLHUP) \<noteq> 0")
    case True
    then have "read_stdin name s1 = Some t" using eq by (auto split: if_splits)
    from read_stdin_inv [OF inv1 _ _ this] True stop s1 show ?thesis by simp
  next
    case False
    then have "shell_inv fd base input t \<and> recv_script (sh_kern t) = recv_script (sh_kern s1)"
      using eq inv1 by (auto simp: shell_print_def split: if_splits intro: shell_inv_cong [OF inv1])
    then show ?thesis using s1(3) by (intro exI [of _ "[]"]) simp
  qed
qed

lemma shell_loop_inv:
  assumes "shell_loop name ticks s = Some t" and "shell_inv fd base input s" and "fd \<noteq> 0"
  shows "\<exists>bs. script_bytes (recv_script (sh_kern s) 0) = bs @ script_bytes (recv_script (sh_kern t) 0) \<and>
    shell_inv fd base (input @ bs) t"
  using assms
proof (induction name ticks s arbitrary: input rule: shell_loop.induct)
  case (1 name s)
  then show ?case by (intro exI [of _ "[]"]) simp
next
  case (2 name tick ticks s)
  show ?case
  proof (cases "g_stop s")
    case True
    with 2(2,3) show ?thesis by (intro exI [of _ "[]"]) simp
  next
    case False
    with 2(2) obtain go s1 where p: "shell_pass name tick s = Some (go, s1)" "(if go then shell_loop name ticks s1 else Some s1) = Some t"
      by (auto split: option.splits)
    obtain bs where bs: "script_bytes (recv_script (sh_kern s) 0) = bs @ script_bytes (recv_script (sh_kern s1) 0)"
        "shell_inv fd base (input @ bs) s1"
      using shell_pass_inv [OF 2(3) False 2(4) p(1)] by blast
    show ?thesis
    proof (cases go)
      case True
      with 2(1) [OF False p(1) refl True _ bs(2) 2(4)] p(2) obtain bs' where
        "script_bytes (recv_script (sh_kern s1) 0) = bs' @ script_bytes (recv_script (sh_kern t) 0)"
        "shell_inv fd base ((input @ bs) @ bs') t" by auto
      with bs(1) show ?thesis by (intro exI [of _ "bs @ bs'"]) simp
    next
      case False
      with p(2) bs show ?thesis by auto
    qed
  qed
qed

lemma send_initial_sends:
  assumes "send_initial name cs s = Some (ok, t)"
  shows "recv_script (sh_kern t) = recv_script (sh_kern s) \<and> prefix (sent_bytes t) (sent_bytes s @ unlines cs) \<and>
    (ok \<longrightarrow> sent_bytes t = sent_bytes s @ unlines cs \<and> stdin_open t = stdin_open s \<and> g_stop t = g_stop s \<and>
      stdin_buffer t = stdin_buffer s \<and> status t = status s)"
  using assms
proof (induction name cs s rule: send_initial.induct)
  case (2 name command commands s)
  define s0 where "s0 = shell_print (''>>> '' @ c_str command) s"
  have s0: "sh_client s0 = sh_client s" "sh_kern s0 = sh_kern s" "stdin_open s0 = stdin_open s" "g_stop s0 = g_stop s"
      "stdin_buffer s0 = stdin_buffer s" "status s0 = status s"
    by (simp_all add: s0_def shell_print_def)
  note eq = 2(2) [unfolded send_initial.simps Let_def, folded s0_def]
  obtain ok1 c k where m: "send_message (command @ [LF]) (sh_client s0) (sh_kern s0) = Some (ok1, c, k)"
    using eq by (auto split: option.splits)
  obtain n where n: "n \<le> length (command @ [LF])" "sends (c_fd (sh_client s)) (take n (command @ [LF])) (sh_kern s) k"
      "ok1 \<longrightarrow> n = length (command @ [LF])" "c_fd c = c_fd (sh_client s)"
    using send_message_facts [OF m] by (auto simp: s0)
  define s1 where "s1 = s0\<lparr>sh_client := c, sh_kern := k\<rparr>"
  have s1: "sent_bytes s1 = sent_bytes s @ take n (command @ [LF])" "recv_script (sh_kern s1) = recv_script (sh_kern s)"
    using n by (simp_all add: s1_def sends_def)
  show ?case
  proof (cases ok1)
    case True
    then have rest: "send_initial name commands s1 = Some (ok, t)"
      using eq m by (simp add: s1_def)
    have "sent_bytes s1 = sent_bytes s @ command @ [LF]" using s1(1) n(3) True by simp
    with 2(1) [OF s0_def m refl refl s1_def _ rest] True s1(2) s0 show ?thesis by (simp add: s1_def)
  next
    case False
    then have "\<not> ok" "sh_client t = sh_client s1" "sh_kern t = sh_kern s1"
      using eq m by (auto simp: s1_def shell_print_def)
    moreover have "prefix (take n (command @ [LF])) (command @ LF # unlines commands)"
      using prefix_prefix [OF take_is_prefix [of n "command @ [LF]"], of "unlines commands"] by simp
    ultimately show ?thesis using s1 by simp
  qed
qed simp

text \<open>A trader who logs in, types an empty line and an order, in two pieces, and quits.\<close>

definition demo_options :: ClientShellOptions where
  "demo_options = \<lparr>opt_host = ''localhost'', opt_port = 5000, opt_role_name = ''Trader Client'',
     opt_initial_commands = [''LOGIN ann''], opt_help_text = []\<rparr>"

definition demo_desk :: Kernel where
  "demo_desk = quiet_kernel\<lparr>send_script := (\<lambda>_. replicate 4 (Written 100)),
     recv_script := (\<lambda>_. [])(0 := [Data ([LF] @ ''BUY JN''), Data (''ST 1 2'' @ [LF] @ ''QUIT'' @ [LF])], 3 := [Data (''OK'' @ [LF]), Data []])\<rparr>"

definition demo_ticks :: "shell_tick list" where
  "demo_ticks = [ShellEvents 0 POLLIN, ShellEvents POLLIN POLLIN, ShellEvents POLLIN 0]"

section \<open>Properties\<close>

text \<open>C30: the shell gives its connection back. However the session ends (the connection is refused, an initial
  command cannot be sent, the server closes, the user quits or input ends, a signal arrives, a wait
  or a send fails), when the shell returns exactly the descriptors open before are open, and
  none was closed twice.\<close>

theorem shell_releases_connection:
  assumes "run_client_shell options ticks k = Some (st, printed, k')"
  shows "open_fds k' = open_fds k \<and> bad_close k' = bad_close k"
proof -
  let ?name = "opt_role_name options"
  obtain reached c k1 where con: "connect_to_server (new_client (opt_host options) (opt_port options)) k = (reached, c, k1)"
    by (metis surj_pair)
  note facts = connect_to_server_facts [OF con]
  show ?thesis
  proof (cases reached)
    case False
    with assms facts show ?thesis by (auto simp: run_client_shell_def con)
  next
    case True
    define s0 where "s0 = \<lparr>sh_client = c, stdin_buffer = [], stdin_open = True, sent_quit = False, status = 0, g_stop = False,
        sh_kern = k1, sh_out = [?name @ '' connected to '' @ opt_host options @ '':'' @
          to_string (opt_port options) @ ''.'', opt_help_text options]\<rparr>"
    obtain ok s1 where init: "send_initial ?name (opt_initial_commands options) s0 = Some (ok, s1)"
      using assms True by (auto simp: run_client_shell_def con s0_def Let_def split: option.splits)
    have closes: "open_fds (snd (disconnect (sh_client s) k2)) = open_fds k \<and> bad_close (snd (disconnect (sh_client s) k2)) = bad_close k"
      if "keeps s0 s" "open_fds k2 = open_fds (sh_kern s)" "bad_close k2 = bad_close (sh_kern s)" for s k2
      using that facts True disconnect_fresh [of k2 "sh_client s" "open_fds k"] by (simp add: keeps_def s0_def)
    have s1: "keeps s0 s1" by (rule send_initial_keeps [OF init])
    show ?thesis
    proof (cases ok)
      case False
      with assms True init closes [OF s1 refl refl] show ?thesis
        by (auto simp: run_client_shell_def con s0_def destroy_client_def)
    next
      case ok: True
      obtain s2 where loop: "shell_loop ?name ticks s1 = Some s2" "shell_finish s2 = (st, printed, k')"
        using assms True ok init by (auto simp: run_client_shell_def con s0_def)
      have s2: "keeps s0 s2" using s1 shell_loop_keeps [OF loop(1)] by (rule keeps_trans)
      have "k' = snd (disconnect (sh_client s2) (if \<not> sent_quit s2 then shutdown_writes (sh_client s2) (sh_kern s2) else sh_kern s2))"
        using loop(2) by (auto simp: shell_finish_def Let_def case_prod_unfold)
      then show ?thesis
        using closes [OF s2, of "if \<not> sent_quit s2 then shutdown_writes (sh_client s2) (sh_kern s2) else sh_kern s2"]
        by (auto simp: frame_simps split: if_splits)
    qed
  qed
qed

theorem shell_releases_connection_witness:
  "\<exists>printed k'. run_client_shell demo_options demo_ticks demo_desk = Some (0, printed, k') \<and> open_fds k' = [0, 1, 2]"
proof -
  have "map_option fst (run_client_shell demo_options demo_ticks demo_desk) = Some 0" by code_simp
  then obtain printed k' where r: "run_client_shell demo_options demo_ticks demo_desk = Some (0, printed, k')" by auto
  from shell_releases_connection [OF this] have "open_fds k' = [0, 1, 2]" by (simp add: demo_desk_def quiet_kernel_def)
  with r show ?thesis by blast
qed

text \<open>C29: the server is sent what the user typed. Whatever happens, when the shell returns the bytes handed over are
  the initial commands followed by a part of the typed lines, in order, each with one line end: empty lines are
  left out, nothing follows a \<^verbatim>\<open>QUIT\<close>, and a \<^verbatim>\<open>QUIT\<close> may be added at the end of input. When the exit status is 0,
  no line read from standard input is missing.\<close>

theorem shell_forwards_lines:
  assumes run: "run_client_shell options ticks k = Some (st, printed, k')"
    and con: "connect_to_server (new_client (opt_host options) (opt_port options)) k = (True, c, k1)"
    and std: "0 \<in> set (open_fds k)"
  shows "\<exists>input. script_bytes (recv_script k 0) = input @ script_bytes (recv_script k' 0) \<and>
    prefix (wire k' (c_fd c)) (unlines (opt_initial_commands options @ forward (typed input @ [''QUIT'']))) \<and>
    (st = 0 \<longrightarrow> prefix (unlines (opt_initial_commands options @ forward (typed input))) (wire k' (c_fd c)))"
proof -
  let ?name = "opt_role_name options" and ?base = "unlines (opt_initial_commands options)"
  have facts: "c_fd c \<notin> set (open_fds k)" "wire k1 (c_fd c) = []" "recv_script k1 = recv_script k"
    using connect_to_server_facts [OF con] by simp_all
  define s0 where "s0 = \<lparr>sh_client = c, stdin_buffer = [], stdin_open = True, sent_quit = False, status = 0, g_stop = False,
      sh_kern = k1, sh_out = [?name @ '' connected to '' @ opt_host options @ '':'' @
        to_string (opt_port options) @ ''.'', opt_help_text options]\<rparr>"
  obtain ok s1 where init: "send_initial ?name (opt_initial_commands options) s0 = Some (ok, s1)"
    using run by (auto simp: run_client_shell_def con s0_def Let_def split: option.splits)
  note sent = send_initial_sends [OF init]
  have s1: "c_fd (sh_client s1) = c_fd c" "recv_script (sh_kern s1) = recv_script k" "prefix (sent_bytes s1) ?base"
    using send_initial_keeps [OF init] sent facts(2,3) by (simp_all add: keeps_def s0_def)
  show ?thesis
  proof (cases ok)
    case False
    then have k': "k' = snd (disconnect (sh_client s1) (sh_kern s1))" and "st = 1"
      using run init by (auto simp: run_client_shell_def con s0_def destroy_client_def)
    have "wire k' = wire (sh_kern s1) \<and> recv_script k' = recv_script (sh_kern s1)"
      unfolding k' by (simp add: disconnect_def frame_simps)
    with s1 \<open>st = 1\<close> show ?thesis by (intro exI [of _ "[]"]) (simp add: typed_def prefix_prefix)
  next
    case True
    obtain s2 where loop: "shell_loop ?name ticks s1 = Some s2" "shell_finish s2 = (st, printed, k')"
      using run True init by (auto simp: run_client_shell_def con s0_def)
    have "sent_bytes s1 = ?base" "stdin_buffer s1 = []" "status s1 = 0" "g_stop s1 = False"
      using sent True facts(2) by (simp_all add: s0_def)
    then have inv1: "shell_inv (c_fd c) ?base [] s1" using s1(1) by (simp add: shell_inv_def typed_def)
    have "c_fd c \<noteq> 0" using facts(1) std by auto
    from shell_loop_inv [OF loop(1) inv1 this] obtain input where
      input: "script_bytes (recv_script k 0) = input @ script_bytes (recv_script (sh_kern s2) 0)" "shell_inv (c_fd c) ?base input s2"
      by (auto simp: s1(2))
    have fin: "st = status s2" "wire k' = wire (sh_kern s2)" "recv_script k' = recv_script (sh_kern s2)"
      using loop(2) by (auto simp: shell_finish_def disconnect_def destroy_client_def Let_def frame_simps split: if_splits)
    show ?thesis using input by (intro exI [of _ input]) (auto simp: fin shell_inv_def)
  qed
qed

theorem shell_forwards_lines_witness:
  "\<exists>printed k'. run_client_shell demo_options demo_ticks demo_desk = Some (0, printed, k') \<and>
     prefix (unlines [''LOGIN ann'', ''BUY JNST 1 2'', ''QUIT'']) (wire k' 3)"
proof -
  have r0: "map_option (\<lambda>(st, printed, k'). (st, recv_script k' 0)) (run_client_shell demo_options demo_ticks demo_desk) = Some (0, [])"
    by code_simp
  then obtain printed k' where r: "run_client_shell demo_options demo_ticks demo_desk = Some (0, printed, k')" "recv_script k' 0 = []"
    by auto
  obtain reached c k1 where con: "connect_to_server (new_client (opt_host demo_options) (opt_port demo_options)) demo_desk = (reached, c, k1)"
    by (metis surj_pair)
  have "(\<lambda>(reached, c, k1). (reached, c_fd c)) (connect_to_server (new_client (opt_host demo_options) (opt_port demo_options)) demo_desk) = (True, 3)"
    by code_simp
  then have "reached" "c_fd c = 3" by (simp_all add: con)
  have std: "0 \<in> set (open_fds demo_desk)" by (simp add: demo_desk_def quiet_kernel_def)
  have script: "script_bytes (recv_script demo_desk 0) = [LF] @ ''BUY JNST 1 2'' @ [LF] @ ''QUIT'' @ [LF]" by code_simp
  have "forward (typed ([LF] @ ''BUY JNST 1 2'' @ [LF] @ ''QUIT'' @ [LF])) = [''BUY JNST 1 2'', ''QUIT'']" by code_simp
  with shell_forwards_lines [OF r(1) con [unfolded \<open>reached\<close> [THEN eqTrueI]] std] r script \<open>c_fd c = 3\<close> show ?thesis
    by (auto simp: demo_options_def)
qed

end
