(* ===== verification/Programs.thy ===== *)
theory Programs
  imports Client_Shell Exchange_Server
begin

text \<open>
  The command lines of the three programs: \<^verbatim>\<open>main\<close> of \<^verbatim>\<open>src/src/exchange_server.cpp\<close>,
  \<^verbatim>\<open>src/src/trader_client.cpp\<close> and \<^verbatim>\<open>src/src/market_data_client.cpp\<close>. The arguments are a list of strings,
  the program's name first; what is printed before the program goes on or exits is a list
  of texts. An environment is a function from names to values. The effect of
  \<^verbatim>\<open>raise_fd_limit\<close> and of the signal handlers is part of the scripts the loops run on.
  The theory shows which configurations are accepted and that the commands the clients send on their own are
  understood by the server.
\<close>

section \<open>Numbers in arguments\<close>

text \<open>\<^verbatim>\<open>strtol(text, NULL, 10)\<close>: white space, a sign and the longest run of digits, saturated to the range of
  a \<^verbatim>\<open>long\<close>. \<^verbatim>\<open>atol\<close> is this value and \<^verbatim>\<open>atoi\<close> its conversion to the 32 bits of an \<^verbatim>\<open>int\<close>.\<close>

definition split_sign :: "string \<Rightarrow> bool \<times> string" where
  "split_sign text =
     (case text of
        [] \<Rightarrow> (False, [])
      | c # cs \<Rightarrow> (if c = CHR ''-'' then (True, cs) else if c = CHR ''+'' then (False, cs) else (False, text)))"

definition atol :: "string \<Rightarrow> int" where
  "atol text =
     (let (minus, body) = split_sign (dropWhile isspace text);
          v = decimal (takeWhile isdigit body)
      in max (- (2 ^ 63)) (min (2 ^ 63 - 1) (if minus then - v else v)))"

definition atoi :: "string \<Rightarrow> int" where
  "atoi text = sint (word_of_int (atol text) :: 32 word)"

definition bad_port :: "int \<Rightarrow> bool" where
  "bad_port port \<longleftrightarrow> port \<le> 0 \<or> port > 65535"

section \<open>The trader client\<close>

definition trader_usage :: "string \<Rightarrow> string" where
  "trader_usage program = ''usage: '' @ program @ '' [host] [port] [username]'' @ [LF, LF] @
     ''  host, port   Exchange Server address (default 127.0.0.1 5000)'' @ [LF] @
     ''  username     if given, LOGIN <username> is sent on connect''"

definition trader_defaults :: ClientShellOptions where
  "trader_defaults = \<lparr>opt_host = ''127.0.0.1'', opt_port = 5000, opt_role_name = ''Trader Client'', opt_initial_commands = [],
     opt_help_text = ''Commands: LOGIN <username> | BUY <instrument> <qty> <price> | '' @
       ''SELL <instrument> <qty> <price> | CANCEL <order_id> | QUIT'' @ [LF] @
       ''Instruments: JNST, IMCT.  Lines you type are sent as-is; server messages are printed with '' @ quoted ''<<<'' @ ''.''\<rparr>"

text \<open>The exit status and what is printed, or the options the shell runs with.\<close>

definition trader_options :: "string list \<Rightarrow> (int \<times> string list) + ClientShellOptions" where
  "trader_options argv =
     (let argc = length argv; opts = trader_defaults
      in if argc > 4 then Inl (2, [trader_usage (argv ! 0)])
         else
           (let opts = (if argc \<ge> 2 then opts\<lparr>opt_host := argv ! 1\<rparr> else opts);
                opts = (if argc \<ge> 3 then opts\<lparr>opt_port := atoi (argv ! 2)\<rparr> else opts)
            in if argc \<ge> 3 \<and> bad_port (opt_port opts)
               then Inl (2, [''trader_client: invalid port '' @ quoted (argv ! 2)])
               else Inr (if argc \<ge> 4
                         then opts\<lparr>opt_initial_commands := opt_initial_commands opts @ [''LOGIN '' @ argv ! 3]\<rparr>
                         else opts)))"

definition trader_main :: "string list \<Rightarrow> shell_tick list \<Rightarrow> Kernel \<Rightarrow> (int \<times> string list \<times> Kernel) option" where
  "trader_main argv ticks k =
     (case trader_options argv of Inl (st, text) \<Rightarrow> Some (st, text, k) | Inr opts \<Rightarrow> run_client_shell opts ticks k)"

section \<open>The market-data client\<close>

definition market_data_usage :: "string \<Rightarrow> string" where
  "market_data_usage program = ''usage: '' @ program @ '' [host] [port] [instrument ...]'' @ [LF, LF] @
     ''  host, port   Exchange Server address (default 127.0.0.1 5000)'' @ [LF] @
     ''  instrument   one or more of JNST, IMCT; each is subscribed to on connect''"

definition market_data_defaults :: ClientShellOptions where
  "market_data_defaults = \<lparr>opt_host = ''127.0.0.1'', opt_port = 5000, opt_role_name = ''Market-Data Client'',
     opt_initial_commands = [],
     opt_help_text = ''Commands: SUBSCRIBE <instrument> | UNSUBSCRIBE <instrument> | QUIT'' @ [LF] @
       ''Instruments: JNST, IMCT.  TRADE updates arrive on their own; server messages are printed with '' @
       quoted ''<<<'' @ ''.''\<rparr>"

text \<open>The loop over the instruments.\<close>

fun subscribe_args :: "string \<Rightarrow> string list \<Rightarrow> ClientShellOptions \<Rightarrow> (int \<times> string list) + ClientShellOptions" where
  "subscribe_args program [] opts = Inr opts"
| "subscribe_args program (arg # args) opts =
     (if \<not> is_valid_instrument arg
      then Inl (2, [''market_data_client: unknown instrument '' @ quoted arg, market_data_usage program])
      else subscribe_args program args
             (opts\<lparr>opt_initial_commands := opt_initial_commands opts @ [''SUBSCRIBE '' @ arg]\<rparr>))"

definition market_data_options :: "string list \<Rightarrow> (int \<times> string list) + ClientShellOptions" where
  "market_data_options argv =
     (let argc = length argv; opts = market_data_defaults;
          opts = (if argc \<ge> 2 then opts\<lparr>opt_host := argv ! 1\<rparr> else opts);
          opts = (if argc \<ge> 3 then opts\<lparr>opt_port := atoi (argv ! 2)\<rparr> else opts)
      in if argc \<ge> 3 \<and> bad_port (opt_port opts)
         then Inl (2, [''market_data_client: invalid port '' @ quoted (argv ! 2)])
         else subscribe_args (argv ! 0) (drop 3 argv) opts)"

definition market_data_main :: "string list \<Rightarrow> shell_tick list \<Rightarrow> Kernel \<Rightarrow> (int \<times> string list \<times> Kernel) option" where
  "market_data_main argv ticks k =
     (case market_data_options argv of Inl (st, text) \<Rightarrow> Some (st, text, k) | Inr opts \<Rightarrow> run_client_shell opts ticks k)"

section \<open>The exchange server\<close>

definition kDefaultPort :: int where "kDefaultPort = 5000"
definition kDefaultHost :: string where "kDefaultHost = ''127.0.0.1''"

definition env_flag :: "(string \<Rightarrow> string option) \<Rightarrow> string \<Rightarrow> bool" where
  "env_flag env name = (case env name of None \<Rightarrow> False | Some v \<Rightarrow> v \<noteq> [] \<and> v \<noteq> ''0'')"

definition exchange_usage :: "string \<Rightarrow> string" where
  "exchange_usage program = ''usage: '' @ program @ '' [host] [port] [--backend=poll|kqueue] [--verbose]'' @ [LF, LF] @
     ''  host, port          address to listen on (default '' @ kDefaultHost @ '' '' @ to_string kDefaultPort @ '')'' @ [LF] @
     ''  --backend=NAME      I/O readiness mechanism'' @ [LF] @
     ''  --verbose, -v       log every recv() and every framed message'' @ [LF, LF] @
     ''Environment: EXCHANGE_BACKEND, EXCHANGE_VERBOSE, EXCHANGE_SNDBUF''"

record ServerArgs =
  a_verbose :: bool
  a_backend :: Backend
  a_positional :: "string list"
  a_log :: "string list"

text \<open>A backend named in the environment or on the command line.\<close>

definition choose_backend :: "bool \<Rightarrow> string \<Rightarrow> ServerArgs \<Rightarrow> ServerArgs" where
  "choose_backend have_kq name a =
     (let (b, ok) = parse_backend have_kq name; a = a\<lparr>a_backend := b\<rparr>
      in if ok then a
         else a\<lparr>a_log := a_log a @ [''exchange_server: unsupported backend '' @ quoted name @ ''; using '' @ backend_name b]\<rparr>)"

fun server_args :: "bool \<Rightarrow> string \<Rightarrow> string list \<Rightarrow> ServerArgs \<Rightarrow> (int \<times> string list) + ServerArgs" where
  "server_args have_kq program [] a = Inr a"
| "server_args have_kq program (arg # args) a =
     (if arg = ''-v'' \<or> arg = ''--verbose'' then server_args have_kq program args (a\<lparr>a_verbose := True\<rparr>)
      else if prefix ''--backend='' arg then server_args have_kq program args (choose_backend have_kq (drop 10 arg) a)
      else if arg = ''-h'' \<or> arg = ''--help'' then Inl (0, a_log a @ [exchange_usage program])
      else if arg \<noteq> [] \<and> hd arg = CHR ''-'' then Inl (2, a_log a @ [exchange_usage program])
      else server_args have_kq program args (a\<lparr>a_positional := a_positional a @ [arg]\<rparr>))"

record ExchangeConfig =
  cfg_host :: string
  cfg_port :: int
  cfg_backend :: Backend
  cfg_verbose :: bool
  cfg_send_buffer :: int
  cfg_log :: "string list"

definition exchange_config :: "(string \<Rightarrow> string option) \<Rightarrow> bool \<Rightarrow> string list \<Rightarrow> (int \<times> string list) + ExchangeConfig" where
  "exchange_config env have_kq argv =
     (let sndbuf = (case env ''EXCHANGE_SNDBUF'' of None \<Rightarrow> 0 | Some v \<Rightarrow> max 0 (atoi v));
          a = \<lparr>a_verbose = env_flag env ''EXCHANGE_VERBOSE'', a_backend = default_backend have_kq, a_positional = [], a_log = []\<rparr>;
          a = (case env ''EXCHANGE_BACKEND'' of None \<Rightarrow> a | Some name \<Rightarrow> choose_backend have_kq name a)
      in case server_args have_kq (argv ! 0) (drop 1 argv) a of
           Inl r \<Rightarrow> Inl r
         | Inr a \<Rightarrow>
             (let pos = a_positional a
              in if length pos > 2 then Inl (2, a_log a @ [exchange_usage (argv ! 0)])
                 else
                   (let host = (if length pos \<ge> 1 then pos ! 0 else kDefaultHost);
                        port = (if length pos \<ge> 2 then atoi (pos ! 1) else kDefaultPort)
                    in if length pos \<ge> 2 \<and> bad_port port
                       then Inl (2, a_log a @ [''exchange_server: invalid port '' @ quoted (pos ! 1)])
                       else Inr \<lparr>cfg_host = host, cfg_port = port, cfg_backend = a_backend a, cfg_verbose = a_verbose a,
                                 cfg_send_buffer = sndbuf, cfg_log = a_log a\<rparr>)))"

text \<open>\<open>script\<close> is what \<^verbatim>\<open>kevent()\<close> answers. The result is the exit status, what was printed and the world
  when the process ends, after the destructor of the server.\<close>

definition exchange_main ::
  "(string \<Rightarrow> string option) \<Rightarrow> bool \<Rightarrow> (errno \<times> nat) option list \<Rightarrow> string list \<Rightarrow> tick list \<Rightarrow> Kernel \<Rightarrow> int \<times> string list \<times> Kernel" where
  "exchange_main env have_kq script argv ticks k =
     (case exchange_config env have_kq argv of
        Inl (st, text) \<Rightarrow> (st, text, k)
      | Inr cfg \<Rightarrow>
          (let (l, k) = open_loop have_kq (cfg_backend cfg) script k;
               s = new_exchange (cfg_host cfg) (cfg_port cfg) l (cfg_verbose cfg) (cfg_send_buffer cfg) k;
               (started, s) = server_start s
           in if \<not> started then (1, cfg_log cfg @ console s, destroy_exchange s)
              else (let s = run ticks s in (0, cfg_log cfg @ console s, destroy_exchange s))))"

section \<open>Properties\<close>

lemma subscribe_args_Inr:
  "subscribe_args program args opts = Inr opts' \<Longrightarrow>
     list_all is_valid_instrument args \<and>
     opts' = opts\<lparr>opt_initial_commands := opt_initial_commands opts @ map (\<lambda>i. ''SUBSCRIBE '' @ i) args\<rparr>"
  by (induction program args opts rule: subscribe_args.induct) (auto split: if_splits)

lemma subscribe_text: "''SUBSCRIBE '' @ i = render (Subscribe i)" and login_text: "''LOGIN '' @ u = render (Login u)"
  by (simp_all add: render_def)

text \<open>C31: the clients speak the protocol. When the market-data client accepts its arguments, its initial commands are one per
  instrument named, and the server parses each as a subscription to that instrument; when the trader client accepts
  its arguments, its initial command, if any, is a login with the user name given, and the server parses it
  as that when the name is a word of at most 64 bytes. Both connect to a port between 1 and 65535.\<close>

theorem client_commands_understood:
  "(market_data_options argv = Inr opts \<longrightarrow>
      map (\<lambda>cmd. decode (parse cmd)) (opt_initial_commands opts) = map (\<lambda>i. Some (Subscribe i)) (drop 3 argv) \<and>
      1 \<le> opt_port opts \<and> opt_port opts \<le> 65535) \<and>
   (trader_options argv = Inr opts \<longrightarrow>
      opt_initial_commands opts = map (\<lambda>u. ''LOGIN '' @ u) (drop 3 argv) \<and>
      (\<forall>u. is_word u \<and> length u \<le> 64 \<longrightarrow> decode (parse (''LOGIN '' @ u)) = Some (Login u)) \<and>
      1 \<le> opt_port opts \<and> opt_port opts \<le> 65535)"
proof (intro conjI impI allI)
  assume m: "market_data_options argv = Inr opts"
  let ?o = "(if length argv \<ge> 2 then market_data_defaults\<lparr>opt_host := argv ! 1\<rparr> else market_data_defaults)"
  let ?p = "(if length argv \<ge> 3 then ?o\<lparr>opt_port := atoi (argv ! 2)\<rparr> else ?o)"
  have sub: "subscribe_args (argv ! 0) (drop 3 argv) ?p = Inr opts" and port: "length argv \<ge> 3 \<longrightarrow> \<not> bad_port (opt_port ?p)"
    using m by (auto simp: market_data_options_def Let_def split: if_splits)
  note s = subscribe_args_Inr [OF sub]
  have init: "opt_initial_commands opts = map (\<lambda>i. ''SUBSCRIBE '' @ i) (drop 3 argv)"
    using s by (simp add: market_data_defaults_def)
  have "decode (parse (''SUBSCRIBE '' @ i)) = Some (Subscribe i)" if "i \<in> set (drop 3 argv)" for i
    using s that unfolding subscribe_text by (intro decode_render) (simp add: list_all_iff)
  then show "map (\<lambda>cmd. decode (parse cmd)) (opt_initial_commands opts) = map (\<lambda>i. Some (Subscribe i)) (drop 3 argv)"
    unfolding init by simp
  show "1 \<le> opt_port opts" "opt_port opts \<le> 65535"
    using s port by (auto simp: market_data_defaults_def bad_port_def split: if_splits)
next
  assume t: "trader_options argv = Inr opts"
  have login: "is_word u \<and> length u \<le> 64 \<Longrightarrow> decode (parse (''LOGIN '' @ u)) = Some (Login u)" for u
    unfolding login_text by (rule decode_render) simp
  have four: "drop 3 argv = (if length argv \<ge> 4 then [argv ! 3] else [])"
    using t by (auto simp: trader_options_def Let_def Cons_nth_drop_Suc [symmetric] split: if_splits)
  have init: "opt_initial_commands opts = map (\<lambda>u. ''LOGIN '' @ u) (drop 3 argv)"
    unfolding four using t by (auto simp: trader_options_def Let_def trader_defaults_def split: if_splits)
  show "opt_initial_commands opts = map (\<lambda>u. ''LOGIN '' @ u) (drop 3 argv)" by (rule init)
  show "decode (parse (''LOGIN '' @ u)) = Some (Login u)" if "is_word u \<and> length u \<le> 64" for u using that by (rule login)
  show "1 \<le> opt_port opts" "opt_port opts \<le> 65535"
    using t by (auto simp: trader_options_def trader_defaults_def bad_port_def Let_def split: if_splits)
qed

theorem client_commands_understood_witness:
  "\<exists>opts. market_data_options [''market_data_client'', ''localhost'', ''5000'', ''JNST'', ''IMCT''] = Inr opts \<and>
     map (\<lambda>cmd. decode (parse cmd)) (opt_initial_commands opts) = [Some (Subscribe ''JNST''), Some (Subscribe ''IMCT'')]"
proof -
  let ?argv = "[''market_data_client'', ''localhost'', ''5000'', ''JNST'', ''IMCT'']"
  have "\<not> isl (market_data_options ?argv)" by code_simp
  then obtain opts where "market_data_options ?argv = Inr opts" by (cases "market_data_options ?argv") auto
  with client_commands_understood [of ?argv opts] show ?thesis by auto
qed

text \<open>The port check can be passed by a number that is no port. \<^verbatim>\<open>atoi\<close> keeps the low 32 bits, so an argument beyond
  the range of an \<^verbatim>\<open>int\<close> is accepted as another port.\<close>

theorem port_argument_wraps:
  "\<exists>opts. trader_options [''trader_client'', ''localhost'', ''4294972296''] = Inr opts \<and> opt_port opts = 5000"
proof -
  have "(case trader_options [''trader_client'', ''localhost'', ''4294972296''] of Inl r \<Rightarrow> 0 | Inr opts \<Rightarrow> opt_port opts) = 5000"
    by code_simp
  then show ?thesis by (auto split: sum.splits)
qed

end
