(* ===== verification/Server_Process.thy ===== *)
theory Server_Process
  imports Programs Server_Properties
begin

text \<open>
  The server process from \<^verbatim>\<open>main\<close> to the destructors. The server owns two descriptors besides those of its clients: the
  kqueue, opened by the constructor of the event loop, and the listening socket. The theory shows that the main loop never
  exchanges them for others (\<open>hd\<close>, an interpretation of \<open>server_invariant\<close>) and that the process leaves nothing open.
\<close>

section \<open>The descriptors the server owns\<close>

definition handles :: "int \<Rightarrow> int \<Rightarrow> Server \<Rightarrow> bool" where
  "handles q f s \<longleftrightarrow> kq_fd (event_loop s) = q \<and> ts_fd (listener s) = f"

lemma handles_cong: "handles q f s \<Longrightarrow> kq_fd (event_loop t) = kq_fd (event_loop s) \<Longrightarrow> listener t = listener s \<Longrightarrow> handles q f t"
  by (simp add: handles_def)

lemma handles_drop: "handles q f s \<Longrightarrow> handles q f (drop_fd fd reason s)"
  by (cases "session s fd") (simp_all add: handles_def drop_fd_None drop_fd_fields frame_simps)

lemma handles_send: "handles q f s \<Longrightarrow> handles q f (send_to fd m s)"
  by (cases rule: send_to_cases [of s fd m]) (auto simp: handles_def frame_simps intro!: handles_drop [unfolded handles_def])

lemma handles_close: "handles q f s \<Longrightarrow> handles q f (begin_orderly_close fd reason s)"
  by (cases rule: begin_orderly_close_cases [of s fd reason]) (auto simp: handles_def frame_simps intro!: handles_drop [unfolded handles_def])

lemma accept_connection_fd: "ts_fd (fst (snd (accept_connection srv k))) = ts_fd srv"
  by (simp add: accept_connection_def Let_def case_prod_unfold split: sum.split option.split prod.split)

interpretation hd: server_invariant "handles q f" for q f
proof
  fix s fd ss i side oid user line m reason rest n bs a srv k pr kr
    and qty price :: int
  assume h: "handles q f s"
  show "handles q f (send_to fd m s)" "handles q f (on_writable fd s)" "handles q f (begin_orderly_close fd reason s)"
    "handles q f (drop_fd fd reason s)"
    using h by (simp_all add: on_writable_send handles_send handles_close handles_drop)
  show "handles q f (say line s)" "handles q f (register_login fd ss user s)" "handles q f (put_session fd (ss\<lparr>role := ROLE_MARKET_DATA\<rparr>) s)"
    "handles q f (add_subscription fd ss i s)" "handles q f (remove_subscription fd ss i s)"
    "handles q f (s\<lparr>book := snd (snd (add_order fd i side qty price [] (book s)))\<rparr>)"
    "handles q f (s\<lparr>book := snd (cancel_order oid fd (book s))\<rparr>)" "handles q f (put_session fd (ss\<lparr>inbuf := rest\<rparr>) s)"
    "handles q f (s\<lparr>kern := snd (sys_recv fd n (kern s))\<rparr>)" "handles q f (put_session fd (ss\<lparr>inbuf := inbuf ss @ bs\<rparr>) s)"
    "handles q f (pause_accepting s)" "handles q f (resume_accepting_if_due s)" "handles q f (reap_closed s)"
    "handles q f (s\<lparr>event_loop := snd (snd (loop_wait pr kr (event_loop s))), kern := (kern s)\<lparr>now := n\<rparr>\<rparr>)"
    using h
    by (simp_all add: handles_def say_def register_login_def add_subscription_def remove_subscription_def reap_closed_def
        pause_accepting_def resume_accepting_if_due_def Let_def frame_simps)
  assume "accept_connection (listener s) (kern s) = (a, srv, k)"
  then have srv: "ts_fd srv = ts_fd (listener s)" using accept_connection_fd [of "listener s" "kern s"] by simp
  show "handles q f (s\<lparr>listener := srv, kern := k\<rparr>)" using h srv by (simp add: handles_def)
  show "handles q f (admit (acc_fd a) (acc_peer a) (s\<lparr>listener := srv, kern := k\<rparr>))"
    by (rule admit_form [of "acc_fd a" "acc_peer a" "s\<lparr>listener := srv, kern := k\<rparr>"])
      (use h srv in \<open>simp add: handles_def Let_def frame_simps\<close>)
qed

section \<open>The process\<close>

lemma open_loop_facts:
  assumes "open_loop have_kq b script k = (l, k1)"
  shows "open_fds k1 = (if 0 \<le> kq_fd l then [kq_fd l] else []) @ open_fds k" "kq_fd l \<notin> set (open_fds k) \<or> kq_fd l < 0"
    "bad_close k1 = bad_close k" "hash_order k1 = hash_order k"
  using assms lowest_free_fresh [of "open_fds k"]
  by (auto simp: open_loop_def sys_kqueue_def new_loop_def open_fd_def Let_def case_prod_unfold frame_simps split: if_splits option.splits)

lemma server_start_facts:
  assumes "server_start (new_exchange host port l v n k) = (started, s)"
  shows "open_fds (kern s) = (if 0 \<le> ts_fd (listener s) then [ts_fd (listener s)] else []) @ open_fds k"
    "ts_fd (listener s) \<notin> set (open_fds k) \<or> ts_fd (listener s) < 0"
    "bad_close (kern s) = bad_close k" "hash_order (kern s) = hash_order k" "kq_fd (event_loop s) = kq_fd l"
proof -
  obtain r k1 where c: "create_listening_socket host port SOMAXCONN k = (r, k1)" by fastforce
  have leak: "no_leak (r, k1) k" using no_leak_create [of host port SOMAXCONN k] by (simp add: c)
  have more: "hash_order k1 = hash_order k" "r = Inr fd \<Longrightarrow> 0 \<le> fd" for fd
    using create_listening_socket_hash [of host port SOMAXCONN k] create_listening_socket_nonneg [of host port SOMAXCONN k] by (simp_all add: c)
  show "open_fds (kern s) = (if 0 \<le> ts_fd (listener s) then [ts_fd (listener s)] else []) @ open_fds k"
    "ts_fd (listener s) \<notin> set (open_fds k) \<or> ts_fd (listener s) < 0"
    "bad_close (kern s) = bad_close k" "hash_order (kern s) = hash_order k" "kq_fd (event_loop s) = kq_fd l"
    using assms leak more kq_fd_kept(1) [of _ True False l]
    by (cases r; auto simp: server_start_def start_def new_exchange_def new_server_def c no_leak_def say_def Let_def case_prod_unfold
        split: if_splits)+
qed

lemma destroy_exchange_releases:
  assumes fds: "set (open_fds (kern s)) = A \<union> (if 0 \<le> kq_fd (event_loop s) then {kq_fd (event_loop s)} else {}) \<union>
      (if 0 \<le> ts_fd (listener s) then {ts_fd (listener s)} else {})"
    and fresh: "kq_fd (event_loop s) \<notin> A \<or> kq_fd (event_loop s) < 0" "ts_fd (listener s) \<notin> A \<or> ts_fd (listener s) < 0"
      "kq_fd (event_loop s) \<noteq> ts_fd (listener s) \<or> ts_fd (listener s) < 0"
    and "\<not> bad_close (kern s)"
  shows "set (open_fds (destroy_exchange s)) = A \<and> \<not> bad_close (destroy_exchange s)"
  using assms by (auto simp: destroy_exchange_def destroy_server_def destroy_loop_def sys_close_def)

lemma run_ends:
  assumes "booted l s0" and "\<And>xs. mset (hash_order (kern s0) xs) = mset xs"
  shows "set (open_fds (kern (run ts s0))) = set (open_fds (kern s0)) \<and> \<not> bad_close (kern (run ts s0)) \<and>
    kq_fd (event_loop (run ts s0)) = kq_fd (event_loop s0) \<and> ts_fd (listener (run ts s0)) = ts_fd (listener s0)"
proof -
  let ?base = "set (open_fds (kern s0))" and ?h = "hash_order (kern s0)" and ?q = "kq_fd (event_loop s0)" and ?f = "ts_fd (listener s0)"
  have inv: "message_invariant (\<lambda>s. (descriptors_inv ?base s \<and> iterates ?h s) \<and> handles ?q ?f s)"
    by (intro message_invariant_conj fi.message_invariant_axioms ih.message_invariant_axioms hd.message_invariant_axioms)
  show ?thesis
  proof (rule message_invariant.run_invariant [OF inv])
    show "(descriptors_inv ?base s0 \<and> iterates ?h s0) \<and> handles ?q ?f s0"
      using booted_descriptors [OF assms(1)] by (simp add: iterates_def handles_def)
    fix u assume u: "(descriptors_inv ?base u \<and> iterates ?h u) \<and> handles ?q ?f u"
    then have "mset (hash_order (kern u) xs) = mset xs" for xs using assms(2) by (simp add: iterates_def)
    with shutdown_releases [of ?base u] u
    show "set (open_fds (kern (shutdown_all u))) = ?base \<and> \<not> bad_close (kern (shutdown_all u)) \<and>
        kq_fd (event_loop (shutdown_all u)) = ?q \<and> ts_fd (listener (shutdown_all u)) = ?f"
      by (simp add: handles_def) (simp add: shutdown_all_def reap_closed_def say_def Let_def)
  qed
qed

text \<open>C11: the server process gives every descriptor back. Whatever the command line and the environment, whether the
  socket can be opened and registered or not, however long the server runs, whatever it is sent and however the loop ends (a
  signal, also in the middle of a batch, or a failing wait), when the process ends exactly the descriptors
  open at its start are open and none was closed twice; the library may iterate over the sessions in any order.\<close>

theorem exchange_main_releases:
  assumes "exchange_main env have_kq script argv ticks k = (st, printed, k')"
    and "\<And>xs. mset (hash_order k xs) = mset xs" and "\<not> bad_close k"
  shows "set (open_fds k') = set (open_fds k) \<and> \<not> bad_close k'"
proof (cases "exchange_config env have_kq argv")
  case (Inl r)
  with assms show ?thesis by (cases r) (simp add: exchange_main_def)
next
  case (Inr cfg)
  obtain l k1 where l: "open_loop have_kq (cfg_backend cfg) script k = (l, k1)" by fastforce
  obtain started s0 where st: "server_start (new_exchange (cfg_host cfg) (cfg_port cfg) l (cfg_verbose cfg) (cfg_send_buffer cfg) k1) = (started, s0)"
    by fastforce
  note lf = open_loop_facts [OF l] and sf = server_start_facts [OF st]
  define s where "s = (if started then run ticks s0 else s0)"
  have k': "k' = destroy_exchange s"
    using assms(1) by (auto simp: exchange_main_def Inr l st s_def Let_def split: if_splits)
  have s: "set (open_fds (kern s)) = set (open_fds (kern s0)) \<and> \<not> bad_close (kern s) \<and>
      kq_fd (event_loop s) = kq_fd (event_loop s0) \<and> ts_fd (listener s) = ts_fd (listener s0)"
  proof (cases started)
    case True
    with st have "server_start (new_exchange (cfg_host cfg) (cfg_port cfg) l (cfg_verbose cfg) (cfg_send_buffer cfg) k1) = (True, s0)" by simp
    moreover have "\<not> bad_close k1" using lf(3) assms(3) by simp
    ultimately have "booted l s0" unfolding booted_def by blast
    from run_ends [OF this] assms(2) True show ?thesis by (simp add: s_def sf(4) lf(4))
  next
    case False
    with sf(3) lf(3) assms(3) show ?thesis by (simp add: s_def)
  qed
  show ?thesis
    unfolding k' by (rule destroy_exchange_releases) (use s lf sf in \<open>auto split: if_splits\<close>)
qed

theorem exchange_main_releases_witness:
  "set (open_fds (snd (snd (exchange_main (\<lambda>_. None) True [] [''exchange_server'', ''localhost'']
     [\<lparr>t_poll = PollEvents (\<lambda>_. 0), t_kq = KEvents [\<lparr>ke_ident = 4, ke_filter = EVFILT_READ, ke_flags = 0\<rparr>], t_now = 1, t_stop = None\<rparr>]
     demo_kernel)))) = {0, 1, 2}"
proof -
  have "mset (hash_order demo_kernel xs) = mset xs" "\<not> bad_close demo_kernel" "set (open_fds demo_kernel) = {0, 1, 2}" for xs
    by (auto simp: demo_kernel_def quiet_kernel_def)
  moreover obtain st printed k' where "exchange_main (\<lambda>_. None) True [] [''exchange_server'', ''localhost'']
      [\<lparr>t_poll = PollEvents (\<lambda>_. 0), t_kq = KEvents [\<lparr>ke_ident = 4, ke_filter = EVFILT_READ, ke_flags = 0\<rparr>], t_now = 1, t_stop = None\<rparr>]
      demo_kernel = (st, printed, k')" by (metis surj_pair)
  ultimately show ?thesis using exchange_main_releases by simp
qed

end
