(* ===== verification/Conversation.thy ===== *)
theory Conversation
  imports Server_Drain Client_Shell
begin

text \<open>
  Client and server together: what a client's shell sends through \<^verbatim>\<open>tcp_client.cpp\<close>, cut into pieces by the network, is read by
  \<^verbatim>\<open>exchange_server.cpp\<close>, obeyed by the exchange as \<open>Exchange_Spec\<close> says, and answered; the client hears the answers.
  The theory composes \<open>Client_Shell\<close> (what is sent), \<open>Server_Framing\<close> (pieces), \<open>Server_Refinement\<close> (obeying),
  \<open>Server_Streams\<close> (whole lines) and \<open>Tcp_Client\<close> (what is heard).
\<close>

section \<open>Input in pieces is obeyed\<close>

lemma feed_obeys:
  assumes inv: "registry_inv base s" and hash: "\<And>xs. mset (hash_order (kern s) xs) = mset xs"
    and ss: "session s fd = Some ss" "\<not> closing ss"
  shows "\<exists>n. obeys fd (map strip_cr (take n (fst (split_lines (inbuf ss @ bs))))) s (feed fd bs s) \<and>
    (live fd (feed fd bs s) \<longrightarrow> n = length (fst (split_lines (inbuf ss @ bs))))"
proof -
  let ?s = "shift fd bs (\<lambda>sc. sc) s"
  have put: "?s = put_session fd (ss\<lparr>inbuf := inbuf ss @ bs\<rparr>) s"
    using ss by (simp add: shift_def shift_kern_def views_update bump_def)
  obtain go t where c: "consume_messages fd ?s = (go, t)" by fastforce
  have t: "feed fd bs s = t" using ss c by (simp add: feed_def live_def)
  have "registry_inv base ?s" unfolding put by (rule rg.P_append [OF inv ss])
  from input_obeys [OF this _ ss _ _ _ c, of bs] hash show ?thesis unfolding t by (auto simp: put)
qed

lemma obeys_with_script: "obeys fd ls s (with_script fd' rs t) \<longleftrightarrow> obeys fd ls s t"
  by (simp add: obeys_def told_def live_def) (simp add: exchange_of_def with_script_def)

text \<open>Bytes that arrive in pieces, one for each wakeup.\<close>

lemma pieces_obeyed:
  assumes "registry_inv base s" and "\<And>xs. mset (hash_order (kern s) xs) = mset xs"
    and ss: "session s fd = Some ss" "\<not> closing ss" and "\<not> verbose s"
    and script: "recv_script (kern s) fd = map Data css @ rest" and css: "css \<noteq> []" "\<And>c. c \<in> set css \<Longrightarrow> c \<noteq> [] \<and> length c < kReadChunk"
    and limit: "length (inbuf ss) + length (concat (butlast css)) \<le> kMaxLineBytes"
  defines "t \<equiv> (on_readable fd ^^ length css) s"
  shows "\<exists>n. obeys fd (map strip_cr (take n (fst (split_lines (inbuf ss @ concat css))))) s t \<and>
    (live fd t \<longrightarrow> n = length (fst (split_lines (inbuf ss @ concat css))))"
proof -
  have "with_script fd (map Data css @ rest) s = s" by (simp add: with_script_def flip: script)
  then have "with_script fd rest t = with_script fd rest (fold (feed fd) css s)"
    using on_readable_each [OF assms(5), where css = css and fd = fd and rs' = rest and rs = rest] css(2) by (simp add: t_def)
  also have "fold (feed fd) css s = feed fd (concat css) s" using ss limit by (intro feed_concat [OF css(1)]) simp
  finally have t: "with_script fd rest t = with_script fd rest (feed fd (concat css) s)" .
  have "live fd t = live fd (feed fd (concat css) s)" using arg_cong [OF t, of "live fd"] by simp
  moreover have "obeys fd ls s t = obeys fd ls s (feed fd (concat css) s)" for ls
    using obeys_with_script [of fd ls s fd rest t] obeys_with_script [of fd ls s fd rest "feed fd (concat css) s"] t by simp
  ultimately show ?thesis using feed_obeys [OF assms(1,2) ss, of "concat css"] by auto
qed

lemma readable_streams: "streams_inv base s \<Longrightarrow> streams_inv base ((on_readable fd ^^ n) s)"
  by (induction n) (use st.eff.R_on_readable in auto)

section \<open>Property\<close>

text \<open>C7: a conversation end to end. A client that has just connected sends its initial commands; whatever partial writes that takes and
  in whatever pieces the network delivers the bytes to the server, each piece with a wakeup of its own, the exchange hears exactly these commands
  from it, in order and each once. If the client is still connected afterwards and reads what the server has sent it, in any pieces,
  it hears exactly the answers the rules of the exchange give it, line by line. (The pieces are within the limits of
  the server's buffers: each shorter than a read, all but the last within the limit for a line; and the debug log is
  off.)\<close>

theorem conversation:
  assumes "booted l s0" and "\<And>xs. mset (hash_order (kern s0) xs) = mset xs" and "serving s0 s"
    and "session s fd = Some ss" and "\<not> closing ss" and "inbuf ss = []" and "wire (kern s) fd @ pending ss = []" and "\<not> verbose s"
    and "send_initial name commands client = Some (True, client')" and "sent_bytes client = []"
    and "list_all (\<lambda>c. LF \<notin> set c) commands" and "c_inbuf (sh_client client') = []"
    and "recv_script (kern s) fd = map Data css @ rest" and "concat css = sent_bytes client'"
    and "css \<noteq> []" and "\<forall>c \<in> set css. c \<noteq> [] \<and> length c < kReadChunk" and "length (concat (butlast css)) \<le> kMaxLineBytes"
    and "t = (on_readable fd ^^ length css) s" and "session t fd = Some ss'" and "\<not> closing ss'"
    and "script_bytes (recv_script (sh_kern client') (c_fd (sh_client client'))) = wire (kern t) fd @ pending ss'"
    and "recv_weight (recv_script (sh_kern client') (c_fd (sh_client client'))) \<le> n"
    and "receive_calls n (sh_client client') (sh_kern client') = (messages, c, k)"
  shows "\<exists>hs out answers. exchange_run (exchange_of s) hs out (exchange_of t) \<and> sayings hs = map (\<lambda>c. (fd, strip_cr c)) commands \<and>
    told s out t \<and> out fd = unlines answers \<and> list_all (\<lambda>l. LF \<notin> set l) answers \<and> messages = map strip_cr answers"
proof -
  have f: "follows (set (open_fds (kern s0))) (hash_order (kern s0)) s"
    by (rule ex.serving_invariant [OF assms(3) booted_follows [OF assms(1,2)]])
  then have inv: "registry_inv (set (open_fds (kern s0))) s" and hash: "\<And>xs. mset (hash_order (kern s) xs) = mset xs"
    by (auto simp: follows_def iterates_def)
  have "sent_bytes client' = unlines commands" using send_initial_sends [OF assms(9)] assms(10) by simp
  moreover have "split_lines (unlines commands @ []) = (commands, [])" using assms(11) by (intro split_unlines) (simp_all add: list_all_iff)
  ultimately have lines: "fst (split_lines (inbuf ss @ concat css)) = commands" using assms(6,14) by simp
  have live: "live fd t" using assms(19,20) by (simp add: live_def)
  have "obeys fd (map strip_cr commands) s t"
    using pieces_obeyed [OF inv hash assms(4,5,8,13,15)] assms(16,17) lines live assms(6) by (auto simp: assms(18) [symmetric])
  then obtain hs out where run: "exchange_run (exchange_of s) hs out (exchange_of t)" "sayings hs = map (Pair fd) (map strip_cr commands)"
      and told: "told s out t"
    using live by (auto simp: obeys_def)
  have out: "wire (kern t) fd @ pending ss' = out fd"
    using told assms(4,7,19) by (fastforce simp: told_def)
  have "streams_inv (set (open_fds (kern s0))) t"
    unfolding assms(18) by (rule readable_streams [OF st.serving_invariant [OF assms(3) booted_streams [OF assms(1)]]])
  then have "out fd = [] \<or> last (out fd) = LF"
    using streams_inv_facts(4) [OF _ assms(19)] out by (auto simp: whole_lines_def)
  from receive_calls_lines [OF assms(23,22,12) this] assms(21) out run told show ?thesis by (fastforce simp: comp_def)
qed

text \<open>A trader who logs in.\<close>

definition demo_trader :: Shell where
  "demo_trader = \<lparr>sh_client = (new_client ''localhost'' 5000)\<lparr>c_fd := 3\<rparr>, stdin_buffer = [], stdin_open = True, sent_quit = False,
     status = 0, g_stop = False, sh_kern = demo_desk, sh_out = []\<rparr>"

theorem conversation_witness:
  "\<exists>client' hs out. send_initial ''Trader Client'' [''LOGIN ann''] demo_trader = Some (True, client') \<and>
     exchange_run (exchange_of demo_joined) hs out (exchange_of (on_readable 4 demo_joined)) \<and> sayings hs = [(4, ''LOGIN ann'')] \<and>
     fst (receive_calls 9 (sh_client client') (sh_kern client')) = [''OK'']"
proof -
  let ?r = "send_initial ''Trader Client'' [''LOGIN ann''] demo_trader"
  have "map_option (\<lambda>(ok, c). (ok, c_inbuf (sh_client c), sent_bytes c, script_bytes (recv_script (sh_kern c) (c_fd (sh_client c))),
      recv_weight (recv_script (sh_kern c) (c_fd (sh_client c))), fst (receive_calls 9 (sh_client c) (sh_kern c)))) ?r =
      Some (True, [], ''LOGIN ann'' @ [LF], ''OK'' @ [LF], 5, [''OK''])" by code_simp
  then obtain client' where client: "?r = Some (True, client')" "c_inbuf (sh_client client') = []" "sent_bytes client' = ''LOGIN ann'' @ [LF]"
      "script_bytes (recv_script (sh_kern client') (c_fd (sh_client client'))) = ''OK'' @ [LF]"
      "recv_weight (recv_script (sh_kern client') (c_fd (sh_client client'))) \<le> 9"
      "fst (receive_calls 9 (sh_client client') (sh_kern client')) = [''OK'']" by auto
  have "(\<lambda>t. (map_option (\<lambda>ss. (closing ss, pending ss)) (session t 4), wire (kern t) 4)) (on_readable 4 demo_joined) =
      (Some (False, ''K'' @ [LF]), ''O'')" by code_simp
  then obtain ss' where t: "session (on_readable 4 demo_joined) 4 = Some ss'" "\<not> closing ss'"
      "wire (kern (on_readable 4 demo_joined)) 4 @ pending ss' = ''OK'' @ [LF]" by auto
  have s: "wire (kern demo_joined) 4 = []" "\<not> verbose demo_joined" by code_simp+
  obtain messages c k where calls: "receive_calls 9 (sh_client client') (sh_kern client') = (messages, c, k)" by (metis surj_pair)
  have "sent_bytes demo_trader = []" by (simp add: demo_trader_def demo_desk_def quiet_kernel_def)
  from conversation [OF demo_chat_booted demo_chat_hash demo_chat_serving(1) demo_joined_client(1) _ _ _ s(2) client(1) this _ client(2), of
      "[''LOGIN ann'' @ [LF]]" "[]" "on_readable 4 demo_joined" ss' 9 messages c k]
  show ?thesis using t s(1) client calls demo_joined_client(2)
    by (auto simp: new_session_def pending_def kReadChunk_def strip_cr_def)
qed

end
