(* ===== verification/Event_Waits.thy ===== *)
theory Event_Waits
  imports Event_Loop
begin

text \<open>
  What the waits of the event loop report: \<^verbatim>\<open>poll_wait\<close> and \<^verbatim>\<open>kq_wait\<close> of
  \<^verbatim>\<open>src/src/network/event_loop.cpp\<close>. Each is characterised by the events it returns
  (\<open>poll_wait_events\<close>, \<open>kq_wait_events\<close>), and the buffer of the latter is large enough for everything the kernel
  can have to report (\<open>kevents_fit\<close>).
\<close>

unbundle bit_operations_syntax

section \<open>What the two waits report\<close>

lemma poll_index_dom:
  assumes "poll_inv l"
  shows "dom (poll_interest l) = pfd_fd ` set (pollfds l)"
proof -
  have "dom (poll_interest l) = dom (poll_index l)" by (auto simp: poll_interest_def)
  also have "\<dots> = pfd_fd ` set (pollfds l)"
  proof (intro set_eqI iffI)
    fix fd assume "fd \<in> dom (poll_index l)"
    then obtain k where "poll_index l fd = Some k" by blast
    from poll_invD [OF assms this] show "fd \<in> pfd_fd ` set (pollfds l)" by force
  next
    fix fd assume "fd \<in> pfd_fd ` set (pollfds l)"
    then obtain k where "k < length (pollfds l)" "fd = pfd_fd (pollfds l ! k)" by (auto simp: in_set_conv_nth)
    with poll_index_nth [OF assms] show "fd \<in> dom (poll_index l)" by blast
  qed
  finally show ?thesis .
qed

lemma poll_wait_events:
  assumes "poll_inv l" and "poll_wait (PollEvents revents) l = (n, out, l')"
  shows "n = int (length out)" and "distinct (map ev_fd out)"
    and "ev \<in> set out \<longleftrightarrow> ev_fd ev \<in> dom (poll_interest l) \<and> revents (ev_fd ev) \<noteq> 0 \<and>
      (ev_readable ev \<longleftrightarrow> revents (ev_fd ev) AND (POLLIN OR POLLHUP) \<noteq> 0) \<and>
      (ev_writable ev \<longleftrightarrow> revents (ev_fd ev) AND POLLOUT \<noteq> 0) \<and>
      (ev_hangup ev \<longleftrightarrow> revents (ev_fd ev) AND (POLLERR OR POLLNVAL) \<noteq> 0)"
proof -
  let ?ev = "\<lambda>fd. event_of_pollfd \<lparr>pfd_fd = fd, pfd_events = 0, pfd_revents = revents fd\<rparr>"
  have fd: "ev_fd (?ev x) = x" for x by (simp add: event_of_pollfd_def)
  have same: "event_of_pollfd (e\<lparr>pfd_revents := revents (pfd_fd e)\<rparr>) = ?ev (pfd_fd e)" for e
    by (simp add: event_of_pollfd_def)
  have out: "out = map ?ev (filter (\<lambda>fd. revents fd \<noteq> 0) (map pfd_fd (pollfds l)))" and n: "n = int (length out)"
    using assms(2) by (auto simp: poll_wait_def Let_def filter_map comp_def same split: if_splits)
  show "n = int (length out)" by (rule n)
  show "distinct (map ev_fd out)"
    using poll_inv_fds_distinct [OF assms(1)] by (simp add: out comp_def fd)
  have "ev \<in> set out \<longleftrightarrow> ev_fd ev \<in> dom (poll_interest l) \<and> revents (ev_fd ev) \<noteq> 0 \<and> ev = ?ev (ev_fd ev)"
    unfolding poll_index_dom [OF assms(1)] by (auto simp: out fd)
  also have "ev = ?ev (ev_fd ev) \<longleftrightarrow> ev_readable ev = ev_readable (?ev (ev_fd ev)) \<and>
      ev_writable ev = ev_writable (?ev (ev_fd ev)) \<and> ev_hangup ev = ev_hangup (?ev (ev_fd ev))"
    using fd [of "ev_fd ev"] by (auto intro!: Event.equality)
  finally show "ev \<in> set out \<longleftrightarrow> ev_fd ev \<in> dom (poll_interest l) \<and> revents (ev_fd ev) \<noteq> 0 \<and>
      (ev_readable ev \<longleftrightarrow> revents (ev_fd ev) AND (POLLIN OR POLLHUP) \<noteq> 0) \<and>
      (ev_writable ev \<longleftrightarrow> revents (ev_fd ev) AND POLLOUT \<noteq> 0) \<and>
      (ev_hangup ev \<longleftrightarrow> revents (ev_fd ev) AND (POLLERR OR POLLNVAL) \<noteq> 0)"
    by (simp only: event_of_pollfd_def Event.simps pollfd.simps)
qed

text \<open>The buffer of \<^verbatim>\<open>kq_wait\<close> has room for every filter of every registered descriptor.\<close>

lemma kevents_fit:
  assumes "kq_inv l" and "ke_ident ` set ks \<subseteq> dom (kq_lookup l)" and "distinct (map (\<lambda>k. (ke_ident k, ke_filter k)) ks)"
  shows "length ks \<le> length (kq_interest l) * 2"
proof -
  have dom: "dom (kq_lookup l) = set (map fst (kq_interest l))" by (auto simp: kq_lookup_def dom_map_of_conv_image_fst)
  have "length ks = card (set (map (\<lambda>k. (ke_ident k, ke_filter k)) ks))"
    using distinct_card [OF assms(3)] by simp
  also have "\<dots> \<le> card (set (map fst (kq_interest l)) \<times> {EVFILT_READ, EVFILT_WRITE})"
    using assms(2) kfilter.exhaust by (intro card_mono) (auto simp: dom)
  also have "\<dots> = length (kq_interest l) * 2"
    using assms(1) distinct_card [of "map fst (kq_interest l)"] by (simp add: card_cartesian_product kq_inv_def)
  finally show ?thesis .
qed

text \<open>A filter the kernel holds is one the recorded interest asks for.\<close>

lemma filter_registered:
  assumes "kq_inv l" and "(fd, f) \<in> set (kq_filters l)"
  shows "\<exists>r w. kq_lookup l fd = Some (r, w) \<and> (f = EVFILT_WRITE \<longrightarrow> w)"
  using assms by (cases f; cases "map_of (kq_interest l) fd") (auto simp: kq_inv_def recorded_def kq_lookup_def)

lemma kq_wait_events:
  assumes "kq_inv l" and "ke_ident ` set ks \<subseteq> dom (kq_lookup l)" and "distinct (map (\<lambda>k. (ke_ident k, ke_filter k)) ks)"
  shows "kq_wait (KEvents ks) l = (int (length (kq_coalesce ks Map.empty [])), kq_coalesce ks Map.empty [])"
proof (cases "kq_interest l = []")
  case True
  with assms(2) have "ks = []" by (simp add: kq_lookup_def)
  with True assms(1) show ?thesis by (simp add: kq_wait_def kq_inv_def)
next
  case False
  with kevents_fit [OF assms] assms(1) show ?thesis by (simp add: kq_wait_def kq_inv_def Let_def)
qed

section \<open>Property\<close>



end
