(* ===== verification/Conn_Gen.thy ===== *)
theory Conn_Gen
  imports Programs
begin

text \<open>
  The connection generator, \<^verbatim>\<open>src/src/tools/conn_gen.cpp\<close>: its options, the loop that opens connections with
  retries on transient errors, the hold, the release and everything it prints. The texts of the floating-point figures it
  prints (seconds elapsed, connections per second, processor times) are arguments, as is what
  \<^verbatim>\<open>getrusage\<close> and \<^verbatim>\<open>getpid\<close> answer; \<open>figures\<close> is indexed by the number of lines printed so far. Whether a signal has arrived is a function of the number of connection
  attempts made so far, \<open>left\<close> gives the value of \<^verbatim>\<open>errno\<close> where the code reads it without a failing
  call that sets it, and the hold runs on a list of observations (signal, microseconds held).
  The theory shows that the generator opens at most the number of connections asked for, retries
  each of them at most 200 times, leaves no descriptor open, and takes lists of addresses apart faithfully.
\<close>

section \<open>Options\<close>

text \<open>The loop of \<^verbatim>\<open>split_commas\<close> on the text from \<^verbatim>\<open>start\<close> on.\<close>

function split_commas :: "string \<Rightarrow> string list" where
  "split_commas text =
     (case str_find (CHR '','') text of
        None \<Rightarrow> [text]
      | Some comma \<Rightarrow> take comma text # split_commas (drop (comma + 1) text))"
  by pat_completeness auto

termination
  by (relation "measure length") (auto dest!: str_find_Some)

declare split_commas.simps [simp del]

record GenOptions =
  gen_host :: string
  gen_port :: int
  gen_target :: int
  report_every :: int
  hold :: bool
  hold_seconds :: int
  source_addresses :: "string list"

fun gen_args :: "string list \<Rightarrow> GenOptions \<Rightarrow> GenOptions option" where
  "gen_args [] opts = Some opts"
| "gen_args [arg] opts =
     (if arg = ''--hold'' then Some (opts\<lparr>hold := True\<rparr>)
      else if arg = ''--no-hold'' then Some (opts\<lparr>hold := False\<rparr>)
      else None)"
| "gen_args (arg # v # args) opts =
     (if arg = ''--report-every''
      then gen_args args (opts\<lparr>report_every := (if atol v \<le> 0 then 5000 else atol v)\<rparr>)
      else if arg = ''--src-ips'' then gen_args args (opts\<lparr>source_addresses := split_commas v\<rparr>)
      else if arg = ''--hold'' then gen_args (v # args) (opts\<lparr>hold := True\<rparr>)
      else if arg = ''--no-hold'' then gen_args (v # args) (opts\<lparr>hold := False\<rparr>)
      else if arg = ''--hold-seconds'' then gen_args args (opts\<lparr>hold_seconds := atol v, hold := True\<rparr>)
      else None)"

definition gen_options :: "string list \<Rightarrow> GenOptions option" where
  "gen_options argv =
     (if length argv < 4 then None
      else
        (let port = atoi (argv ! 2); target = atol (argv ! 3)
         in if bad_port port \<or> target \<le> 0 then None
            else gen_args (drop 4 argv)
                   \<lparr>gen_host = argv ! 1, gen_port = port, gen_target = target, report_every = 5000, hold = True,
                    hold_seconds = -1, source_addresses = []\<rparr>))"

section \<open>Connecting\<close>

definition is_transient :: "errno \<Rightarrow> bool" where
  "is_transient e \<longleftrightarrow> e = ECONNRESET \<or> e = ECONNREFUSED \<or> e = ETIMEDOUT \<or> e = EINTR \<or> e = EAGAIN \<or> e = EWOULDBLOCK"

text \<open>The error number of a failing call, \<open>stale\<close> when the address is malformed.\<close>

definition bind_source :: "int \<Rightarrow> string \<Rightarrow> errno \<Rightarrow> Kernel \<Rightarrow> errno option \<times> Kernel" where
  "bind_source fd address stale k =
     (case inet_pton k address of None \<Rightarrow> (Some stale, k) | Some a \<Rightarrow> sys_bind fd a 0 k)"

text \<open>\<^verbatim>\<open>errno\<close> after a failing \<^verbatim>\<open>net::connect_to\<close>: that of the call that failed.\<close>

definition connect_errno :: "string \<Rightarrow> int \<Rightarrow> errno \<Rightarrow> Kernel \<Rightarrow> errno" where
  "connect_errno host port stale k =
     (case resolve_ipv4 (if host = [] then ''127.0.0.1'' else host) k of
        Inl _ \<Rightarrow> stale
      | Inr addr \<Rightarrow>
          (case sys_socket k of
             (Inl e, _) \<Rightarrow> e
           | (Inr fd, k) \<Rightarrow> (case fst (sys_connect fd addr (word_of_int port) k) of Some e \<Rightarrow> e | None \<Rightarrow> stale)))"

datatype attempt = Established int | Refused errno string | NotNumeric

text \<open>One attempt, with \<open>established\<close> connections open already.\<close>

definition connect_once :: "GenOptions \<Rightarrow> nat \<Rightarrow> errno \<Rightarrow> Kernel \<Rightarrow> attempt \<times> Kernel" where
  "connect_once opts established stale k =
     (if source_addresses opts = []
      then (case connect_to (gen_host opts) (gen_port opts) k of
              (Inl err, k') \<Rightarrow> (Refused (connect_errno (gen_host opts) (gen_port opts) stale k) err, k')
            | (Inr fd, k') \<Rightarrow> (Established fd, k'))
      else case inet_pton k (gen_host opts) of
             None \<Rightarrow> (NotNumeric, k)
           | Some remote \<Rightarrow>
               (let (sock, k) = sys_socket k
                in case sock of
                     Inl e \<Rightarrow> (Refused e (''socket() failed: '' @ strerror k e), k)
                   | Inr fd \<Rightarrow>
                       (let source = source_addresses opts ! (established mod length (source_addresses opts));
                            failed = (\<lambda>e k. (Refused e (''bind()/connect() from '' @ source @ '' failed: '' @ strerror k e),
                                             sys_close fd k));
                            (berr, k) = bind_source fd source stale k
                        in case berr of
                             Some e \<Rightarrow> failed e k
                           | None \<Rightarrow>
                               (let (cerr, k) = sys_connect fd remote (word_of_int (gen_port opts)) k
                                in case cerr of Some e \<Rightarrow> failed e k | None \<Rightarrow> (Established fd, k)))))"

text \<open>The usage text and the progress line.\<close>

definition gen_usage :: "string \<Rightarrow> string" where
  "gen_usage program = ''usage: '' @ program @ '' <host> <port> <count> [options]'' @ [LF, LF] @
     ''  --report-every N   progress line every N connections (default 5000)'' @ [LF] @
     ''  --src-ips LIST     comma-separated local addresses to bind round-robin.'' @ [LF] @
     ''                     Each source address has its own ephemeral port'' @ [LF] @
     ''                     range, which is how you get past ~65k connections'' @ [LF] @
     ''                     to a single server address and port. Create the'' @ [LF] @
     ''                     extra addresses first, e.g.'' @ [LF] @
     ''                       ifconfig lo0 alias 127.0.0.2/8'' @ [LF] @
     ''  --hold             keep the connections open until interrupted (default)'' @ [LF] @
     ''  --no-hold          exit as soon as the target count is reached'' @ [LF] @
     ''  --hold-seconds N   hold for N seconds, then close and exit. Use this in'' @ [LF] @
     ''                     scripts: it guarantees the connections are released'' @ [LF] @
     ''                     even if the controlling script dies, which matters'' @ [LF] @
     ''                     because enough held connections can exhaust the system'' @ [LF] @
     ''                     file table and leave the machine unable to fork at all.''"

definition report :: "nat \<Rightarrow> string \<times> string \<Rightarrow> int \<Rightarrow> string" where
  "report established figures fd_limit =
     ''established '' @ to_string (int established) @ '' connections in '' @ fst figures @ ''s ('' @ snd figures @
     '' conn/s), RLIMIT_NOFILE soft limit '' @ to_string fd_limit"

record Gen =
  connections :: "int list"
  retries :: int
  tries :: nat
  gen_kern :: Kernel
  gen_out :: "string list"

definition new_gen :: "Kernel \<Rightarrow> Gen" where
  "new_gen k = \<lparr>connections = [], retries = 0, tries = 0, gen_kern = k, gen_out = []\<rparr>"

definition gen_print :: "string \<Rightarrow> Gen \<Rightarrow> Gen" where
  "gen_print line g = g\<lparr>gen_out := gen_out g @ [line]\<rparr>"

definition gen_report :: "(nat \<Rightarrow> string \<times> string) \<Rightarrow> int \<Rightarrow> Gen \<Rightarrow> Gen" where
  "gen_report figures limit g = gen_print (report (length (connections g)) (figures (length (gen_out g))) limit) g"

definition kMaxAttempts :: nat where "kMaxAttempts = 200"

text \<open>From the label \<^verbatim>\<open>retry\<close> on, until there is a connection or no further attempt is made.\<close>

function try_connection :: "GenOptions \<Rightarrow> (nat \<Rightarrow> bool) \<Rightarrow> (nat \<Rightarrow> errno) \<Rightarrow> nat \<Rightarrow> Gen \<Rightarrow> attempt \<times> Gen" where
  "try_connection opts stop left n g =
     (let p = connect_once opts (length (connections g)) (left (tries g)) (gen_kern g);
          g' = g\<lparr>gen_kern := snd p, tries := tries g + 1\<rparr>
      in case fst p of
           Refused e err \<Rightarrow>
             (if is_transient e \<and> n < kMaxAttempts \<and> \<not> stop (tries g')
              then try_connection opts stop left (n + 1) (g'\<lparr>retries := retries g' + 1\<rparr>)
              else (fst p, g'))
         | _ \<Rightarrow> (fst p, g'))"
  by pat_completeness auto

termination
  by (relation "measure (\<lambda>(opts, stop, left, n, g). kMaxAttempts - n)") auto

declare try_connection.simps [simp del]

text \<open>The loop over the connections, with \<open>todo\<close> passes left; the flag is false when the program exits at once.\<close>

fun connect_loop :: "GenOptions \<Rightarrow> (nat \<Rightarrow> bool) \<Rightarrow> (nat \<Rightarrow> errno) \<Rightarrow> (nat \<Rightarrow> string \<times> string) \<Rightarrow> int \<Rightarrow> nat \<Rightarrow> Gen \<Rightarrow> bool \<times> Gen" where
  "connect_loop opts stop left figures limit 0 g = (True, g)"
| "connect_loop opts stop left figures limit (Suc todo) g =
     (if stop (tries g) then (True, g)
      else
        (let p = try_connection opts stop left 0 g; g1 = snd p
         in case fst p of
              NotNumeric \<Rightarrow> (False, gen_print ''conn_gen: --src-ips requires a numeric server address'' g1)
            | Refused e err \<Rightarrow>
                (True, gen_print ([LF] @ ''conn_gen: stopped after '' @ to_string (int (length (connections g1))) @
                   '' established connections.'' @ [LF] @ ''conn_gen: first failure at connection '' @
                   to_string (gen_target opts - int todo) @ '': '' @ err) g1)
            | Established fd \<Rightarrow>
                (let g2 = g1\<lparr>connections := connections g1 @ [fd]\<rparr>;
                     g3 = (if int (length (connections g2)) mod report_every opts = 0
                           then gen_report figures limit g2 else g2)
                 in connect_loop opts stop left figures limit todo g3)))"

section \<open>Holding and the whole program\<close>

text \<open>Whether the loop that holds the connections ends.\<close>

fun hold_loop :: "int \<Rightarrow> (bool \<times> int) list \<Rightarrow> bool" where
  "hold_loop seconds [] = False"
| "hold_loop seconds ((stopped, held) # ts) =
     (if stopped then True
      else if seconds \<ge> 0 \<and> held \<ge> seconds * 1000000 then True
      else hold_loop seconds ts)"

text \<open>What is printed before the first connection and after the last. \<open>self\<close> is what \<^verbatim>\<open>getrusage\<close> answers,
  with the texts of the two times, and the process id. The sum with the target is a \<^verbatim>\<open>long\<close>; where it overflows, which the
  language leaves undefined, it is taken to wrap.\<close>

definition gen_announce :: "GenOptions \<Rightarrow> int \<Rightarrow> Gen \<Rightarrow> Gen" where
  "gen_announce opts limit g =
     (let g = gen_print (''conn_gen: target '' @ to_string (gen_target opts) @ '' connections to '' @ gen_host opts @ '':'' @
                to_string (gen_port opts) @ '', RLIMIT_NOFILE soft limit '' @ to_string limit) g
      in if limit \<ge> 0 \<and> limit < sint (word_of_int (gen_target opts + 16) :: 64 word)
         then gen_print ''conn_gen: warning - the descriptor limit is below the target; expect EMFILE.'' g else g)"

definition gen_summary ::
  "GenOptions \<Rightarrow> (nat \<Rightarrow> string \<times> string) \<Rightarrow> (int \<times> string \<times> string) option \<times> int \<Rightarrow> int \<Rightarrow> Gen \<Rightarrow> Gen" where
  "gen_summary opts figures self limit g =
     (let g = gen_report figures limit g;
          g = (if retries g > 0
               then gen_print (''conn_gen: '' @ to_string (retries g) @ '' connect() retries (the server'' @ [CHR 0x27] @
                      ''s accept queue filled; kern.ipc.soacceptqueue)'') g
               else g);
          g = (case fst self of
                 None \<Rightarrow> g
               | Some (maxrss, user, sys) \<Rightarrow>
                   gen_print (''conn_gen: own max RSS '' @ to_string maxrss @ '' KiB, user '' @ user @ ''s, system '' @ sys @ ''s'') g);
          g = gen_print (''conn_gen: pid '' @ to_string (snd self) @ ''. Take the server-side measurements now.'') g
      in if hold opts \<and> hold_seconds opts \<ge> 0
         then gen_print (''conn_gen: holding for '' @ to_string (hold_seconds opts) @ '' seconds.'') g else g)"

definition gen_release :: "Gen \<Rightarrow> Gen" where
  "gen_release g =
     (let g = gen_print (''conn_gen: closing '' @ to_string (int (length (connections g))) @ '' connections.'') g
      in g\<lparr>gen_kern := fold sys_close (connections g) (gen_kern g)\<rparr>)"

text \<open>The exit status, what was printed and the world at the end; \<^term>\<open>None\<close> while the connections are held for ever. \<open>limits\<close>
  are the answers of the two \<^verbatim>\<open>getrlimit\<close> calls; \<open>room\<close> tells whether \<^verbatim>\<open>reserve\<close> finds the memory for that many descriptors: if
  not it throws, nothing catches the exception, and the process is aborted (status 134, as a shell reports it).\<close>

definition conn_gen_main ::
  "string list \<Rightarrow> (64 word \<times> 64 word) option \<times> (64 word \<times> 64 word) option \<Rightarrow> (int \<Rightarrow> bool) \<Rightarrow> (nat \<Rightarrow> bool) \<Rightarrow> (nat \<Rightarrow> errno) \<Rightarrow>
     (nat \<Rightarrow> string \<times> string) \<Rightarrow> (int \<times> string \<times> string) option \<times> int \<Rightarrow> (bool \<times> int) list \<Rightarrow> Kernel \<Rightarrow> (int \<times> Gen) option" where
  "conn_gen_main argv limits room stop left figures self ticks k =
     (let g = new_gen k
      in case gen_options argv of
           None \<Rightarrow> Some (2, gen_print (gen_usage (argv ! 0)) g)
         | Some opts \<Rightarrow>
             (let limit = raise_fd_limit (fst limits) (snd limits);
                  g = gen_announce opts limit g
              in if \<not> room (gen_target opts) then Some (134, g)
                 else
                   (let p = connect_loop opts stop left figures limit (nat (gen_target opts)) g;
                        g = snd p
                    in if \<not> fst p then Some (2, g)
                       else
                         (let g = gen_summary opts figures self limit g
                          in if hold opts \<and> \<not> hold_loop (hold_seconds opts) ticks then None
                             else Some (0, gen_release g)))))"

section \<open>Lists of addresses\<close>

fun join_commas :: "string list \<Rightarrow> string" where
  "join_commas [] = []"
| "join_commas [x] = x"
| "join_commas (x # xs) = x @ CHR '','' # join_commas xs"

lemma split_commas_None:
  assumes "CHR '','' \<notin> set text"
  shows "split_commas text = [text]"
proof -
  have "str_find (CHR '','') text = None" using assms by simp
  then show ?thesis by (subst split_commas.simps) (simp del: str_find_None)
qed

lemma split_commas_hit: "CHR '','' \<notin> set x \<Longrightarrow> split_commas (x @ CHR '','' # rest) = x # split_commas rest"
  by (subst split_commas.simps) (simp add: str_find_append_hit)

lemma split_join: "xs \<noteq> [] \<Longrightarrow> list_all (\<lambda>x. CHR '','' \<notin> set x) xs \<Longrightarrow> split_commas (join_commas xs) = xs"
  by (induction xs rule: join_commas.induct) (simp_all add: split_commas_None split_commas_hit)

lemma split_commas_sound:
  "join_commas (split_commas line) = line \<and> list_all (\<lambda>x. CHR '','' \<notin> set x) (split_commas line) \<and> split_commas line \<noteq> []"
proof (induction line rule: split_commas.induct)
  case (1 line)
  show ?case
  proof (cases "str_find (CHR '','') line")
    case None
    then have "CHR '','' \<notin> set line" by simp
    then show ?thesis by (simp add: split_commas_None)
  next
    case (Some n)
    have split: "split_commas line = take n line # split_commas (drop (n + 1) line)"
      using Some by (subst split_commas.simps) simp
    have "join_commas (take n line # split_commas (drop (n + 1) line)) =
        take n line @ CHR '','' # join_commas (split_commas (drop (n + 1) line))"
      using 1 [OF Some] by (cases "split_commas (drop (n + 1) line)") auto
    then show ?thesis
      using 1 [OF Some] str_find_Some [OF Some] str_find_split [OF Some] by (simp add: split)
  qed
qed

section \<open>Descriptors and attempts\<close>

lemma inet_pton_frame [frame_simps]:
  "inet_pton (snd (outcome c k)) = inet_pton k" "inet_pton (sys_close fd k) = inet_pton k"
  by (simp_all add: outcome_def sys_close_def split: list.split)

lemma inet_pton_calls [frame_simps]:
  "inet_pton (snd (sys_socket k)) = inet_pton k" "inet_pton (snd (sys_bind fd a p k)) = inet_pton k"
  "inet_pton (snd (sys_connect fd a p k)) = inet_pton k"
  by (simp_all add: sys_socket_def sys_bind_def sys_connect_def open_fd_def case_prod_unfold Let_def frame_simps split: option.split)

lemma bind_source_frame [frame_simps]:
  "open_fds (snd (bind_source fd a e k)) = open_fds k" "bad_close (snd (bind_source fd a e k)) = bad_close k"
  "inet_pton (snd (bind_source fd a e k)) = inet_pton k"
  by (simp_all add: bind_source_def frame_simps split: option.split)

lemma connect_to_inet_pton: "inet_pton (snd (connect_to host port k)) = inet_pton k"
  by (simp add: connect_to_def case_prod_unfold Let_def frame_simps split: sum.split option.split)

text \<open>What one attempt does to the descriptors.\<close>

definition opens :: "attempt \<Rightarrow> Kernel \<Rightarrow> Kernel \<Rightarrow> bool" where
  "opens r k k' \<longleftrightarrow> bad_close k' = bad_close k \<and> inet_pton k' = inet_pton k \<and>
     (case r of Established fd \<Rightarrow> open_fds k' = fd # open_fds k \<and> fd \<notin> set (open_fds k) | _ \<Rightarrow> open_fds k' = open_fds k)"

lemma connect_once_opens:
  assumes "connect_once opts n stale k = (r, k')"
  shows "opens r k k'"
    and "r = NotNumeric \<Longrightarrow> source_addresses opts \<noteq> [] \<and> inet_pton k (gen_host opts) = None"
    and "r \<noteq> NotNumeric \<Longrightarrow> source_addresses opts = [] \<or> inet_pton k (gen_host opts) \<noteq> None"
proof -
  have "opens r k k' \<and> (r = NotNumeric \<longrightarrow> source_addresses opts \<noteq> [] \<and> inet_pton k (gen_host opts) = None) \<and>
      (r \<noteq> NotNumeric \<longrightarrow> source_addresses opts = [] \<or> inet_pton k (gen_host opts) \<noteq> None)"
  proof (cases "source_addresses opts = []")
    case True
    obtain x k1 where con: "connect_to (gen_host opts) (gen_port opts) k = (x, k1)" by fastforce
    have "no_leak (x, k1) k" "inet_pton k1 = inet_pton k"
      using no_leak_connect [of "gen_host opts" "gen_port opts" k] connect_to_inet_pton [of "gen_host opts" "gen_port opts" k]
      by (simp_all add: con)
    with assms True show ?thesis by (auto simp: connect_once_def con opens_def no_leak_def split: sum.splits)
  next
    case sources: False
    show ?thesis
    proof (cases "inet_pton k (gen_host opts)")
      case None
      with assms sources show ?thesis by (auto simp: connect_once_def opens_def)
    next
      case (Some remote)
      obtain sock k1 where s: "sys_socket k = (sock, k1)" by fastforce
      show ?thesis
      proof (cases sock)
        case (Inl e)
        then show ?thesis
          using assms sources Some s sys_socket_facts(1,3) [of k] inet_pton_calls(1) [of k]
          by (auto simp: connect_once_def opens_def)
      next
        case (Inr fd)
        define source where "source = source_addresses opts ! (n mod length (source_addresses opts))"
        obtain berr k2 where b: "bind_source fd source stale k1 = (berr, k2)" by fastforce
        obtain cerr k3 where c: "sys_connect fd remote (word_of_int (gen_port opts)) k2 = (cerr, k3)" by fastforce
        have k1: "open_fds k1 = fd # open_fds k" "fd \<notin> set (open_fds k)" "bad_close k1 = bad_close k" "inet_pton k1 = inet_pton k"
          using sys_socket_facts(2,3) [of k] inet_pton_calls(1) [of k] by (simp_all add: s Inr)
        have k2: "open_fds k2 = open_fds k1" "bad_close k2 = bad_close k1" "inet_pton k2 = inet_pton k1"
          using bind_source_frame [of fd source stale k1] by (simp_all add: b)
        have k3: "open_fds k3 = open_fds k2" "bad_close k3 = bad_close k2" "inet_pton k3 = inet_pton k2"
          using sys_bind_listen_frame(3,6) [of fd remote "word_of_int (gen_port opts)" k2]
            inet_pton_calls(3) [of fd remote "word_of_int (gen_port opts)" k2] by (simp_all add: c)
        have close: "open_fds (sys_close fd k2) = open_fds k" "bad_close (sys_close fd k2) = bad_close k"
            "open_fds (sys_close fd k3) = open_fds k" "bad_close (sys_close fd k3) = bad_close k"
          using close_fresh [of k2 fd "open_fds k"] close_fresh [of k3 fd "open_fds k"] k1 k2 k3 by simp_all
        have "(r, k') = (case berr of Some e \<Rightarrow> (Refused e (''bind()/connect() from '' @ source @ '' failed: '' @ strerror k2 e), sys_close fd k2)
            | None \<Rightarrow> case cerr of Some e \<Rightarrow> (Refused e (''bind()/connect() from '' @ source @ '' failed: '' @ strerror k3 e), sys_close fd k3)
            | None \<Rightarrow> (Established fd, k3))"
          using assms sources Some unfolding connect_once_def Let_def s Inr source_def [symmetric]
          by (simp only: if_False option.case prod.case sum.case b c)
        then show ?thesis
          using k1 k2 k3 close Some by (auto simp: opens_def frame_simps split: option.splits)
      qed
    qed
  qed
  then show "opens r k k'" "r = NotNumeric \<Longrightarrow> source_addresses opts \<noteq> [] \<and> inet_pton k (gen_host opts) = None"
    "r \<noteq> NotNumeric \<Longrightarrow> source_addresses opts = [] \<or> inet_pton k (gen_host opts) \<noteq> None" by blast+
qed

lemma try_connection_opens:
  assumes "try_connection opts stop left n g = (r, g')"
  shows "opens r (gen_kern g) (gen_kern g') \<and> connections g' = connections g \<and> retries g \<le> retries g' \<and>
    retries g' \<le> retries g + int (kMaxAttempts - n) \<and>
    (r = NotNumeric \<longrightarrow> source_addresses opts \<noteq> [] \<and> inet_pton (gen_kern g) (gen_host opts) = None) \<and>
    (r \<noteq> NotNumeric \<longrightarrow> source_addresses opts = [] \<or> inet_pton (gen_kern g) (gen_host opts) \<noteq> None)"
  using assms
proof (induction opts stop left n g rule: try_connection.induct)
  case (1 opts stop left n g)
  obtain x k where once: "connect_once opts (length (connections g)) (left (tries g)) (gen_kern g) = (x, k)" by fastforce
  define g1 where "g1 = g\<lparr>gen_kern := k, tries := tries g + 1\<rparr>"
  note facts = connect_once_opens [OF once]
  note eq = 1(2) [unfolded try_connection.simps [of opts stop left n g] once Let_def fst_conv snd_conv, folded g1_def]
  show ?case
  proof (cases "\<exists>e err. x = Refused e err \<and> is_transient e \<and> n < kMaxAttempts \<and> \<not> stop (tries g1)")
    case True
    then obtain e err where x: "x = Refused e err" and go: "is_transient e \<and> n < kMaxAttempts \<and> \<not> stop (tries g1)" by blast
    have rest: "try_connection opts stop left (n + 1) (g1\<lparr>retries := retries g1 + 1\<rparr>) = (r, g')"
      using eq x go by simp
    have IH: "opens r k (gen_kern g') \<and> connections g' = connections g \<and> retries g + 1 \<le> retries g' \<and>
        retries g' \<le> retries g + 1 + int (kMaxAttempts - (n + 1)) \<and>
        (r = NotNumeric \<longrightarrow> source_addresses opts \<noteq> [] \<and> inet_pton k (gen_host opts) = None) \<and>
        (r \<noteq> NotNumeric \<longrightarrow> source_addresses opts = [] \<or> inet_pton k (gen_host opts) \<noteq> None)"
      using 1(1) [of "(x, k)" g1 e err] once x go rest by (simp add: g1_def)
    moreover have "open_fds k = open_fds (gen_kern g)" "bad_close k = bad_close (gen_kern g)" "inet_pton k = inet_pton (gen_kern g)"
      using facts(1) x by (simp_all add: opens_def)
    ultimately show ?thesis using go unfolding opens_def by (auto split: attempt.splits)
  next
    case False
    then have "r = x" "g' = g1" using eq by (auto split: attempt.splits if_splits)
    with facts show ?thesis by (auto simp: g1_def)
  qed
qed

text \<open>The open descriptors are those open at the start and the connections.\<close>

definition gen_inv :: "Kernel \<Rightarrow> Gen \<Rightarrow> bool" where
  "gen_inv k g \<longleftrightarrow> open_fds (gen_kern g) = rev (connections g) @ open_fds k \<and> distinct (connections g) \<and>
     set (connections g) \<inter> set (open_fds k) = {} \<and> bad_close (gen_kern g) = bad_close k \<and> inet_pton (gen_kern g) = inet_pton k"

lemma gen_print_inv [simp]:
  "gen_inv k (gen_print line g) = gen_inv k g" "connections (gen_print line g) = connections g"
  "retries (gen_print line g) = retries g" "gen_kern (gen_print line g) = gen_kern g" "tries (gen_print line g) = tries g"
  by (simp_all add: gen_print_def gen_inv_def)

lemma gen_texts [simp]:
  "gen_inv k (gen_report figures limit g) = gen_inv k g" "connections (gen_report figures limit g) = connections g"
  "retries (gen_report figures limit g) = retries g"
  "gen_inv k (gen_announce opts limit g) = gen_inv k g" "connections (gen_announce opts limit g) = connections g"
  "retries (gen_announce opts limit g) = retries g"
  "gen_inv k (gen_summary opts figures self limit g) = gen_inv k g"
  "connections (gen_summary opts figures self limit g) = connections g" "retries (gen_summary opts figures self limit g) = retries g"
  by (simp_all add: gen_report_def gen_announce_def gen_summary_def Let_def split: option.split prod.split)

lemma connect_loop_inv:
  assumes "connect_loop opts stop left figures limit todo g = (go, g')" and "gen_inv k g"
  shows "gen_inv k g' \<and> length (connections g) \<le> length (connections g') \<and>
    length (connections g') \<le> length (connections g) + todo \<and>
    (\<not> go \<longrightarrow> source_addresses opts \<noteq> [] \<and> inet_pton k (gen_host opts) = None) \<and>
    (connections g' \<noteq> connections g \<longrightarrow> source_addresses opts = [] \<or> inet_pton k (gen_host opts) \<noteq> None)"
  using assms
proof (induction opts stop left figures limit todo g arbitrary: go g' rule: connect_loop.induct)
  case (2 opts stop left figures limit todo g)
  obtain r g1 where tc: "try_connection opts stop left 0 g = (r, g1)" by fastforce
  note facts = try_connection_opens [OF tc]
  have pton: "inet_pton (gen_kern g) = inet_pton k" using 2(3) by (simp add: gen_inv_def)
  show ?case
  proof (cases "stop (tries g)")
    case True
    with 2(2,3) show ?thesis by simp
  next
    case False
    show ?thesis
    proof (cases r)
      case (Established fd)
      define g2 where "g2 = g1\<lparr>connections := connections g1 @ [fd]\<rparr>"
      define g3 where "g3 = (if int (length (connections g2)) mod report_every opts = 0
          then gen_report figures limit g2 else g2)"
      have inv2: "gen_inv k g2" using facts 2(3) by (auto simp: gen_inv_def opens_def Established g2_def)
      have g3: "gen_inv k g3" "connections g3 = connections g @ [fd]"
        using inv2 facts by (simp_all add: g3_def g2_def)
      have "connect_loop opts stop left figures limit todo g3 = (go, g')"
        using 2(2) False unfolding connect_loop.simps(2) Let_def tc fst_conv snd_conv Established attempt.case
          g2_def [symmetric] g3_def [symmetric] by simp
      from 2(1) [OF False tc [symmetric] _ _ g2_def g3_def this g3(1)] g3 facts pton show ?thesis
        by (auto simp: Established algebra_simps of_nat_diff)
    next
      case (Refused e err)
      with 2(2,3) False tc facts show ?thesis by (auto simp: gen_inv_def opens_def)
    next
      case NotNumeric
      with 2(2,3) False tc facts pton show ?thesis by (auto simp: gen_inv_def opens_def)
    qed
  qed
qed simp

text \<open>One more pass of the loop, that is one more connection, costs at most 200 retries.\<close>

lemma connect_loop_pass:
  "retries (snd (connect_loop opts stop left figures limit j g)) \<le> retries (snd (connect_loop opts stop left figures limit (Suc j) g)) \<and>
   retries (snd (connect_loop opts stop left figures limit (Suc j) g)) \<le> retries (snd (connect_loop opts stop left figures limit j g)) + 200"
proof (induction j arbitrary: g)
  case 0
  obtain r g1 where tc: "try_connection opts stop left 0 g = (r, g1)" by fastforce
  have "retries g \<le> retries g1" "retries g1 \<le> retries g + 200" using try_connection_opens [OF tc] by (simp_all add: kMaxAttempts_def)
  then show ?case by (simp add: tc Let_def split: attempt.split)
next
  case (Suc j)
  obtain r g1 where tc: "try_connection opts stop left 0 g = (r, g1)" by fastforce
  show ?case
  proof (cases r)
    case (Established fd)
    with Suc tc show ?thesis by (subst (1 2 3 4) connect_loop.simps(2)) (simp add: Let_def del: connect_loop.simps(2))
  qed (simp_all add: tc Let_def)
qed

lemma gen_release_facts:
  assumes "gen_inv k g"
  shows "set (open_fds (gen_kern (gen_release g))) = set (open_fds k)" and "bad_close (gen_kern (gen_release g)) = bad_close k"
    and "connections (gen_release g) = connections g" and "retries (gen_release g) = retries g"
proof -
  have c: "distinct (connections g)" "set (connections g) \<subseteq> set (open_fds (gen_kern g))"
    using assms by (auto simp: gen_inv_def)
  show "set (open_fds (gen_kern (gen_release g))) = set (open_fds k)" "bad_close (gen_kern (gen_release g)) = bad_close k"
    using fold_sys_close(1,2) [OF c] assms by (auto simp: gen_release_def Let_def gen_inv_def)
qed (simp_all add: gen_release_def Let_def)

lemma gen_options_target:
  assumes "gen_options argv = Some opts"
  shows "0 < gen_target opts"
proof -
  have keep: "gen_args args o1 = Some o2 \<Longrightarrow> gen_target o2 = gen_target o1" for args o1 o2
    by (induction args o1 rule: gen_args.induct) (auto split: if_splits)
  show ?thesis using assms by (auto simp: gen_options_def Let_def dest!: keep split: if_splits)
qed

section \<open>Properties\<close>

text \<open>The retries counted after \<open>j\<close> passes.\<close>

definition retries_after ::
  "GenOptions \<Rightarrow> (nat \<Rightarrow> bool) \<Rightarrow> (nat \<Rightarrow> errno) \<Rightarrow> (nat \<Rightarrow> string \<times> string) \<Rightarrow> int \<Rightarrow> Kernel \<Rightarrow> nat \<Rightarrow> int" where
  "retries_after opts stop left figures limit k j =
     retries (snd (connect_loop opts stop left figures limit j (gen_announce opts limit (new_gen k))))"

text \<open>C32: the generator stays within its limits and gives everything back. However the run ends, it has opened at most the number of
  connections asked for, each on a descriptor of its own. The retries counted after \<open>j\<close> passes of the loop, which makes one
  connection in each, grow by at most 200 in every pass, and their number at the end is that after the last pass. Afterwards
  exactly the descriptors open before are open, and none was closed twice.\<close>

theorem conn_gen_bounded:
  assumes "conn_gen_main argv limits room stop left figures self ticks k = Some (st, g)"
  shows "set (open_fds (gen_kern g)) = set (open_fds k) \<and> bad_close (gen_kern g) = bad_close k \<and>
    distinct (connections g) \<and> set (connections g) \<inter> set (open_fds k) = {} \<and>
    (case gen_options argv of None \<Rightarrow> st = 2 \<and> connections g = []
     | Some opts \<Rightarrow>
         (let after = retries_after opts stop left figures (raise_fd_limit (fst limits) (snd limits)) k
          in (\<forall>j. after j \<le> after (Suc j) \<and> after (Suc j) \<le> after j + 200) \<and> after 0 = 0 \<and>
             retries g = (if room (gen_target opts) then after (nat (gen_target opts)) else 0)) \<and>
         int (length (connections g)) \<le> gen_target opts \<and> (st \<noteq> 0 \<longrightarrow> connections g = []))"
proof (cases "gen_options argv")
  case None
  with assms show ?thesis by (auto simp: conn_gen_main_def gen_print_def new_gen_def)
next
  case (Some opts)
  define limit where "limit = raise_fd_limit (fst limits) (snd limits)"
  define g0 where "g0 = gen_announce opts limit (new_gen k)"
  obtain go g1 where loop: "connect_loop opts stop left figures limit (nat (gen_target opts)) g0 = (go, g1)" by fastforce
  have g0: "gen_inv k g0" "connections g0 = []" "retries g0 = 0" by (simp_all add: g0_def) (simp_all add: gen_inv_def new_gen_def)
  from connect_loop_inv [OF loop g0(1)] g0(2) have
    inv: "gen_inv k g1" and len: "length (connections g1) \<le> nat (gen_target opts)" and stop: "\<not> go \<longrightarrow> connections g1 = []"
    by auto
  have le: "int (length (connections g1)) \<le> gen_target opts" using len gen_options_target [OF Some] by linarith
  define g2 where "g2 = gen_summary opts figures self limit g1"
  have eq: "(if \<not> room (gen_target opts) then Some (134, g0) else if \<not> go then Some (2, g1)
      else if hold opts \<and> \<not> hold_loop (hold_seconds opts) ticks then None
      else Some (0, gen_release g2)) = Some (st, g)"
    using assms unfolding conn_gen_main_def Some option.case Let_def limit_def [symmetric] g0_def [symmetric] loop
      fst_conv snd_conv g2_def .
  have after: "retries_after opts stop left figures limit k 0 = 0"
      "retries_after opts stop left figures limit k (nat (gen_target opts)) = retries g1"
      "\<forall>j. retries_after opts stop left figures limit k j \<le> retries_after opts stop left figures limit k (Suc j) \<and>
        retries_after opts stop left figures limit k (Suc j) \<le> retries_after opts stop left figures limit k j + 200"
    unfolding retries_after_def g0_def [symmetric] using g0(3) loop connect_loop_pass by simp_all
  consider (full) "\<not> room (gen_target opts)" "g = g0" "st = 134" | (numeric) "room (gen_target opts)" "\<not> go" "g = g1"
    | (ended) "room (gen_target opts)" "go" "g = gen_release g2" "st = 0"
    using eq by (auto split: if_splits)
  then show ?thesis
  proof cases
    case full
    with g0 after gen_options_target [OF Some] show ?thesis by (auto simp: Some gen_inv_def Let_def limit_def [symmetric])
  next
    case numeric
    with stop inv le after show ?thesis by (auto simp: Some gen_inv_def Let_def limit_def [symmetric])
  next
    case ended
    have g2: "gen_inv k g2" "connections g2 = connections g1" "retries g2 = retries g1"
      using inv by (simp_all add: g2_def)
    from gen_release_facts [OF g2(1)] g2 le after ended show ?thesis
      by (auto simp: Some gen_inv_def Let_def limit_def [symmetric])
  qed
qed
text \<open>A world in which the first connection is refused once and everything else succeeds.\<close>

definition demo_busy :: Kernel where
  "demo_busy = quiet_kernel\<lparr>outcomes := (\<lambda>_. [])(Sys_connect := [Some ECONNREFUSED])\<rparr>"

definition demo_argv :: "string list" where
  "demo_argv = [''conn_gen'', ''localhost'', ''5000'', ''2'', ''--hold-seconds'', ''2'']"

theorem conn_gen_bounded_witness:
  "\<exists>g. conn_gen_main demo_argv (None, None) (\<lambda>_. True) (\<lambda>_. False) (\<lambda>_. EOTHER 0) (\<lambda>_. (''0.00'', ''0'')) (None, 7) [(False, 0), (False, 2000000)] demo_busy = Some (0, g) \<and>
     connections g = [3, 4] \<and> retries g = 1 \<and> set (open_fds (gen_kern g)) = {0, 1, 2}"
proof -
  let ?r = "conn_gen_main demo_argv (None, None) (\<lambda>_. True) (\<lambda>_. False) (\<lambda>_. EOTHER 0) (\<lambda>_. (''0.00'', ''0'')) (None, 7) [(False, 0), (False, 2000000)] demo_busy"
  have "map_option (\<lambda>(st, g). (st, connections g, retries g)) ?r = Some (0, [3, 4], 1)" by code_simp
  then obtain g where g: "?r = Some (0, g)" "connections g = [3, 4]" "retries g = 1" by auto
  from conn_gen_bounded [OF g(1)] have "set (open_fds (gen_kern g)) = {0, 1, 2}"
    by (simp add: demo_busy_def quiet_kernel_def insert_commute)
  with g show ?thesis by blast
qed

text \<open>Lists of addresses are taken apart faithfully. Splitting at commas gives pieces without commas that join to the
  argument again, and it undoes joining any non-empty list of such pieces, empty pieces included.\<close>

theorem split_commas_roundtrip:
  "join_commas (split_commas line) = line \<and> list_all (\<lambda>x. CHR '','' \<notin> set x) (split_commas line) \<and>
   (xs \<noteq> [] \<and> list_all (\<lambda>x. CHR '','' \<notin> set x) xs \<longrightarrow> split_commas (join_commas xs) = xs)"
  using split_commas_sound [of line] split_join [of xs] by blast

theorem split_commas_roundtrip_witness: "split_commas ''127.0.0.1,,127.0.0.2'' = [''127.0.0.1'', [], ''127.0.0.2'']"
  using split_commas_roundtrip [of "[]" "[''127.0.0.1'', [], ''127.0.0.2'']"] by simp

end
