(* ===== verification/Spec2Isabelle.thy ===== *)
theory Spec2Isabelle
  imports Server_Lifecycle Server_Drain Server_Process Conversation Event_Waits Conn_Gen
begin

text \<open>
  \<^bold>\<open>The Socket Exchange: a verification library.\<close>

  The program is a trading exchange over TCP, written in C++17 under \<^verbatim>\<open>src/src\<close>: a single-threaded server that
  keeps an order book per instrument and pushes notifications to traders and market-data clients, two
  interactive clients that share one shell, and a generator of idle connections. This library models the code
  function by function and proves what makes it correct.

  \<^bold>\<open>Parts and theories.\<close>
  \<^item> \<open>Exchange_Prelude\<close>: strings and numbers of the C and C++ library, error numbers, 64-bit \<^verbatim>\<open>long\<close>, the
    collections \<open>frame_simps\<close> and \<open>text_simps\<close>, generic lemmas.
  \<^item> \<open>Order_Book\<close> (\<^verbatim>\<open>trading/order_book.hpp\<close>, \<^verbatim>\<open>.cpp\<close>): the book with its list nodes, the iterators kept in
    \<^verbatim>\<open>index_\<close> and a flag for an iterator that is followed after its node is gone; an abstract book of plain
    queues; the interface \<open>order_store\<close> that the server relies on.
  \<^item> \<open>Message_Parser\<close> (\<^verbatim>\<open>protocol/message_parser.hpp\<close>, \<^verbatim>\<open>.cpp\<close>): tokens, verbs, arguments, error texts, responses.
  \<^item> \<open>Event_Loop\<close> (\<^verbatim>\<open>network/event_loop.hpp\<close>, \<^verbatim>\<open>.cpp\<close>): the \<^verbatim>\<open>poll\<close> and the \<^verbatim>\<open>kqueue\<close> backend, each with its
    bookkeeping, behind one interface (\<open>readiness\<close>).
  \<^item> \<open>Posix\<close>: the system calls. A \<open>Kernel\<close> holds scripts of the results to come and the state the
    properties speak of (open descriptors, bytes handed over, socket settings).
  \<^item> \<open>Socket_Utils\<close>, \<open>Tcp_Server\<close>, \<open>Client_Session\<close> (the files of the same names under \<^verbatim>\<open>network\<close>).
  \<^item> \<open>Server_State\<close>, \<open>Server_Protocol\<close>, \<open>Exchange_Server\<close> (\<^verbatim>\<open>exchange_server.cpp\<close>): the class \<^verbatim>\<open>ExchangeServer\<close>;
    first its members with dropping, output and orderly close, then input and the handlers, then accepting, the
    dispatch of events, \<^verbatim>\<open>run\<close>, \<^verbatim>\<open>start\<close>, shutdown and the destructor.
  \<^item> \<open>Exchange_Spec\<close>: the abstract exchange the server promises, without connections and buffers: members with a role, a
    book of plain queues, and the rules for what a line changes and who is told what.
  \<^item> \<open>Tcp_Client\<close> (\<^verbatim>\<open>network/tcp_client.hpp\<close>, \<^verbatim>\<open>.cpp\<close>), \<open>Client_Shell\<close> (\<^verbatim>\<open>client_shell.hpp\<close>, \<^verbatim>\<open>.cpp\<close>), \<open>Programs\<close> (the three
    \<^verbatim>\<open>main\<close> functions) and \<open>Conn_Gen\<close> (\<^verbatim>\<open>tools/conn_gen.cpp\<close>).

  \<^bold>\<open>How the code is rendered.\<close> A class is a record, a method a function that takes the record and returns it changed;
  errors are values of a sum or option type or the code's own flags; a \<^verbatim>\<open>std::unordered_map\<close> is a map, or an
  association list where the code iterates or counts. A reference to a session is its value, written back to
  the map before anything else can read it. What a program prints is a list of lines; text that came over the
  network is printed up to its first zero byte (\<open>c_str\<close>), and strings of the command line hold none. A signal is the end
  of the list of wakeups a loop runs on, or a mark in it. Every theorem is about all scripts: all sequences of results the
  interfaces document, including partial writes, interruptions and failures at any call.

  \<^bold>\<open>Bounds and termination.\<close> Every loop over a system call ends with its script, so the functions are total and need no
  fuel: an exhausted \<^verbatim>\<open>send\<close>, \<^verbatim>\<open>recv\<close> or \<^verbatim>\<open>accept\<close> reports \<^verbatim>\<open>EAGAIN\<close>. Where the code can wait for ever
  (a client's wait for writability, the hold of the generator) the result is an option and \<^term>\<open>None\<close> means that it
  never returns; \<open>send_message_returns\<close> shows when it does, and \<open>backlog_drains\<close> how many wakeups the server needs to
  send what is queued. Integers the code computes with are words where they
  could wrap (digits of a message, poll masks, the \<^verbatim>\<open>int\<close> of \<^verbatim>\<open>atoi\<close>, descriptor limits) and \<^typ>\<open>int\<close> elsewhere. Order numbers are an
  \<^typ>\<open>int\<close> where the code has a \<^verbatim>\<open>long\<close>: the two differ after \<open>2 ^ 63\<close> orders. The clock stands still while one batch of
  events is handled.

  \<^bold>\<open>What is shown.\<close>
  \<^item> The book: iterators never dangle, matching follows price and time with a closed form of the executions,
    quantities are conserved, it is never crossed, it refines plain queues, cancellation and its errors.
  \<^item> The protocol: the grammar, the round trip of rendering and parsing, exact integers, single-line responses.
  \<^item> The event loop: both backends register the same interest, the index stays consistent, the kernel's filters
    mirror the records, and (\<open>Event_Waits\<close>) a kqueue wait reports everything the kernel has to say, each descriptor once.
  \<^item> Sockets: no descriptor leaks on any failing path.
  \<^item> The server. The interfaces are locales. \<open>output_effects\<close> is what a relation between states has to satisfy of printing,
    sending and closing; \<open>server_effects\<close> adds the primitive operations of the handlers and concludes that every
    handler keeps the relation; \<open>cutting_effects\<close>, \<open>message_effects\<close>, \<open>io_effects\<close>, \<open>reading_effects\<close> and \<open>input_effects\<close>
    build on them up to a read. \<open>loop_invariant\<close>, \<open>message_invariant\<close> and \<open>server_invariant\<close> do the
    same for predicates and conclude that they hold in every state of the main loop (\<open>serving\<close>) and at the end of \<^verbatim>\<open>run\<close>.
    \<open>Server_Invariants\<close>, \<open>Server_Descriptors\<close>, \<open>Server_Registry\<close>, \<open>Server_Interest\<close> and \<open>Server_Streams\<close>
    interpret the latter for the sessions, the descriptors, the registries with the types of what is stored, the registrations
    and the outgoing streams; \<open>Server_Properties\<close> states the results for a server that has been started. \<open>Server_Delivery\<close> shows
    who is told what about an order and for which reasons a client may be lost meanwhile (\<open>lost\<close>), \<open>Server_Lifecycle\<close> what a role, a dropped
    client, a shortage of descriptors and an aborted handshake mean,
    \<open>Server_Input\<close> that input is bounded and never left unread. \<open>Server_Framing\<close> adds the locale
    \<open>server_commutes\<close>, a transformation of states that commutes with the primitive operations and so with every handler,
    and concludes that it makes no difference in which pieces the bytes of a client arrive. \<open>Server_Refinement\<close> shows that the
    server implements the abstract exchange: every state, every line and every read, and that a line makes nobody leave without a
    reason. \<open>Server_Drain\<close> shows that
    queued output gets out, and \<open>Server_Process\<close> that the process returns every descriptor, its destructors included.
  \<^item> The clients: messages are handed over whole and heard as lines however the stream is cut, the shell
    forwards what is typed and gives its connection back, the commands it sends on its own are understood.
  \<^item> The generator stays within its limits, for every connection by itself, and closes what it opened.
  \<^item> \<open>Conversation\<close>: client and server end to end, from the commands a client sends over the bytes in any pieces to the answers
    it hears.
  \<^item> This theory: that what the parser lets through keeps everything the server stores well typed, and server and client together.

  \<^bold>\<open>Not modelled.\<close> Floating-point arithmetic (the figures the generator prints are arguments, time is counted in whole
  units), flushing of the standard streams, the installation of signal handlers, the effect of raising the descriptor limit, and
  the kernel's own behaviour beyond what the calls document. The test suites, experiment scripts, launchers and the report
  are not part of the program.
\<close>

section \<open>Parser, book and server\<close>

text \<open>C12: what the server stores is well typed. At all times every resting order is for a listed instrument, with
  quantity and price between 1 and \<open>10 ^ 18 - 1\<close>, so that they fit the \<^verbatim>\<open>long\<close> that holds them, and an order number that
  has been given out; every logged-in client has a user name of 1 to 64 bytes without
  white space; and every subscription of a client is to a listed instrument.\<close>

theorem server_typed:
  assumes "booted l s0" and "serving s0 s"
  shows "(\<forall>r \<in> resting (book s). is_valid_instrument (o_instrument r) \<and> 0 < o_quantity r \<and> o_quantity r < 10 ^ 18 \<and>
      0 < o_price r \<and> o_price r < 10 ^ 18 \<and> o_id r < next_order_id (book s)) \<and>
    (\<forall>fd ss. session s fd = Some ss \<longrightarrow>
      (logged_in ss \<longrightarrow> username ss \<noteq> [] \<and> length (username ss) \<le> 64 \<and> (\<forall>c \<in> set (username ss). \<not> isspace c)) \<and>
      list_all is_valid_instrument (subscriptions ss))"
proof -
  have "registry_inv (set (open_fds (kern s0))) s"
    using rg.serving_invariant [OF assms(2) booted_registry [OF assms(1)]] .
  then have orders: "book_inv (book s)" "\<forall>r \<in> resting (book s). order_ok r"
      and clients: "\<And>fd ss. session s fd = Some ss \<Longrightarrow> ident_ok (ident_of ss)"
    by (auto simp: registry_inv_def reg_ok_def orders_ok_def idents_def)
  show ?thesis
    using orders resting_id_less [OF orders(1)] clients
    by (fastforce simp: order_ok_def order_terms_def ident_ok_def user_name_def is_word_def)
qed

theorem server_typed_witness:
  "\<exists>ss. session demo_chat 4 = Some ss \<and> logged_in ss \<and> username ss = ''ann'' \<and> length (username ss) \<le> 64 \<and>
     list_all is_valid_instrument (subscriptions ss)"
proof -
  have "map_option (\<lambda>ss. (logged_in ss, username ss)) (session demo_chat 4) = Some (True, ''ann'')" by code_simp
  then obtain ss where ss: "session demo_chat 4 = Some ss" "logged_in ss" "username ss = ''ann''" by auto
  then show ?thesis using server_typed [OF demo_chat_booted demo_chat_serving(2)] by blast
qed

section \<open>Server and client\<close>

text \<open>C26: what the server says is what the client hears. In every state the server's main loop passes through, take a
  client that reads all the bytes the server has queued or handed over for it, in whatever pieces: it
  receives exactly the lines the server sent, in order and none of them in part, and nothing is left
  over in its buffer.\<close>

theorem client_hears_server:
  assumes "booted l s0" and "serving s0 s" and "session s fd = Some ss"
    and "script_bytes (recv_script k (c_fd c)) = wire (kern s) fd @ pending ss" and "c_inbuf c = []"
    and "recv_weight (recv_script k (c_fd c)) \<le> n" and "receive_calls n c k = (messages, c', k')"
  shows "c_inbuf c' = [] \<and>
    (\<exists>lines. wire (kern s) fd @ pending ss = unlines lines \<and> list_all (\<lambda>l. LF \<notin> set l) lines \<and> messages = map strip_cr lines)"
proof -
  let ?stream = "wire (kern s) fd @ pending ss"
  have whole: "?stream = [] \<or> last ?stream = LF"
    using st.serving_invariant [OF assms(2) booted_streams [OF assms(1)]] assms(3)
    by (auto simp: streams_inv_def streams_ok_def whole_lines_def)
  from receive_calls_lines [OF assms(7,6,5) whole assms(4)] show ?thesis by blast
qed

theorem client_hears_server_witness:
  "\<exists>ss. session demo_chat 4 = Some ss \<and> wire (kern demo_chat) 4 = ''O'' \<and> pending ss = ''K'' @ [LF] \<and>
     fst (receive_calls 9 demo_conn (quiet_kernel\<lparr>recv_script := (\<lambda>_. [Data ''O'', Data (''K'' @ [LF])])\<rparr>)) = [''OK'']"
proof -
  have "(\<lambda>t. (wire (kern t) 4, map_option pending (session t 4))) demo_chat = (''O'', Some (''K'' @ [LF]))" by code_simp
  then obtain ss where ss: "session demo_chat 4 = Some ss" "wire (kern demo_chat) 4 = ''O''" "pending ss = ''K'' @ [LF]" by auto
  let ?k = "quiet_kernel\<lparr>recv_script := (\<lambda>_. [Data ''O'', Data (''K'' @ [LF])])\<rparr>"
  obtain messages c' k' where r: "receive_calls 9 demo_conn ?k = (messages, c', k')" by (metis surj_pair)
  have "\<exists>lines. wire (kern demo_chat) 4 @ pending ss = unlines lines \<and> list_all (\<lambda>l. LF \<notin> set l) lines \<and> messages = map strip_cr lines"
    using client_hears_server [OF demo_chat_booted demo_chat_serving(2) ss(1) _ _ _ r] ss by (simp add: demo_conn_def new_client_def)
  then obtain lines where lines: "''OK'' @ [LF] = unlines lines" "list_all (\<lambda>l. LF \<notin> set l) lines" "messages = map strip_cr lines"
    by (auto simp: ss)
  have "split_lines (unlines lines @ []) = (lines, [])" using lines(2) by (intro split_unlines) (simp_all add: list_all_iff)
  then have "lines = [''OK'']" by (simp flip: lines(1))
  with lines(3) r ss show ?thesis by (simp add: strip_cr_def)
qed

end
